(* ===== verification/Prelude.thy ===== *)
theory Prelude
  imports Main "HOL-Library.Word"
begin

text \<open>
  What every component of the development shares: the shape of a piece of Rust code that
  works on shared memory (\<open>prog\<close>), its execution by one thread alone (\<open>exec\<close>), its
  interleaving with the code of other threads (\<open>tstep\<close>, \<open>pstep\<close>, \<open>reach\<close>), and the generic
  lemmas about them.

  A program is a tree of atomic actions on a shared state of type \<open>'s\<close>:
  \<^item> \<open>Act u k\<close> is one atomic access: the state becomes \<open>u s\<close> and the program goes on as
    \<open>k s\<close>, where \<open>s\<close> is the state before the access (an atomic read-modify-write returns
    the old value);
  \<^item> \<open>Wait g p\<close> blocks the thread until \<open>g\<close> holds, and then takes the first action of \<open>p\<close> at
    once, as the lock of a mutex does;
  \<^item> \<open>Pick k\<close> is a choice that the code does not make: a spurious failure of
    \<open>compare_exchange_weak\<close>, a timeout;
  \<^item> \<open>Ret r\<close> returns, \<open>Panic m\<close> panics with a message, and \<open>Hang\<close> is where a loop that
    was given a finite number of iterations has used them up.
  Memory is sequentially consistent here: the \<open>Ordering\<close> arguments of the source are not
  part of the model.
\<close>

subsection \<open>Programs and their outcomes\<close>

datatype 'r outcome = Returned 'r | Panicked string | Blocked | OutOfFuel

datatype ('s, 'r) prog =
    Ret 'r
  | Panic string
  | Hang
  | Act "'s \<Rightarrow> 's" "'s \<Rightarrow> ('s, 'r) prog"
  | Wait "'s \<Rightarrow> bool" "('s, 'r) prog"
  | Pick "bool \<Rightarrow> ('s, 'r) prog"

primrec bind :: "('s, 'a) prog \<Rightarrow> ('a \<Rightarrow> ('s, 'b) prog) \<Rightarrow> ('s, 'b) prog" where
  "bind (Ret r) f = f r"
| "bind (Panic m) f = Panic m"
| "bind Hang f = Hang"
| "bind (Act u k) f = Act u (\<lambda>s. bind (k s) f)"
| "bind (Wait g p) f = Wait g (bind p f)"
| "bind (Pick k) f = Pick (\<lambda>b. bind (k b) f)"

lemma bind_Ret_right [simp]: "bind p Ret = p"
  by (induction p) auto

lemma bind_assoc: "bind (bind p f) g = bind p (\<lambda>r. bind (f r) g)"
  by (induction p) auto

text \<open>A program with no panic on any of its paths.\<close>

primrec never_panics :: "('s, 'r) prog \<Rightarrow> bool" where
  "never_panics (Ret r) = True"
| "never_panics (Panic m) = False"
| "never_panics Hang = True"
| "never_panics (Act u k) = (\<forall>s. never_panics (k s))"
| "never_panics (Wait g p) = never_panics p"
| "never_panics (Pick k) = (\<forall>b. never_panics (k b))"

subsection \<open>Execution by one thread alone\<close>

text \<open>
  The list of booleans is the outcome of the choices, in order; when it has run out every
  choice is \<open>False\<close>. What is left of it is returned, so that \<open>exec\<close> composes.
\<close>

primrec exec :: "('s, 'r) prog \<Rightarrow> bool list \<Rightarrow> 's \<Rightarrow> 'r outcome \<times> 's \<times> bool list" where
  "exec (Ret r) os s = (Returned r, s, os)"
| "exec (Panic m) os s = (Panicked m, s, os)"
| "exec Hang os s = (OutOfFuel, s, os)"
| "exec (Act u k) os s = exec (k s) os (u s)"
| "exec (Wait g p) os s = (if g s then exec p os s else (Blocked, s, os))"
| "exec (Pick k) os s =
     (case os of [] \<Rightarrow> exec (k False) [] s | b # bs \<Rightarrow> exec (k b) bs s)"

definition run :: "('s, 'r) prog \<Rightarrow> bool list \<Rightarrow> 's \<Rightarrow> 'r outcome \<times> 's" where
  "run p os s = (case exec p os s of (r, s', _) \<Rightarrow> (r, s'))"

text \<open>What happens to the value of a program that another program is waiting for.\<close>

primrec and_then ::
  "'a outcome \<Rightarrow> ('a \<Rightarrow> 'b outcome \<times> 's \<times> bool list) \<Rightarrow> 's \<times> bool list \<Rightarrow> 'b outcome \<times> 's \<times> bool list"
where
  "and_then (Returned r) f so = f r"
| "and_then (Panicked m) f so = (Panicked m, so)"
| "and_then Blocked f so = (Blocked, so)"
| "and_then OutOfFuel f so = (OutOfFuel, so)"

lemma exec_bind:
  "exec (bind p f) os s =
     (case exec p os s of (r, s', os') \<Rightarrow> and_then r (\<lambda>a. exec (f a) os' s') (s', os'))"
proof (induction p arbitrary: os s)
  case (Pick k)
  then show ?case by (cases os) auto
qed auto

lemma exec_bind_Returned:
  "exec p os s = (Returned r, s', os') \<Longrightarrow> exec (bind p f) os s = exec (f r) os' s'"
  by (simp add: exec_bind)

lemma exec_bind_Panicked:
  "exec p os s = (Panicked m, s', os') \<Longrightarrow> exec (bind p f) os s = (Panicked m, s', os')"
  by (simp add: exec_bind)

lemma exec_bind_OutOfFuel:
  "exec p os s = (OutOfFuel, s', os') \<Longrightarrow> exec (bind p f) os s = (OutOfFuel, s', os')"
  by (simp add: exec_bind)

lemma exec_bind_Blocked:
  "exec p os s = (Blocked, s', os') \<Longrightarrow> exec (bind p f) os s = (Blocked, s', os')"
  by (simp add: exec_bind)

lemma run_exec: "exec p os s = (r, s', os') \<Longrightarrow> run p os s = (r, s')"
  by (simp add: run_def)

text \<open>\<open>does p os s Q\<close>: alone, the program returns, and \<open>Q\<close> holds of the result and the state.\<close>

definition does :: "('s, 'r) prog \<Rightarrow> bool list \<Rightarrow> 's \<Rightarrow> ('r \<Rightarrow> 's \<Rightarrow> bool) \<Rightarrow> bool" where
  "does p os s Q = (\<exists>r s' os'. exec p os s = (Returned r, s', os') \<and> Q r s')"

lemma doesI: "\<exists>s' os'. exec p os s = (Returned r, s', os') \<and> P s' \<Longrightarrow> does p os s (\<lambda>x s'. x = r \<and> P s')"
  unfolding does_def by blast

lemma doesI_det: "\<exists>s'. exec p os s = (Returned r, s', os) \<and> P s' \<Longrightarrow> does p os s (\<lambda>x s'. x = r \<and> P s')"
  unfolding does_def by blast

lemma does_Ret [simp]: "does (Ret r) os s Q = Q r s"
  by (simp add: does_def)

lemma does_bind:
  assumes "does p os s Q" and "\<And>r s' os'. Q r s' \<Longrightarrow> does (f r) os' s' R"
  shows "does (bind p f) os s R"
  using assms unfolding does_def by (force simp: exec_bind)

lemma does_weaken: "does p os s Q \<Longrightarrow> (\<And>r s'. Q r s' \<Longrightarrow> R r s') \<Longrightarrow> does p os s R"
  unfolding does_def by blast

lemma does_run: "does p os s Q \<Longrightarrow> \<exists>r s'. run p os s = (Returned r, s') \<and> Q r s'"
  by (auto simp: does_def run_def)

subsection \<open>Interleaving\<close>

text \<open>
  One step of one thread: an action, the first action after a wait that is over, or an action
  that depends on a choice; the wait and the choice are part of the step.
\<close>

inductive tstep :: "('s, 'r) prog \<Rightarrow> 's \<Rightarrow> ('s, 'r) prog \<Rightarrow> 's \<Rightarrow> bool" where
  act: "tstep (Act u k) s (k s) (u s)"
| wait: "g s \<Longrightarrow> tstep p s p' s' \<Longrightarrow> tstep (Wait g p) s p' s'"
| pick: "tstep (k b) s p' s' \<Longrightarrow> tstep (Pick k) s p' s'"

inductive_cases tstep_RetE [elim!]: "tstep (Ret r) s p' s'"
inductive_cases tstep_PanicE [elim!]: "tstep (Panic m) s p' s'"
inductive_cases tstep_HangE [elim!]: "tstep Hang s p' s'"
inductive_cases tstep_ActE [elim!]: "tstep (Act u k) s p' s'"
inductive_cases tstep_WaitE [elim!]: "tstep (Wait g p) s p' s'"
inductive_cases tstep_PickE [elim!]: "tstep (Pick k) s p' s'"

text \<open>A number of threads over one shared state: any of them may take the next step.\<close>

type_synonym ('s, 'r) config = "'s \<times> ('s, 'r) prog list"

inductive pstep :: "('s, 'r) config \<Rightarrow> ('s, 'r) config \<Rightarrow> bool" where
  thread: "i < length ps \<Longrightarrow> tstep (ps ! i) s p' s' \<Longrightarrow> pstep (s, ps) (s', ps[i := p'])"

inductive reach :: "('s, 'r) config \<Rightarrow> ('s, 'r) config \<Rightarrow> bool" for c where
  start: "reach c c"
| step: "reach c d \<Longrightarrow> pstep d e \<Longrightarrow> reach c e"

lemma reach_trans: "reach d e \<Longrightarrow> reach c d \<Longrightarrow> reach c e"
  by (induction rule: reach.induct) (auto intro: reach.intros)

lemma reach_threads: "reach c d \<Longrightarrow> length (snd d) = length (snd c)"
  by (induction rule: reach.induct) (auto elim: pstep.cases)

text \<open>
  A schedule names the thread that takes each step and the choice it gets; \<open>sched\<close> follows
  a schedule, and stops short when the named thread cannot move.
\<close>

primrec thread_step :: "('s, 'r) prog \<Rightarrow> bool \<Rightarrow> 's \<Rightarrow> (('s, 'r) prog \<times> 's) option" where
  "thread_step (Ret r) b s = None"
| "thread_step (Panic m) b s = None"
| "thread_step Hang b s = None"
| "thread_step (Act u k) b s = Some (k s, u s)"
| "thread_step (Wait g p) b s = (if g s then thread_step p b s else None)"
| "thread_step (Pick k) b s = thread_step (k b) b s"

fun sched :: "(nat \<times> bool) list \<Rightarrow> ('s, 'r) config \<Rightarrow> ('s, 'r) config option" where
  "sched [] c = Some c"
| "sched ((i, b) # is) (s, ps) =
     (if i < length ps
      then (case thread_step (ps ! i) b s of
              None \<Rightarrow> None
            | Some (p', s') \<Rightarrow> sched is (s', ps[i := p']))
      else None)"

lemma thread_step_tstep: "thread_step p b s = Some (p', s') \<Longrightarrow> tstep p s p' s'"
  by (induction p) (auto intro: tstep.intros split: if_splits)

lemma sched_reach: "sched is c = Some d \<Longrightarrow> reach c d"
proof (induction "is" c rule: sched.induct)
  case (1 c)
  then show ?case by (simp add: reach.start)
next
  case (2 i b "is" s ps)
  from "2.prems" obtain p' s'
    where i: "i < length ps" and st: "thread_step (ps ! i) b s = Some (p', s')"
      and rest: "sched is (s', ps[i := p']) = Some d"
    by (auto split: if_splits option.splits)
  from i st have "pstep (s, ps) (s', ps[i := p'])"
    by (intro pstep.thread thread_step_tstep)
  then have "reach (s, ps) (s', ps[i := p'])"
    by (rule reach.step [OF reach.start])
  moreover have "reach (s', ps[i := p']) d"
    using "2.IH" [OF i st] rest by auto
  ultimately show ?case by (rule reach_trans [rotated])
qed

text \<open>Running one thread alone is one of the interleavings.\<close>

lemma reach_thread:
  assumes "reach (s, ps) (s', qs)" and "i < length qs" and "tstep (qs ! i) s' p'' s''"
  shows "reach (s, ps) (s'', qs[i := p''])"
  using assms by (blast intro: reach.step pstep.thread)

end
