(* ===== verification/MaybeCell.thy ===== *)
theory MaybeCell
  imports Prelude
begin

text \<open>
  The cells of the crate \<open>maybe-cell\<close>: \<open>checked::Maybe\<close> and \<open>unchecked::Maybe\<close>, an
  \<open>UnsafeCell<MaybeUninit<T>>\<close> with and without a flag that records whether it is loaded, and
  the two \<open>MaybeCopy\<close> variants.  The memory of the cell is an \<open>'a option\<close>, \<open>None\<close> being
  memory that was never written; \<open>ptr::read\<close> copies the bits and leaves them in place.  Reading
  uninitialised memory is the error \<open>Uninit\<close> (undefined behaviour in Rust), a failed
  \<open>assert_eq!\<close> is \<open>Assert\<close> with its message.  The value of a failed operation keeps the cell
  as the operation left it.
\<close>

datatype cell_error = Assert string | Uninit

type_synonym ('c, 'r) cell_result = "'c \<times> (cell_error + 'r)"

subsection \<open>checked::Maybe\<close>

record 'a maybe =
  data :: "'a option"
  loaded :: bool

definition maybe_empty :: "'a maybe" where
  "maybe_empty = \<lparr>data = None, loaded = False\<rparr>"

definition maybe_new :: "'a \<Rightarrow> 'a maybe" where
  "maybe_new d = \<lparr>data = Some d, loaded = True\<rparr>"

definition read_memory :: "'c \<Rightarrow> 'a option \<Rightarrow> ('c, 'a) cell_result" where
  "read_memory c d = (case d of None \<Rightarrow> (c, Inl Uninit) | Some x \<Rightarrow> (c, Inr x))"

definition maybe_as_ptr :: "'a maybe \<Rightarrow> ('a maybe, 'a option) cell_result" where
  "maybe_as_ptr c =
     (if loaded c \<noteq> True then (c, Inl (Assert ''as_ptr for uninitialized cell''))
      else (c, Inr (data c)))"

definition maybe_as_mut_ptr ::
  "('a option \<Rightarrow> 'a option) \<Rightarrow> 'a maybe \<Rightarrow> ('a maybe, unit) cell_result" where
  "maybe_as_mut_ptr f c =
     (if loaded c \<noteq> True then (c, Inl (Assert ''as_mut_ptr for uninitialized cell''))
      else (c\<lparr>data := f (data c)\<rparr>, Inr ()))"

definition maybe_as_ref :: "'a maybe \<Rightarrow> ('a maybe, 'a) cell_result" where
  "maybe_as_ref c =
     (if loaded c \<noteq> True then (c, Inl (Assert ''as_ref for uninitialized cell''))
      else read_memory c (data c))"

definition maybe_as_mut :: "('a \<Rightarrow> 'a) \<Rightarrow> 'a maybe \<Rightarrow> ('a maybe, unit) cell_result" where
  "maybe_as_mut f c =
     (if loaded c \<noteq> True then (c, Inl (Assert ''as_mut for uninitialized cell''))
      else (case data c of None \<Rightarrow> (c, Inl Uninit)
            | Some x \<Rightarrow> (c\<lparr>data := Some (f x)\<rparr>, Inr ())))"

definition maybe_set_loaded :: "bool \<Rightarrow> 'a maybe \<Rightarrow> 'a maybe" where
  "maybe_set_loaded b c = c\<lparr>loaded := b\<rparr>"

text \<open>\<open>maybe_clear\<close> returns the value that was dropped in place.\<close>

definition maybe_clear :: "'a maybe \<Rightarrow> ('a maybe, 'a) cell_result" where
  "maybe_clear c =
     (let c' = c\<lparr>loaded := False\<rparr> in
      if loaded c \<noteq> True then (c', Inl (Assert ''cleared uninitialized cell''))
      else read_memory c' (data c'))"

definition maybe_load :: "'a maybe \<Rightarrow> ('a maybe, 'a) cell_result" where
  "maybe_load c =
     (let c' = c\<lparr>loaded := False\<rparr> in
      if loaded c \<noteq> True then (c', Inl (Assert ''duplicate load''))
      else read_memory c' (data c'))"

definition maybe_replace :: "'a \<Rightarrow> 'a maybe \<Rightarrow> ('a maybe, 'a) cell_result" where
  "maybe_replace v c =
     (if loaded c \<noteq> True then (c, Inl (Assert ''replace on empty store''))
      else (case data c of None \<Rightarrow> (c, Inl Uninit)
            | Some result \<Rightarrow> (c\<lparr>data := Some v\<rparr>, Inr result)))"

definition maybe_store :: "'a \<Rightarrow> 'a maybe \<Rightarrow> ('a maybe, unit) cell_result" where
  "maybe_store v c =
     (let c' = c\<lparr>loaded := True\<rparr> in
      if loaded c \<noteq> False then (c', Inl (Assert ''duplicate store''))
      else (c'\<lparr>data := Some v\<rparr>, Inr ()))"

definition maybe_drop :: "'a maybe \<Rightarrow> ('a maybe, unit) cell_result" where
  "maybe_drop c =
     (if loaded c \<noteq> False then (c, Inl (Assert ''cell not cleared before drop''))
      else (c, Inr ()))"

definition maybe_from :: "'a \<Rightarrow> 'a maybe" where
  "maybe_from v = maybe_new v"

subsection \<open>checked::MaybeCopy\<close>

text \<open>The same two fields; \<open>load\<close> leaves the cell loaded and \<open>store\<close> does not check it.\<close>

definition maybe_copy_empty :: "'a maybe" where
  "maybe_copy_empty = \<lparr>data = None, loaded = False\<rparr>"

definition maybe_copy_new :: "'a \<Rightarrow> 'a maybe" where
  "maybe_copy_new d = \<lparr>data = Some d, loaded = True\<rparr>"

definition maybe_copy_as_ptr :: "'a maybe \<Rightarrow> ('a maybe, 'a option) cell_result" where
  "maybe_copy_as_ptr c =
     (if loaded c \<noteq> True then (c, Inl (Assert ''as_ptr for uninitialized cell''))
      else (c, Inr (data c)))"

definition maybe_copy_as_mut_ptr ::
  "('a option \<Rightarrow> 'a option) \<Rightarrow> 'a maybe \<Rightarrow> ('a maybe, unit) cell_result" where
  "maybe_copy_as_mut_ptr f c =
     (if loaded c \<noteq> True then (c, Inl (Assert ''as_mut_ptr for uninitialized cell''))
      else (c\<lparr>data := f (data c)\<rparr>, Inr ()))"

definition maybe_copy_as_ref :: "'a maybe \<Rightarrow> ('a maybe, 'a) cell_result" where
  "maybe_copy_as_ref c =
     (if loaded c \<noteq> True then (c, Inl (Assert ''as_ref for uninitialized cell''))
      else read_memory c (data c))"

definition maybe_copy_as_mut ::
  "('a \<Rightarrow> 'a) \<Rightarrow> 'a maybe \<Rightarrow> ('a maybe, unit) cell_result" where
  "maybe_copy_as_mut f c =
     (if loaded c \<noteq> True then (c, Inl (Assert ''as_mut for uninitialized cell''))
      else (case data c of None \<Rightarrow> (c, Inl Uninit)
            | Some x \<Rightarrow> (c\<lparr>data := Some (f x)\<rparr>, Inr ())))"

definition maybe_copy_load :: "'a maybe \<Rightarrow> ('a maybe, 'a) cell_result" where
  "maybe_copy_load c =
     (if loaded c \<noteq> True then (c, Inl (Assert ''load of uninitialized cell''))
      else read_memory c (data c))"

definition maybe_copy_replace :: "'a \<Rightarrow> 'a maybe \<Rightarrow> ('a maybe, 'a) cell_result" where
  "maybe_copy_replace v c =
     (if loaded c \<noteq> True then (c, Inl (Assert ''replace on empty store''))
      else (case data c of None \<Rightarrow> (c, Inl Uninit)
            | Some result \<Rightarrow> (c\<lparr>data := Some v\<rparr>, Inr result)))"

definition maybe_copy_store :: "'a \<Rightarrow> 'a maybe \<Rightarrow> ('a maybe, unit) cell_result" where
  "maybe_copy_store v c = (c\<lparr>loaded := True, data := Some v\<rparr>, Inr ())"

definition maybe_copy_set_loaded :: "bool \<Rightarrow> 'a maybe \<Rightarrow> 'a maybe" where
  "maybe_copy_set_loaded b c = c\<lparr>loaded := b\<rparr>"

subsection \<open>unchecked::Maybe\<close>

record 'a raw_maybe =
  raw :: "'a option"

definition raw_empty :: "'a raw_maybe" where
  "raw_empty = \<lparr>raw = None\<rparr>"

definition raw_new :: "'a \<Rightarrow> 'a raw_maybe" where
  "raw_new d = \<lparr>raw = Some d\<rparr>"

definition raw_as_ptr :: "'a raw_maybe \<Rightarrow> 'a option" where
  "raw_as_ptr c = raw c"

definition raw_as_mut_ptr :: "('a option \<Rightarrow> 'a option) \<Rightarrow> 'a raw_maybe \<Rightarrow> 'a raw_maybe" where
  "raw_as_mut_ptr f c = c\<lparr>raw := f (raw c)\<rparr>"

definition raw_as_ref :: "'a raw_maybe \<Rightarrow> ('a raw_maybe, 'a) cell_result" where
  "raw_as_ref c = read_memory c (raw c)"

definition raw_as_mut :: "('a \<Rightarrow> 'a) \<Rightarrow> 'a raw_maybe \<Rightarrow> ('a raw_maybe, unit) cell_result" where
  "raw_as_mut f c =
     (case raw c of None \<Rightarrow> (c, Inl Uninit) | Some x \<Rightarrow> (c\<lparr>raw := Some (f x)\<rparr>, Inr ()))"

definition raw_set_loaded :: "bool \<Rightarrow> 'a raw_maybe \<Rightarrow> 'a raw_maybe" where
  "raw_set_loaded b c = c"

definition raw_clear :: "'a raw_maybe \<Rightarrow> ('a raw_maybe, 'a) cell_result" where
  "raw_clear c = read_memory c (raw c)"

definition raw_load :: "'a raw_maybe \<Rightarrow> ('a raw_maybe, 'a) cell_result" where
  "raw_load c = read_memory c (raw c)"

definition raw_store :: "'a \<Rightarrow> 'a raw_maybe \<Rightarrow> ('a raw_maybe, unit) cell_result" where
  "raw_store v c = (c\<lparr>raw := Some v\<rparr>, Inr ())"

definition raw_replace :: "'a \<Rightarrow> 'a raw_maybe \<Rightarrow> ('a raw_maybe, 'a) cell_result" where
  "raw_replace v c =
     (case raw_load c of (c', Inl e) \<Rightarrow> (c', Inl e)
      | (c', Inr result) \<Rightarrow> (c'\<lparr>raw := Some v\<rparr>, Inr result))"

text \<open>The copies of \<open>unchecked::MaybeCopy\<close> have the same bodies.\<close>

definition raw_copy_load :: "'a raw_maybe \<Rightarrow> ('a raw_maybe, 'a) cell_result" where
  "raw_copy_load c = read_memory c (raw c)"

definition raw_copy_replace :: "'a \<Rightarrow> 'a raw_maybe \<Rightarrow> ('a raw_maybe, 'a) cell_result" where
  "raw_copy_replace v c =
     (case raw_copy_load c of (c', Inl e) \<Rightarrow> (c', Inl e)
      | (c', Inr result) \<Rightarrow> (c'\<lparr>raw := Some v\<rparr>, Inr result))"

definition raw_copy_store :: "'a \<Rightarrow> 'a raw_maybe \<Rightarrow> ('a raw_maybe, unit) cell_result" where
  "raw_copy_store v c = (c\<lparr>raw := Some v\<rparr>, Inr ())"

subsection \<open>The contract of a cell and its client\<close>

text \<open>
  The users of a cell keep track, in the channel's state word, of whether it is loaded, and
  call \<open>store\<close> on an empty cell and \<open>load\<close>, \<open>clear\<close>, \<open>replace\<close> and \<open>as_ref\<close> on a loaded one.
  \<open>spec_op\<close> is that discipline: the option that the cell stands for, \<open>None\<close> where a call
  breaks the rule.  \<open>cell_op\<close> runs a call on an implementation.
\<close>

datatype 'a cell_call = Store 'a | Load | Clear | Replace 'a | AsRef

datatype 'a reply = Done | Got 'a

fun spec_op :: "'a cell_call \<Rightarrow> 'a option \<Rightarrow> ('a option \<times> 'a reply) option" where
  "spec_op (Store v) None = Some (Some v, Done)"
| "spec_op (Store v) (Some x) = None"
| "spec_op Load (Some x) = Some (None, Got x)"
| "spec_op Clear (Some x) = Some (None, Got x)"
| "spec_op (Replace v) (Some x) = Some (Some v, Got x)"
| "spec_op AsRef (Some x) = Some (Some x, Got x)"
| "spec_op c None = None"

fun spec_calls :: "'a cell_call list \<Rightarrow> 'a option \<Rightarrow> ('a option \<times> 'a reply list) option" where
  "spec_calls [] v = Some (v, [])"
| "spec_calls (c # cs) v =
     (case spec_op c v of None \<Rightarrow> None
      | Some (v', r) \<Rightarrow> (case spec_calls cs v' of None \<Rightarrow> None
          | Some (v'', rs) \<Rightarrow> Some (v'', r # rs)))"

record ('c, 'a) cell_ops =
  op_store :: "'a \<Rightarrow> 'c \<Rightarrow> ('c, unit) cell_result"
  op_load :: "'c \<Rightarrow> ('c, 'a) cell_result"
  op_clear :: "'c \<Rightarrow> ('c, 'a) cell_result"
  op_replace :: "'a \<Rightarrow> 'c \<Rightarrow> ('c, 'a) cell_result"
  op_as_ref :: "'c \<Rightarrow> ('c, 'a) cell_result"

definition reply_of :: "('c, 'a) cell_result \<Rightarrow> ('c, 'a reply) cell_result" where
  "reply_of p = (case p of (c, Inl e) \<Rightarrow> (c, Inl e) | (c, Inr x) \<Rightarrow> (c, Inr (Got x)))"

fun cell_op :: "('c, 'a) cell_ops \<Rightarrow> 'a cell_call \<Rightarrow> 'c \<Rightarrow> ('c, 'a reply) cell_result" where
  "cell_op m (Store v) c =
     (case op_store m v c of (c', Inl e) \<Rightarrow> (c', Inl e) | (c', Inr _) \<Rightarrow> (c', Inr Done))"
| "cell_op m Load c = reply_of (op_load m c)"
| "cell_op m Clear c = reply_of (op_clear m c)"
| "cell_op m (Replace v) c = reply_of (op_replace m v c)"
| "cell_op m AsRef c = reply_of (op_as_ref m c)"

fun cell_calls ::
  "('c, 'a) cell_ops \<Rightarrow> 'a cell_call list \<Rightarrow> 'c \<Rightarrow> ('c, 'a reply list) cell_result" where
  "cell_calls m [] c = (c, Inr [])"
| "cell_calls m (x # xs) c =
     (case cell_op m x c of (c', Inl e) \<Rightarrow> (c', Inl e)
      | (c', Inr r) \<Rightarrow> (case cell_calls m xs c' of (c'', Inl e) \<Rightarrow> (c'', Inl e)
          | (c'', Inr rs) \<Rightarrow> (c'', Inr (r # rs))))"

locale cell =
  fixes m :: "('c, 'a) cell_ops"
    and holds :: "'c \<Rightarrow> 'a option \<Rightarrow> bool"
  assumes store_law: "holds c None \<Longrightarrow> \<exists>c'. op_store m v c = (c', Inr ()) \<and> holds c' (Some v)"
    and load_law: "holds c (Some x) \<Longrightarrow> \<exists>c'. op_load m c = (c', Inr x) \<and> holds c' None"
    and clear_law: "holds c (Some x) \<Longrightarrow> \<exists>c'. op_clear m c = (c', Inr x) \<and> holds c' None"
    and replace_law:
      "holds c (Some x) \<Longrightarrow> \<exists>c'. op_replace m v c = (c', Inr x) \<and> holds c' (Some v)"
    and as_ref_law: "holds c (Some x) \<Longrightarrow> \<exists>c'. op_as_ref m c = (c', Inr x) \<and> holds c' (Some x)"
begin

lemma call_follows_spec:
  assumes "holds c v" and "spec_op x v = Some (v', r)"
  shows "\<exists>c'. cell_op m x c = (c', Inr r) \<and> holds c' v'"
proof (cases v)
  case None
  with assms(2) obtain a where "x = Store a" "v' = Some a" "r = Done" by (cases x) auto
  with assms(1) None store_law [of c a] show ?thesis by auto
next
  case (Some y)
  with assms(1) have h: "holds c (Some y)" by simp
  obtain c1 where c1: "op_load m c = (c1, Inr y)" "holds c1 None" using load_law [OF h] by blast
  obtain c2 where c2: "op_clear m c = (c2, Inr y)" "holds c2 None" using clear_law [OF h] by blast
  obtain c3 where c3: "op_as_ref m c = (c3, Inr y)" "holds c3 (Some y)"
    using as_ref_law [OF h] by blast
  show ?thesis
  proof (cases x)
    case (Replace w)
    obtain c4 where "op_replace m w c = (c4, Inr y)" "holds c4 (Some w)"
      using replace_law [OF h] by blast
    with assms(2) Some Replace show ?thesis by (simp add: reply_of_def)
  qed (use assms(2) Some c1 c2 c3 in \<open>auto simp: reply_of_def\<close>)
qed

lemma calls_follow_spec:
  assumes "holds c v" and "spec_calls xs v = Some (v', rs)"
  shows "\<exists>c'. cell_calls m xs c = (c', Inr rs) \<and> holds c' v'"
  using assms
proof (induction xs arbitrary: c v rs)
  case Nil
  then show ?case by auto
next
  case (Cons x xs)
  from Cons.prems(2) obtain w r rs' where
    x: "spec_op x v = Some (w, r)" and xs: "spec_calls xs w = Some (v', rs')" and rs: "rs = r # rs'"
    by (auto split: option.splits)
  from call_follows_spec [OF Cons.prems(1) x] obtain c1 where
    c1: "cell_op m x c = (c1, Inr r)" and h: "holds c1 w" by blast
  from Cons.IH [OF h xs] obtain c2 where "cell_calls m xs c1 = (c2, Inr rs')" and "holds c2 v'"
    by blast
  with c1 rs show ?case by simp
qed

end

definition checked_ops :: "('a maybe, 'a) cell_ops" where
  "checked_ops = \<lparr>op_store = maybe_store, op_load = maybe_load, op_clear = maybe_clear,
     op_replace = maybe_replace, op_as_ref = maybe_as_ref\<rparr>"

definition unchecked_ops :: "('a raw_maybe, 'a) cell_ops" where
  "unchecked_ops = \<lparr>op_store = raw_store, op_load = raw_load, op_clear = raw_clear,
     op_replace = raw_replace, op_as_ref = raw_as_ref\<rparr>"

text \<open>
  The checked cell records what it holds; the memory of the unchecked one agrees with what
  it holds, but it cannot tell a cell that was emptied from a loaded one.
\<close>

definition checked_holds :: "'a maybe \<Rightarrow> 'a option \<Rightarrow> bool" where
  "checked_holds c v = (loaded c = (v \<noteq> None) \<and> (v \<noteq> None \<longrightarrow> data c = v))"

definition raw_holds :: "'a raw_maybe \<Rightarrow> 'a option \<Rightarrow> bool" where
  "raw_holds c v = (v \<noteq> None \<longrightarrow> raw c = v)"

lemmas checked_defs = maybe_store_def maybe_load_def maybe_clear_def maybe_replace_def
  maybe_as_ref_def read_memory_def Let_def

lemmas raw_defs = raw_store_def raw_load_def raw_clear_def raw_replace_def raw_as_ref_def
  read_memory_def

interpretation chk_cell: cell checked_ops checked_holds
  by unfold_locales (auto simp: checked_ops_def checked_holds_def checked_defs)

interpretation raw_cell: cell unchecked_ops raw_holds
  by unfold_locales (auto simp: unchecked_ops_def raw_holds_def raw_defs)

lemma checked_holds_empty [simp]: "checked_holds maybe_empty None"
  by (simp add: checked_holds_def maybe_empty_def)

lemma checked_holds_new [simp]: "checked_holds (maybe_new v) (Some v)"
  by (simp add: checked_holds_def maybe_new_def)

lemma raw_holds_empty [simp]: "raw_holds raw_empty None"
  by (simp add: raw_holds_def)

text \<open>The checked cell reports every call that breaks the rule, and by an assertion.\<close>

lemma checked_misuse:
  assumes "checked_holds c v" and "spec_op x v = None"
  shows "\<exists>c' msg. cell_op checked_ops x c = (c', Inl (Assert msg))"
  using assms
  by (cases "(x, v)" rule: spec_op.cases)
     (auto simp: reply_of_def checked_ops_def checked_holds_def checked_defs)

lemma checked_calls_misuse:
  assumes "checked_holds c v" and "spec_calls xs v = None"
  shows "\<exists>c' msg. cell_calls checked_ops xs c = (c', Inl (Assert msg))"
  using assms
proof (induction xs arbitrary: c v)
  case Nil
  then show ?case by simp
next
  case (Cons x xs)
  show ?case
  proof (cases "spec_op x v")
    case None
    from checked_misuse [OF Cons.prems(1) this] show ?thesis by auto
  next
    case (Some p)
    obtain w r where p: "p = (w, r)" by fastforce
    with chk_cell.call_follows_spec [OF Cons.prems(1)] Some obtain c1 where
      c1: "cell_op checked_ops x c = (c1, Inr r)" and h: "checked_holds c1 w" by blast
    from Cons.prems(2) Some p have "spec_calls xs w = None" by (auto split: option.splits)
    from Cons.IH [OF h this] c1 show ?thesis by auto
  qed
qed

text \<open>C26. The checked cell decides the discipline: a sequence of calls on an empty cell either
  follows the option it stands for, call by call, or stops at the first misuse with a failed
  assertion; it never reads uninitialised memory.
\<close>

theorem checked_cell_decides:
  "(case spec_calls xs None of
      Some (v, rs) \<Rightarrow> (\<exists>c. cell_calls checked_ops xs maybe_empty = (c, Inr rs) \<and> checked_holds c v)
    | None \<Rightarrow> (\<exists>c msg. cell_calls checked_ops xs maybe_empty = (c, Inl (Assert msg))))"
  using chk_cell.calls_follow_spec [OF checked_holds_empty]
    checked_calls_misuse [OF checked_holds_empty]
  by (auto split: option.splits)

text \<open>C27. Switching the checks off is safe for code that never trips them: whenever the checked
  cell runs a sequence of calls without an error, the unchecked one gives the same replies.
\<close>

theorem unchecked_agrees:
  assumes "cell_calls checked_ops xs maybe_empty = (c, Inr rs)"
  shows "\<exists>c'. cell_calls unchecked_ops xs raw_empty = (c', Inr rs)"
proof (cases "spec_calls xs (None :: 'a option)")
  case None
  from checked_calls_misuse [OF checked_holds_empty this] assms show ?thesis by auto
next
  case (Some p)
  obtain v rs' where p: "p = (v, rs')" by fastforce
  with Some have s: "spec_calls xs None = Some (v, rs')" by simp
  from chk_cell.calls_follow_spec [OF checked_holds_empty s] assms have "rs' = rs" by auto
  with raw_cell.calls_follow_spec [OF raw_holds_empty s] show ?thesis by auto
qed

theorem unchecked_agrees_witness:
  "\<exists>c'. cell_calls unchecked_ops [Store (1::nat), AsRef, Load, Store 2, Replace 3, Clear] raw_empty
     = (c', Inr [Done, Got 1, Got 1, Done, Got 2, Got 3])"
  by (rule unchecked_agrees [where c = "\<lparr>data = Some 3, loaded = False\<rparr>"])
     (simp add: checked_ops_def checked_defs maybe_empty_def reply_of_def)

end
