(* ===== verification/CopyCell.thy ===== *)
theory CopyCell
  imports MaybeCell
begin

text \<open>
  \<open>MaybeCopy\<close> of the crate \<open>maybe-cell\<close>, for values that may be copied: the rest of the
  unchecked variant, and the two variants side by side.  A store needs no empty cell, and a
  load leaves the value in place.
\<close>

subsection \<open>unchecked::MaybeCopy\<close>

definition raw_copy_empty :: "'a raw_maybe" where
  "raw_copy_empty = \<lparr>raw = None\<rparr>"

definition raw_copy_new :: "'a \<Rightarrow> 'a raw_maybe" where
  "raw_copy_new d = \<lparr>raw = Some d\<rparr>"

definition raw_copy_as_ptr :: "'a raw_maybe \<Rightarrow> 'a option" where
  "raw_copy_as_ptr c = raw c"

definition raw_copy_as_mut_ptr :: "('a option \<Rightarrow> 'a option) \<Rightarrow> 'a raw_maybe \<Rightarrow> 'a raw_maybe" where
  "raw_copy_as_mut_ptr f c = c\<lparr>raw := f (raw c)\<rparr>"

definition raw_copy_as_ref :: "'a raw_maybe \<Rightarrow> ('a raw_maybe, 'a) cell_result" where
  "raw_copy_as_ref c = read_memory c (raw c)"

definition raw_copy_as_mut :: "('a \<Rightarrow> 'a) \<Rightarrow> 'a raw_maybe \<Rightarrow> ('a raw_maybe, unit) cell_result" where
  "raw_copy_as_mut f c =
     (case raw c of None \<Rightarrow> (c, Inl Uninit) | Some x \<Rightarrow> (c\<lparr>raw := Some (f x)\<rparr>, Inr ()))"

definition raw_copy_set_loaded :: "bool \<Rightarrow> 'a raw_maybe \<Rightarrow> 'a raw_maybe" where
  "raw_copy_set_loaded b c = c"

text \<open>The conversions from a value, and the one of \<open>unchecked::Maybe\<close>.\<close>

definition raw_from :: "'a \<Rightarrow> 'a raw_maybe" where
  "raw_from v = raw_new v"

definition maybe_copy_from :: "'a \<Rightarrow> 'a maybe" where
  "maybe_copy_from v = maybe_copy_new v"

definition raw_copy_from :: "'a \<Rightarrow> 'a raw_maybe" where
  "raw_copy_from v = raw_copy_new v"

subsection \<open>The calls of a cell\<close>

datatype 'a copy_call = CopyStore 'a | CopyLoad | CopyReplace 'a | CopyRef | CopyMut "'a \<Rightarrow> 'a"

fun copy_spec :: "'a copy_call \<Rightarrow> 'a option \<Rightarrow> ('a option \<times> 'a reply) option" where
  "copy_spec (CopyStore v) _ = Some (Some v, Done)"
| "copy_spec CopyLoad (Some x) = Some (Some x, Got x)"
| "copy_spec (CopyReplace v) (Some x) = Some (Some v, Got x)"
| "copy_spec CopyRef (Some x) = Some (Some x, Got x)"
| "copy_spec (CopyMut f) (Some x) = Some (Some (f x), Done)"
| "copy_spec c None = None"

definition done_of :: "('c, unit) cell_result \<Rightarrow> ('c, 'a reply) cell_result" where
  "done_of p = (case p of (c, Inl e) \<Rightarrow> (c, Inl e) | (c, Inr _) \<Rightarrow> (c, Inr Done))"

primrec checked_copy_op :: "'a copy_call \<Rightarrow> 'a maybe \<Rightarrow> ('a maybe, 'a reply) cell_result" where
  "checked_copy_op (CopyStore v) c = done_of (maybe_copy_store v c)"
| "checked_copy_op CopyLoad c = reply_of (maybe_copy_load c)"
| "checked_copy_op (CopyReplace v) c = reply_of (maybe_copy_replace v c)"
| "checked_copy_op CopyRef c = reply_of (maybe_copy_as_ref c)"
| "checked_copy_op (CopyMut f) c = done_of (maybe_copy_as_mut f c)"

primrec raw_copy_op :: "'a copy_call \<Rightarrow> 'a raw_maybe \<Rightarrow> ('a raw_maybe, 'a reply) cell_result" where
  "raw_copy_op (CopyStore v) c = done_of (raw_copy_store v c)"
| "raw_copy_op CopyLoad c = reply_of (raw_copy_load c)"
| "raw_copy_op (CopyReplace v) c = reply_of (raw_copy_replace v c)"
| "raw_copy_op CopyRef c = reply_of (raw_copy_as_ref c)"
| "raw_copy_op (CopyMut f) c = done_of (raw_copy_as_mut f c)"

text \<open>A sequence of calls on a cell, up to the first error.\<close>

fun run_calls :: "('x \<Rightarrow> 'c \<Rightarrow> ('c, 'r) cell_result) \<Rightarrow> 'x list \<Rightarrow> 'c \<Rightarrow> ('c, 'r list) cell_result" where
  "run_calls f [] c = (c, Inr [])"
| "run_calls f (x # xs) c =
     (case f x c of (c', Inl e) \<Rightarrow> (c', Inl e)
      | (c', Inr r) \<Rightarrow> (case run_calls f xs c' of (c'', Inl e) \<Rightarrow> (c'', Inl e)
          | (c'', Inr rs) \<Rightarrow> (c'', Inr (r # rs))))"

fun copy_specs :: "'a copy_call list \<Rightarrow> 'a option \<Rightarrow> ('a option \<times> 'a reply list) option" where
  "copy_specs [] v = Some (v, [])"
| "copy_specs (x # xs) v =
     (case copy_spec x v of None \<Rightarrow> None
      | Some (v', r) \<Rightarrow> map_option (\<lambda>(v'', rs). (v'', r # rs)) (copy_specs xs v'))"

lemmas copy_defs = maybe_copy_store_def maybe_copy_load_def maybe_copy_replace_def maybe_copy_as_ref_def
  maybe_copy_as_mut_def raw_copy_store_def raw_copy_load_def raw_copy_replace_def raw_copy_as_ref_def
  raw_copy_as_mut_def read_memory_def reply_of_def done_of_def

lemma checked_copy_op_spec:
  assumes "checked_holds c v"
  shows "case copy_spec x v of
      Some (v', r) \<Rightarrow> \<exists>c'. checked_copy_op x c = (c', Inr r) \<and> checked_holds c' v'
    | None \<Rightarrow> \<exists>c' m. checked_copy_op x c = (c', Inl (Assert m))"
  using assms by (cases "(x, v)" rule: copy_spec.cases) (auto simp: copy_defs checked_holds_def)

lemma raw_copy_op_spec:
  "raw_holds c v \<Longrightarrow> copy_spec x v = Some (v', r) \<Longrightarrow> \<exists>c'. raw_copy_op x c = (c', Inr r) \<and> raw_holds c' v'"
  by (cases x; cases v) (auto simp: copy_defs raw_holds_def split: option.split dest: sym)

lemma copy_calls_spec:
  assumes "checked_holds c v" and "raw_holds d v"
  shows "case copy_specs xs v of
      Some (v', rs) \<Rightarrow> (\<exists>c'. run_calls checked_copy_op xs c = (c', Inr rs) \<and> checked_holds c' v') \<and>
        (\<exists>d'. run_calls raw_copy_op xs d = (d', Inr rs))
    | None \<Rightarrow> \<exists>c' m. run_calls checked_copy_op xs c = (c', Inl (Assert m))"
  using assms
proof (induction xs arbitrary: c d v)
  case (Cons x xs)
  note op = checked_copy_op_spec [OF Cons.prems(1), of x]
  show ?case
  proof (cases "copy_spec x v")
    case None
    with op show ?thesis by auto
  next
    case (Some a)
    then obtain v' r where s: "copy_spec x v = Some (v', r)" by (cases a) simp
    with op obtain c' where c': "checked_copy_op x c = (c', Inr r)" "checked_holds c' v'" by auto
    from raw_copy_op_spec [OF Cons.prems(2) s] obtain d' where d': "raw_copy_op x d = (d', Inr r)" "raw_holds d' v'"
      by blast
    from Cons.IH [OF c'(2) d'(2)] c'(1) d'(1) s show ?thesis by (auto split: option.splits)
  qed
qed simp

text \<open>C28. A sequence of calls on an empty \<open>MaybeCopy\<close>, as long as every call but a store finds a
  value, is answered alike by the checked and the unchecked variant, and as the value that was
  stored last says; the checked one stops at the first call that does not, with a failed
  assertion, and neither reads memory that was never written before that.\<close>

theorem copy_cells_agree:
  "case copy_specs xs None of
      Some (v, rs) \<Rightarrow> (\<exists>c. run_calls checked_copy_op xs maybe_copy_empty = (c, Inr rs) \<and> checked_holds c v) \<and>
        (\<exists>c. run_calls raw_copy_op xs raw_copy_empty = (c, Inr rs))
    | None \<Rightarrow> \<exists>c m. run_calls checked_copy_op xs maybe_copy_empty = (c, Inl (Assert m))"
  by (rule copy_calls_spec) (simp_all add: checked_holds_def raw_holds_def maybe_copy_empty_def)

end
