(* ===== verification/CoreTypes.thy ===== *)
theory CoreTypes
  imports Prelude
begin

text \<open>
  The data types that the crates share: \<open>core::task::Poll\<close>, and of \<open>suspend-core\<close> the types
  of \<open>types.rs\<close> and \<open>error.rs\<close>.  Instants and durations are counted in one unit of time from
  an arbitrary origin and do not overflow; \<open>now\<close> is the argument for \<open>Instant::now()\<close>.  The
  wrapper is the one of the feature \<open>std\<close>.
\<close>

type_synonym usize = "64 word"

datatype 'a poll = Ready 'a | Pending

primrec is_ready :: "'a poll \<Rightarrow> bool" where
  "is_ready (Ready x) = True"
| "is_ready Pending = False"

text \<open>\<open>Option::ok_or\<close> and \<open>Result::ok\<close>; a \<open>Result<T, E>\<close> is \<open>'e + 't\<close>.\<close>

definition ok_or :: "'t option \<Rightarrow> 'e \<Rightarrow> 'e + 't" where
  "ok_or x e = (case x of None \<Rightarrow> Inl e | Some t \<Rightarrow> Inr t)"

definition result_ok :: "'e + 't \<Rightarrow> 't option" where
  "result_ok r = (case r of Inl e \<Rightarrow> None | Inr t \<Rightarrow> Some t)"

lemma ok_or_simps [simp]: "ok_or None e = Inl e" "ok_or (Some t) e = Inr t"
  by (simp_all add: ok_or_def)

lemma result_ok_simps [simp]: "result_ok (Inl e) = None" "result_ok (Inr t) = Some t"
  by (simp_all add: result_ok_def)

lemma result_ok_ok_or [simp]: "result_ok (ok_or x e) = x"
  by (cases x) simp_all

definition list_of :: "'a option \<Rightarrow> 'a list" where
  "list_of x = (case x of None \<Rightarrow> [] | Some y \<Rightarrow> [y])"

lemma list_of_simps [simp]: "list_of None = []" "list_of (Some x) = [x]"
  by (simp_all add: list_of_def)

subsection \<open>error.rs and types.rs\<close>

datatype lock_error = Contended | InvalidState | Poisoned

text \<open>The derived order is the one of the constructors.\<close>

primrec lock_error_rank :: "lock_error \<Rightarrow> nat" where
  "lock_error_rank Contended = 0"
| "lock_error_rank InvalidState = 1"
| "lock_error_rank Poisoned = 2"

instantiation lock_error :: linorder
begin

definition less_eq_lock_error :: "lock_error \<Rightarrow> lock_error \<Rightarrow> bool" where
  "less_eq_lock_error a b = (lock_error_rank a \<le> lock_error_rank b)"

definition less_lock_error :: "lock_error \<Rightarrow> lock_error \<Rightarrow> bool" where
  "less_lock_error a b = (lock_error_rank a < lock_error_rank b)"

instance
proof
  fix a b :: lock_error
  show "a \<le> b \<Longrightarrow> b \<le> a \<Longrightarrow> a = b" by (cases a; cases b) (simp_all add: less_eq_lock_error_def)
qed (auto simp: less_eq_lock_error_def less_lock_error_def)

end

definition lock_error_fmt :: "lock_error \<Rightarrow> string" where
  "lock_error_fmt e = ''LockError''"

type_synonym instant = nat
type_synonym duration = nat

datatype expiry = Expiry "instant option"

fun expiry_is_some :: "expiry \<Rightarrow> bool" where
  "expiry_is_some (Expiry i) = (i \<noteq> None)"

text \<open>\<open>checked_duration_since\<close> is \<open>None\<close> when the instant is in the past.\<close>

fun expiry_checked_duration :: "instant \<Rightarrow> expiry \<Rightarrow> duration option" where
  "expiry_checked_duration now (Expiry None) = None"
| "expiry_checked_duration now (Expiry (Some i)) = (if now \<le> i then Some (i - now) else None)"

fun expiry_into_opt_instant :: "expiry \<Rightarrow> instant option" where
  "expiry_into_opt_instant (Expiry i) = i"

definition expiry_from_duration :: "instant \<Rightarrow> duration \<Rightarrow> expiry" where
  "expiry_from_duration now d = Expiry (Some (now + d))"

definition expiry_from_instant :: "instant \<Rightarrow> expiry" where
  "expiry_from_instant i = Expiry (Some i)"

definition expiry_from_opt_duration :: "instant \<Rightarrow> duration option \<Rightarrow> expiry" where
  "expiry_from_opt_duration now d = Expiry (map_option (\<lambda>x. now + x) d)"

datatype park_result = Skipped | TimedOut | Unparked

definition pr_timed_out :: "park_result \<Rightarrow> bool" where
  "pr_timed_out r = (case r of TimedOut \<Rightarrow> True | _ \<Rightarrow> False)"

definition pr_skipped :: "park_result \<Rightarrow> bool" where
  "pr_skipped r = (case r of Skipped \<Rightarrow> True | _ \<Rightarrow> False)"

end
