(* ===== verification/Channel.thy ===== *)
theory Channel
  imports MaybeCell CoreTypes
begin

unbundle bit_operations_syntax

text \<open>
  The core of \<open>suspend-channel/src/channel.rs\<close>: the struct \<open>Channel\<close> with its state word and
  its two cells, and its operations \<open>write\<close>, \<open>flush\<close>, \<open>read\<close> and \<open>drop_one_side\<close> as programs,
  one \<open>Act\<close> for each atomic access, each use of a cell and each call of a waker.  The retry
  loops of \<open>flush\<close> and \<open>read\<close> take the number of iterations they may use.
\<close>

subsection \<open>The channel and its state word\<close>

type_synonym u8 = "8 word"

definition STATE_DONE :: u8 where "STATE_DONE = 0"
definition STATE_ACTIVE :: u8 where "STATE_ACTIVE = 1"
definition STATE_LOADED :: u8 where "STATE_LOADED = 2"
definition STATE_WLOCK :: u8 where "STATE_WLOCK = 4"
definition STATE_RLOCK :: u8 where "STATE_RLOCK = 8"
definition STATE_WAKE :: u8 where "STATE_WAKE = 16"

lemmas state_defs = STATE_DONE_def STATE_ACTIVE_def STATE_LOADED_def STATE_WLOCK_def
  STATE_RLOCK_def STATE_WAKE_def

text \<open>
  The calls into code that the channel is given: the drop of a value, and the four entries
  of a waker's vtable.
\<close>

datatype ('v, 'w) event =
    ValueDropped 'v
  | WakerCloned 'w
  | WakerDropped 'w
  | Woken 'w
  | WokenByRef 'w

text \<open>
  The fields of the struct, then two of the model: how many times the allocation was
  released, and the calls made so far.
\<close>

record ('v, 'w) chan =
  c_state :: u8
  c_value :: "'v maybe"
  c_waker :: "'w maybe"
  freed :: nat
  log :: "('v, 'w) event list"

type_synonym ('v, 'w, 'z, 'r) cprog = "(('v, 'w, 'z) chan_scheme, 'r) prog"

definition new_channel :: "('v, 'w) chan" where
  "new_channel = \<lparr>c_state = STATE_ACTIVE, c_value = maybe_empty, c_waker = maybe_empty,
     freed = 0, log = []\<rparr>"

subsection \<open>Accesses\<close>

text \<open>Every access goes through a pointer to the allocation, and panics after its release.\<close>

definition access ::
  "(('v, 'w, 'z) chan_scheme \<Rightarrow> ('v, 'w, 'z) chan_scheme) \<Rightarrow>
   (('v, 'w, 'z) chan_scheme \<Rightarrow> ('v, 'w, 'z, 'r) cprog) \<Rightarrow> ('v, 'w, 'z, 'r) cprog" where
  "access u k = Act u (\<lambda>s. if freed s = 0 then k s else Panic ''use after free'')"

definition load_state :: "(u8 \<Rightarrow> ('v, 'w, 'z, 'r) cprog) \<Rightarrow> ('v, 'w, 'z, 'r) cprog" where
  "load_state k = access (\<lambda>s. s) (\<lambda>s. k (c_state s))"

definition store_state :: "u8 \<Rightarrow> ('v, 'w, 'z, 'r) cprog \<Rightarrow> ('v, 'w, 'z, 'r) cprog" where
  "store_state x k = access (\<lambda>s. s\<lparr>c_state := x\<rparr>) (\<lambda>s. k)"

definition swap_state :: "u8 \<Rightarrow> (u8 \<Rightarrow> ('v, 'w, 'z, 'r) cprog) \<Rightarrow> ('v, 'w, 'z, 'r) cprog" where
  "swap_state x k = access (\<lambda>s. s\<lparr>c_state := x\<rparr>) (\<lambda>s. k (c_state s))"

definition fetch_or :: "u8 \<Rightarrow> (u8 \<Rightarrow> ('v, 'w, 'z, 'r) cprog) \<Rightarrow> ('v, 'w, 'z, 'r) cprog" where
  "fetch_or m k = access (\<lambda>s. s\<lparr>c_state := c_state s OR m\<rparr>) (\<lambda>s. k (c_state s))"

definition fetch_and :: "u8 \<Rightarrow> (u8 \<Rightarrow> ('v, 'w, 'z, 'r) cprog) \<Rightarrow> ('v, 'w, 'z, 'r) cprog" where
  "fetch_and m k = access (\<lambda>s. s\<lparr>c_state := c_state s AND m\<rparr>) (\<lambda>s. k (c_state s))"

text \<open>The result is \<open>Inr\<close> (Rust's \<open>Ok\<close>) of the old value, or \<open>Inl\<close> of the value found.\<close>

definition compare_exchange ::
  "u8 \<Rightarrow> u8 \<Rightarrow> (u8 + u8 \<Rightarrow> ('v, 'w, 'z, 'r) cprog) \<Rightarrow> ('v, 'w, 'z, 'r) cprog" where
  "compare_exchange old new k =
     access (\<lambda>s. if c_state s = old then s\<lparr>c_state := new\<rparr> else s)
       (\<lambda>s. k (if c_state s = old then Inr (c_state s) else Inl (c_state s)))"

definition compare_exchange_weak ::
  "u8 \<Rightarrow> u8 \<Rightarrow> (u8 + u8 \<Rightarrow> ('v, 'w, 'z, 'r) cprog) \<Rightarrow> ('v, 'w, 'z, 'r) cprog" where
  "compare_exchange_weak old new k =
     Pick (\<lambda>spurious.
       if spurious then access (\<lambda>s. s) (\<lambda>s. k (Inl (c_state s)))
       else compare_exchange old new k)"

definition cell_panic :: "cell_error \<Rightarrow> ('v, 'w, 'z, 'r) cprog" where
  "cell_panic e = (case e of Assert m \<Rightarrow> Panic m | Uninit \<Rightarrow> Panic ''uninitialized memory'')"

definition on_value ::
  "('v maybe \<Rightarrow> ('v maybe, 'a) cell_result) \<Rightarrow> ('a \<Rightarrow> ('v, 'w, 'z, 'r) cprog) \<Rightarrow>
   ('v, 'w, 'z, 'r) cprog" where
  "on_value f k = access (\<lambda>s. s\<lparr>c_value := fst (f (c_value s))\<rparr>)
     (\<lambda>s. case snd (f (c_value s)) of Inl e \<Rightarrow> cell_panic e | Inr x \<Rightarrow> k x)"

definition on_waker ::
  "('w maybe \<Rightarrow> ('w maybe, 'a) cell_result) \<Rightarrow> ('a \<Rightarrow> ('v, 'w, 'z, 'r) cprog) \<Rightarrow>
   ('v, 'w, 'z, 'r) cprog" where
  "on_waker f k = access (\<lambda>s. s\<lparr>c_waker := fst (f (c_waker s))\<rparr>)
     (\<lambda>s. case snd (f (c_waker s)) of Inl e \<Rightarrow> cell_panic e | Inr x \<Rightarrow> k x)"

definition emit :: "('v, 'w) event \<Rightarrow> ('v, 'w, 'z, 'r) cprog \<Rightarrow> ('v, 'w, 'z, 'r) cprog" where
  "emit e k = Act (\<lambda>s. s\<lparr>log := log s @ [e]\<rparr>) (\<lambda>s. k)"

definition value_store :: "'v \<Rightarrow> ('v, 'w, 'z, 'r) cprog \<Rightarrow> ('v, 'w, 'z, 'r) cprog" where
  "value_store v k = on_value (maybe_store v) (\<lambda>_. k)"

definition value_load :: "('v \<Rightarrow> ('v, 'w, 'z, 'r) cprog) \<Rightarrow> ('v, 'w, 'z, 'r) cprog" where
  "value_load k = on_value maybe_load k"

definition value_clear :: "('v, 'w, 'z, 'r) cprog \<Rightarrow> ('v, 'w, 'z, 'r) cprog" where
  "value_clear k = on_value maybe_clear (\<lambda>v. emit (ValueDropped v) k)"

text \<open>\<open>waker.store(waker.clone())\<close>\<close>

definition waker_store :: "'w \<Rightarrow> ('v, 'w, 'z, 'r) cprog \<Rightarrow> ('v, 'w, 'z, 'r) cprog" where
  "waker_store w k = emit (WakerCloned w) (on_waker (maybe_store w) (\<lambda>_. k))"

definition waker_load :: "('w \<Rightarrow> ('v, 'w, 'z, 'r) cprog) \<Rightarrow> ('v, 'w, 'z, 'r) cprog" where
  "waker_load k = on_waker maybe_load k"

definition waker_clear :: "('v, 'w, 'z, 'r) cprog \<Rightarrow> ('v, 'w, 'z, 'r) cprog" where
  "waker_clear k = on_waker maybe_clear (\<lambda>w. emit (WakerDropped w) k)"

text \<open>
  \<open>if c { Some(waker.load()) } else { None }\<close>, \<open>opt.map(Waker::wake)\<close>,
  \<open>opt.map(Waker::wake_by_ref)\<close>, and the drop of an \<open>Option<Waker>\<close> that goes out of scope.
\<close>

definition waker_load_if ::
  "bool \<Rightarrow> ('w option \<Rightarrow> ('v, 'w, 'z, 'r) cprog) \<Rightarrow> ('v, 'w, 'z, 'r) cprog" where
  "waker_load_if c k = (if c then waker_load (\<lambda>w. k (Some w)) else k None)"

definition waker_clear_if :: "bool \<Rightarrow> ('v, 'w, 'z, 'r) cprog \<Rightarrow> ('v, 'w, 'z, 'r) cprog" where
  "waker_clear_if c k = (if c then waker_clear k else k)"

definition wake :: "'w option \<Rightarrow> ('v, 'w, 'z, 'r) cprog \<Rightarrow> ('v, 'w, 'z, 'r) cprog" where
  "wake w k = (case w of None \<Rightarrow> k | Some x \<Rightarrow> emit (Woken x) k)"

definition wake_by_ref :: "'w option \<Rightarrow> ('v, 'w, 'z, 'r) cprog \<Rightarrow> ('v, 'w, 'z, 'r) cprog" where
  "wake_by_ref w k = (case w of None \<Rightarrow> k | Some x \<Rightarrow> emit (WokenByRef x) k)"

definition waker_drop :: "'w option \<Rightarrow> ('v, 'w, 'z, 'r) cprog \<Rightarrow> ('v, 'w, 'z, 'r) cprog" where
  "waker_drop w k = (case w of None \<Rightarrow> k | Some x \<Rightarrow> emit (WakerDropped x) k)"

lemmas access_defs = access_def load_state_def store_state_def swap_state_def fetch_or_def
  fetch_and_def compare_exchange_def compare_exchange_weak_def cell_panic_def on_value_def
  on_waker_def emit_def value_store_def value_load_def value_clear_def waker_store_def
  waker_load_def waker_clear_def waker_load_if_def waker_clear_if_def wake_def wake_by_ref_def
  waker_drop_def

subsection \<open>Operations\<close>

definition is_done :: "('v, 'w, 'z, bool) cprog" where
  "is_done = load_state (\<lambda>st. Ret (st AND (STATE_ACTIVE OR STATE_LOADED) = 0))"

text \<open>
  \<open>write\<close> returns \<open>Inr ()\<close> for \<open>Ok(())\<close> and \<open>Inl (value, dropped)\<close> for an error;
  \<open>chan_write_slow\<close> is the part behind the fast path.
\<close>

definition chan_write_slow ::
  "'w option \<Rightarrow> bool \<Rightarrow> ('v, 'w, 'z, ('v \<times> bool) + unit) cprog" where
  "chan_write_slow wk finalize =
     fetch_or (STATE_LOADED OR STATE_WLOCK OR STATE_WAKE) (\<lambda>prev.
       if prev AND STATE_WLOCK = 0 then
         waker_load_if (prev AND STATE_WAKE \<noteq> 0) (\<lambda>read_waker.
           case wk of
             Some w \<Rightarrow>
               waker_store w
                 (compare_exchange (prev OR STATE_LOADED OR STATE_WLOCK OR STATE_WAKE)
                    (prev OR STATE_LOADED OR STATE_WAKE)
                    (\<lambda>r. case r of
                       Inl s \<Rightarrow>
                         waker_clear
                           (if s AND STATE_LOADED = 0 \<or> s AND STATE_RLOCK \<noteq> 0 then
                              fetch_and (NOT (STATE_WLOCK OR STATE_WAKE)) (\<lambda>_.
                                wake_by_ref (Some w) (waker_drop read_waker (Ret (Inr ()))))
                            else if s AND STATE_ACTIVE = 0 then
                              value_load (\<lambda>v. waker_drop read_waker (Ret (Inl (v, True))))
                            else Panic ''Invalid channel state'')
                     | Inr _ \<Rightarrow> wake read_waker (Ret (Inr ()))))
           | None \<Rightarrow>
               fetch_and
                 (NOT (STATE_WLOCK OR STATE_WAKE OR (if finalize then STATE_ACTIVE else 0)))
                 (\<lambda>prev.
                    if prev AND STATE_ACTIVE = 0 then
                      value_load (\<lambda>v. waker_drop read_waker (Ret (Inl (v, True))))
                    else wake read_waker (Ret (Inr ()))))
       else wake_by_ref wk (Ret (Inr ())))"

definition chan_write ::
  "'v \<Rightarrow> 'w option \<Rightarrow> bool \<Rightarrow> ('v, 'w, 'z, ('v \<times> bool) + unit) cprog" where
  "chan_write v wk finalize =
     load_state (\<lambda>st.
       if st AND STATE_ACTIVE = 0 then load_state (\<lambda>_. Ret (Inl (v, True)))
       else if st AND STATE_LOADED \<noteq> 0 then Ret (Inl (v, False))
       else
         value_store v
           (if wk = None \<and> st AND STATE_WAKE = 0 then
              compare_exchange_weak st ((st OR STATE_LOADED) AND NOT (of_bool finalize))
                (\<lambda>r. case r of Inr _ \<Rightarrow> Ret (Inr ()) | Inl _ \<Rightarrow> chan_write_slow wk finalize)
            else chan_write_slow wk finalize))"

text \<open>\<open>flush\<close>: the parameters of the loop are the variables \<open>prev\<close> and \<open>locked\<close>.\<close>

fun flush_loop ::
  "nat \<Rightarrow> 'w \<Rightarrow> bool \<Rightarrow> u8 \<Rightarrow> bool \<Rightarrow> ('v, 'w, 'z, ('v option \<times> bool) poll) cprog" where
  "flush_loop 0 w finalize prev locked = Hang"
| "flush_loop (Suc n) w finalize prev locked =
     (if prev AND (STATE_LOADED OR STATE_RLOCK) = 0 then
        (if locked then
           waker_clear_if (prev AND STATE_WAKE \<noteq> 0)
             (fetch_and
                (NOT (STATE_WLOCK OR STATE_WAKE OR (if finalize then STATE_ACTIVE else 0)))
                (\<lambda>_. Ret (Ready (None, prev AND STATE_ACTIVE = 0))))
         else if finalize then
           fetch_and (NOT STATE_ACTIVE) (\<lambda>prev. Ret (Ready (None, prev AND STATE_ACTIVE = 0)))
         else load_state (\<lambda>prev. Ret (Ready (None, prev AND STATE_ACTIVE = 0))))
      else if prev AND STATE_ACTIVE = 0 then
        (if \<not> finalize then
           store_state STATE_DONE (value_load (\<lambda>v. Ret (Ready (Some v, True))))
         else value_load (\<lambda>v. Ret (Ready (Some v, True))))
      else if prev AND STATE_RLOCK \<noteq> 0 then wake_by_ref (Some w) (Ret Pending)
      else if locked then
        waker_clear_if (prev AND STATE_WAKE \<noteq> 0)
          (waker_store w
             (compare_exchange_weak (prev OR STATE_WLOCK OR STATE_WAKE) (prev OR STATE_WAKE)
                (\<lambda>r. case r of
                   Inr _ \<Rightarrow> Ret Pending
                 | Inl _ \<Rightarrow>
                     waker_clear
                       (fetch_and (NOT (STATE_WLOCK OR STATE_WAKE)) (\<lambda>prev.
                          flush_loop n w finalize
                            (prev AND NOT (STATE_WLOCK OR STATE_WAKE)) False)))))
      else
        compare_exchange_weak prev (prev OR STATE_WLOCK OR STATE_WAKE)
          (\<lambda>r. case r of
             Inr s \<Rightarrow> flush_loop n w finalize s True
           | Inl s \<Rightarrow>
               if s AND STATE_WLOCK \<noteq> 0 then wake_by_ref (Some w) (Ret Pending)
               else flush_loop n w finalize s locked))"

definition chan_flush ::
  "nat \<Rightarrow> 'w \<Rightarrow> bool \<Rightarrow> ('v, 'w, 'z, ('v option \<times> bool) poll) cprog" where
  "chan_flush n w finalize = load_state (\<lambda>prev. flush_loop n w finalize prev False)"

text \<open>\<open>read\<close>: the parameters of the loop are the variables \<open>waker\<close> and \<open>prev\<close>.\<close>

fun read_loop ::
  "nat \<Rightarrow> 'w option \<Rightarrow> bool \<Rightarrow> u8 \<Rightarrow> ('v, 'w, 'z, ('v option \<times> bool) poll) cprog" where
  "read_loop 0 wk or_cancel prev = Hang"
| "read_loop (Suc n) wk or_cancel prev =
     (if prev AND STATE_ACTIVE = 0 then
        (if prev AND STATE_LOADED \<noteq> 0 then
           swap_state (prev AND NOT STATE_LOADED) (\<lambda>found.
             if found \<noteq> prev then Panic ''debug_assert_eq''
             else value_load (\<lambda>v. Ret (Ready (Some v, True))))
         else Ret (Ready (None, True)))
      else if prev AND STATE_LOADED \<noteq> 0 then
        compare_exchange_weak prev (prev OR STATE_RLOCK OR STATE_WLOCK)
          (\<lambda>r. case r of
             Inr _ \<Rightarrow>
               value_load (\<lambda>v.
                 waker_load_if (prev AND (STATE_WLOCK OR STATE_WAKE) = STATE_WAKE) (\<lambda>flush_waker.
                   fetch_and
                     (NOT (STATE_LOADED OR STATE_RLOCK OR
                        (if prev AND STATE_WLOCK = 0 then STATE_WLOCK OR STATE_WAKE else 0)))
                     (\<lambda>prev. wake flush_waker
                        (Ret (Ready (Some v, prev AND STATE_ACTIVE = 0))))))
           | Inl s \<Rightarrow> read_loop n wk or_cancel s)
      else if or_cancel then
        compare_exchange prev (prev AND NOT STATE_ACTIVE)
          (\<lambda>r. case r of
             Inr _ \<Rightarrow> Ret (Ready (None, False))
           | Inl s \<Rightarrow> read_loop n wk or_cancel s)
      else if wk \<noteq> None \<or> prev AND STATE_WAKE \<noteq> 0 then
        (if prev AND STATE_WLOCK \<noteq> 0 then wake_by_ref wk (Ret Pending)
         else
           compare_exchange_weak prev (prev OR STATE_RLOCK OR STATE_WLOCK OR STATE_WAKE)
             (\<lambda>r. case r of
                Inr _ \<Rightarrow>
                  waker_clear_if (prev AND STATE_WAKE \<noteq> 0)
                    (case wk of
                       Some w \<Rightarrow>
                         waker_store w
                           (compare_exchange
                              (prev OR STATE_RLOCK OR STATE_WLOCK OR STATE_WAKE)
                              (prev OR STATE_WAKE)
                              (\<lambda>r. case r of
                                 Inr _ \<Rightarrow> Ret Pending
                               | Inl _ \<Rightarrow>
                                   waker_clear
                                     (fetch_and (NOT (STATE_RLOCK OR STATE_WLOCK OR STATE_WAKE))
                                        (\<lambda>prev. read_loop n None or_cancel
                                           (prev AND NOT (STATE_RLOCK OR STATE_WLOCK OR STATE_WAKE))))))
                     | None \<Rightarrow>
                         fetch_and (NOT (STATE_RLOCK OR STATE_WLOCK OR STATE_WAKE)) (\<lambda>p.
                           let prev = p AND NOT (STATE_RLOCK OR STATE_WLOCK OR STATE_WAKE) in
                           if prev AND (STATE_LOADED OR STATE_ACTIVE) = STATE_ACTIVE
                           then Ret (Ready (None, False))
                           else read_loop n None or_cancel prev))
              | Inl s \<Rightarrow> read_loop n wk or_cancel s))
      else Ret (Ready (None, False)))"

definition chan_read ::
  "nat \<Rightarrow> 'w option \<Rightarrow> bool \<Rightarrow> ('v, 'w, 'z, ('v option \<times> bool) poll) cprog" where
  "chan_read n wk or_cancel = load_state (\<lambda>prev. read_loop n wk or_cancel prev)"

text \<open>\<open>drop_one_side\<close> returns whether the caller has to release the allocation.\<close>

definition drop_one_side :: "bool \<Rightarrow> ('v, 'w, 'z, bool) cprog" where
  "drop_one_side is_writer =
     fetch_or (STATE_WLOCK OR STATE_WAKE) (\<lambda>prev.
       if prev AND STATE_ACTIVE = 0 then
         let k = waker_clear_if (prev AND STATE_WAKE \<noteq> 0) (Ret True) in
         (if prev AND STATE_LOADED \<noteq> 0 then value_clear k else k)
       else
         let finish = (\<lambda>prev w. wake w
               (if prev AND STATE_ACTIVE = 0 then value_clear (Ret True) else Ret False)) in
         (if prev AND STATE_WLOCK = 0 then
            let unlock = (\<lambda>w. fetch_and (NOT (STATE_WLOCK OR STATE_WAKE OR STATE_ACTIVE))
                  (\<lambda>prev. finish prev w)) in
            (if prev AND STATE_WAKE \<noteq> 0 then
               (if (prev AND STATE_LOADED \<noteq> 0) \<noteq> is_writer
                then waker_load (\<lambda>w. unlock (Some w))
                else waker_clear (unlock None))
             else unlock None)
          else fetch_and (NOT STATE_ACTIVE) (\<lambda>prev. finish prev None)))"

text \<open>
  \<open>channel.dealloc()\<close>: the box is dropped, and with it the two cells, each of which asserts
  that it has been cleared.
\<close>

definition dealloc :: "('v, 'w, 'z, 'r) cprog \<Rightarrow> ('v, 'w, 'z, 'r) cprog" where
  "dealloc k =
     Act (\<lambda>s. s\<lparr>freed := freed s + 1\<rparr>)
       (\<lambda>s. if freed s \<noteq> 0 then Panic ''double free''
            else case snd (maybe_drop (c_value s)) of Inl e \<Rightarrow> cell_panic e
              | Inr _ \<Rightarrow> (case snd (maybe_drop (c_waker s)) of Inl e \<Rightarrow> cell_panic e
                  | Inr _ \<Rightarrow> k))"

declare flush_loop.simps(2) [simp del] read_loop.simps(2) [simp del]

lemmas op_defs = is_done_def chan_write_slow_def chan_write_def flush_loop.simps(2)
  chan_flush_def read_loop.simps(2) chan_read_def drop_one_side_def dealloc_def

end
