(* ===== verification/ChannelSpec.thy ===== *)
theory ChannelSpec
  imports Channel "HOL-Library.Multiset"
begin

text \<open>
  What the operations of the channel promise when one runs at a time: a channel at rest is
  an abstract channel, which is active or not, holds a value or not and holds a waker or not;
  each operation is a function on abstract channels, and the program refines it whatever
  spurious failures \<open>compare_exchange_weak\<close> has.
\<close>

subsection \<open>Abstract channels\<close>

record ('v, 'w) achan =
  active :: bool
  content :: "'v option"
  waiting :: "'w option"

definition achan_new :: "('v, 'w) achan" where
  "achan_new = \<lparr>active = True, content = None, waiting = None\<rparr>"

definition state_word :: "('v, 'w) achan \<Rightarrow> u8" where
  "state_word a =
     (if active a then STATE_ACTIVE else STATE_DONE) OR
     (if content a = None then 0 else STATE_LOADED) OR
     (if waiting a = None then 0 else STATE_WAKE)"

text \<open>The calls of wakers in a log, the values dropped, and the balance of cloned wakers.\<close>

fun woken :: "('v, 'w) event \<Rightarrow> 'w list" where
  "woken (Woken w) = [w]"
| "woken (WokenByRef w) = [w]"
| "woken e = []"

definition wakes :: "('v, 'w) event list \<Rightarrow> 'w list" where
  "wakes es = concat (map woken es)"

fun value_dropped :: "('v, 'w) event \<Rightarrow> 'v list" where
  "value_dropped (ValueDropped v) = [v]"
| "value_dropped e = []"

definition value_drops :: "('v, 'w) event list \<Rightarrow> 'v list" where
  "value_drops es = concat (map value_dropped es)"

fun waker_made :: "('v, 'w) event \<Rightarrow> 'w multiset" where
  "waker_made (WakerCloned w) = {#w#}"
| "waker_made e = {#}"

fun waker_ended :: "('v, 'w) event \<Rightarrow> 'w multiset" where
  "waker_ended (Woken w) = {#w#}"
| "waker_ended (WakerDropped w) = {#w#}"
| "waker_ended e = {#}"

definition total :: "('e \<Rightarrow> 'w multiset) \<Rightarrow> 'e list \<Rightarrow> 'w multiset" where
  "total f es = sum_list (map f es)"

definition stored :: "'w option \<Rightarrow> 'w multiset" where
  "stored w = (case w of None \<Rightarrow> {#} | Some x \<Rightarrow> {#x#})"

text \<open>Every waker that was cloned was used up or dropped, or is the stored one.\<close>

definition balanced :: "('v, 'w) event list \<Rightarrow> 'w option \<Rightarrow> bool" where
  "balanced es w = (total waker_made es = total waker_ended es + stored w)"

lemma log_append [simp]:
  "wakes (es @ fs) = wakes es @ wakes fs"
  "value_drops (es @ fs) = value_drops es @ value_drops fs"
  "total f (es @ fs) = total f es + total f fs"
  by (simp_all add: wakes_def value_drops_def total_def)

lemma log_single [simp]:
  "wakes [] = []" "wakes (e # es) = woken e @ wakes es"
  "value_drops [] = []" "value_drops (e # es) = value_dropped e @ value_drops es"
  "total f [] = {#}" "total f (e # es) = f e + total f es"
  by (simp_all add: wakes_def value_drops_def total_def)

lemma stored_simps [simp]: "stored None = {#}" "stored (Some w) = {#w#}"
  by (simp_all add: stored_def)

subsection \<open>Channels at rest\<close>

definition at_rest :: "('v, 'w, 'z) chan_scheme \<Rightarrow> ('v, 'w) achan \<Rightarrow> bool" where
  "at_rest s a =
     (freed s = 0 \<and> c_state s = state_word a \<and> checked_holds (c_value s) (content a) \<and>
      checked_holds (c_waker s) (waiting a) \<and> balanced (log s) (waiting a))"

text \<open>
  A channel that its last owner is about to release: the state word does not matter any
  more, the cells are what they are.
\<close>

definition cells :: "('v, 'w, 'z) chan_scheme \<Rightarrow> 'v option \<Rightarrow> 'w option \<Rightarrow> bool" where
  "cells s v w =
     (freed s = 0 \<and> checked_holds (c_value s) v \<and> checked_holds (c_waker s) w \<and>
      balanced (log s) w)"

lemma at_rest_cells: "at_rest s a \<Longrightarrow> cells s (content a) (waiting a)"
  by (simp add: at_rest_def cells_def)

text \<open>What an operation did beside its result: the wakers it called, the values it dropped.\<close>

definition effect ::
  "('v, 'w, 'z) chan_scheme \<Rightarrow> ('v, 'w, 'z) chan_scheme \<Rightarrow> 'w list \<Rightarrow> 'v list \<Rightarrow> bool" where
  "effect s s' ws vs =
     (wakes (log s') = wakes (log s) @ ws \<and> value_drops (log s') = value_drops (log s) @ vs \<and>
      chan.more s' = chan.more s)"

lemma effect_trans:
  "effect s s' ws vs \<Longrightarrow> effect s' s'' ws' vs' \<Longrightarrow> effect s s'' (ws @ ws') (vs @ vs')"
  by (simp add: effect_def)

lemma effect_refl [simp]: "effect s s [] []"
  by (simp add: effect_def)

subsection \<open>The operations on abstract channels\<close>

text \<open>Each returns the result, the channel after it, and the wakers called.\<close>

definition awrite ::
  "'v \<Rightarrow> 'w option \<Rightarrow> bool \<Rightarrow> ('v, 'w) achan \<Rightarrow>
     (('v \<times> bool) + unit) \<times> ('v, 'w) achan \<times> 'w list" where
  "awrite v wk finalize a =
     (if \<not> active a then (Inl (v, True), a, [])
      else if content a \<noteq> None then (Inl (v, False), a, [])
      else (Inr (),
            a\<lparr>content := Some v, waiting := wk, active := (wk \<noteq> None \<or> \<not> finalize)\<rparr>,
            list_of (waiting a)))"

definition aread ::
  "'w option \<Rightarrow> bool \<Rightarrow> ('v, 'w) achan \<Rightarrow>
     ('v option \<times> bool) poll \<times> ('v, 'w) achan \<times> 'w list" where
  "aread wk or_cancel a =
     (case content a of
        Some v \<Rightarrow>
          if active a
          then (Ready (Some v, False), a\<lparr>content := None, waiting := None\<rparr>, list_of (waiting a))
          else (Ready (Some v, True), a\<lparr>content := None\<rparr>, [])
      | None \<Rightarrow>
          if \<not> active a then (Ready (None, True), a, [])
          else if or_cancel then (Ready (None, False), a\<lparr>active := False\<rparr>, [])
          else (if wk = None then Ready (None, False) else Pending, a\<lparr>waiting := wk\<rparr>, []))"

definition aflush ::
  "'w \<Rightarrow> bool \<Rightarrow> ('v, 'w) achan \<Rightarrow>
     ('v option \<times> bool) poll \<times> ('v, 'w) achan \<times> 'w list" where
  "aflush w finalize a =
     (case content a of
        None \<Rightarrow> (Ready (None, \<not> active a), a\<lparr>active := (active a \<and> \<not> finalize)\<rparr>, [])
      | Some v \<Rightarrow>
          if active a then (Pending, a\<lparr>waiting := Some w\<rparr>, [])
          else (Ready (Some v, True), a\<lparr>content := None\<rparr>, []))"

text \<open>The first side to drop: the channel becomes inactive, the other side's waker is called.\<close>

definition adrop_first :: "bool \<Rightarrow> ('v, 'w) achan \<Rightarrow> ('v, 'w) achan \<times> 'w list" where
  "adrop_first is_writer a =
     (a\<lparr>active := False, waiting := None\<rparr>,
      if (content a \<noteq> None) \<noteq> is_writer then list_of (waiting a) else [])"

subsection \<open>Refinement\<close>

lemmas rest_defs = at_rest_def cells_def effect_def state_word_def checked_holds_def
  balanced_def state_defs access_defs checked_defs

lemma write_refines:
  assumes "at_rest s a" and "awrite v wk f a = (r, a', ws)"
  shows "\<exists>s' os'. exec (chan_write v wk f) os s = (Returned r, s', os') \<and> at_rest s' a' \<and>
    effect s s' ws []"
  using assms
  apply (cases "active a"; cases "content a"; cases "waiting a"; cases wk; cases f; cases os; cases "hd os")
  apply (auto simp: awrite_def op_defs rest_defs)
  done


lemma read_loop_refines:
  assumes "at_rest s a" and "aread wk c a = (r, a', ws)" and "length os < n"
  shows "\<exists>s' os'. exec (read_loop n wk c (c_state s)) os s = (Returned r, s', os') \<and> at_rest s' a' \<and>
    effect s s' ws []"
  using assms(3)
proof (induction os arbitrary: n)
  case Nil
  then obtain m where "n = Suc m" by (cases n) auto
  with assms(1,2) show ?case
    by (cases "active a"; cases "content a"; cases "waiting a"; cases wk; cases c)
       (auto simp: aread_def op_defs rest_defs)
next
  case (Cons b bs)
  then obtain m where n: "n = Suc m" by (cases n) auto
  with Cons.prems have "length bs < m" by simp
  note ih = Cons.IH [OF this]
  show ?case
  proof (cases "b \<and> active a \<and> (content a \<noteq> None \<or> \<not> c \<and> (wk \<noteq> None \<or> waiting a \<noteq> None))")
    case True
    with assms(1) have "exec (read_loop n wk c (c_state s)) (b # bs) s = exec (read_loop m wk c (c_state s)) bs s"
      by (cases "content a"; cases "waiting a"; cases wk) (auto simp: n op_defs rest_defs)
    with ih show ?thesis by simp
  next
    case False
    with assms(1,2) n show ?thesis
    by (cases "active a"; cases "content a"; cases "waiting a"; cases wk; cases c)
       (auto simp: aread_def op_defs rest_defs)
  qed
qed

lemma flush_retry:
  assumes "at_rest s a" and "active a" and "content a = Some v"
  shows "\<exists>s'. exec (flush_loop (Suc (Suc m)) w f (c_state s) False) (False # True # bs) s =
      exec (flush_loop m w f (c_state s') False) bs s' \<and> at_rest s' (a\<lparr>waiting := None\<rparr>) \<and>
      effect s s' [] []"
proof (cases "waiting a")
  case None
  with assms show ?thesis
    by (intro exI [where x = "s\<lparr>c_waker := fst (maybe_clear (fst (maybe_store w (c_waker s)))), log := log s @ [WakerCloned w, WakerDropped w], c_state := 3\<rparr>"])
       (simp add: op_defs rest_defs)
next
  case (Some x)
  with assms show ?thesis
    by (intro exI [where x = "s\<lparr>c_waker := fst (maybe_clear (fst (maybe_store w (fst (maybe_clear (c_waker s)))))), log := log s @ [WakerDropped x, WakerCloned w, WakerDropped w], c_state := 3\<rparr>"])
       (simp add: op_defs rest_defs)
qed

lemma flush_active:
  assumes "at_rest s a" and "active a" and "content a = Some v" and "2 * length os + 1 < n"
  shows "\<exists>s' os'. exec (flush_loop n w f (c_state s) False) os s = (Returned Pending, s', os') \<and>
    at_rest s' (a\<lparr>waiting := Some w\<rparr>) \<and> effect s s' [] []"
  using assms
proof (induction os arbitrary: n s a rule: length_induct)
  case (1 os)
  from "1.prems"(4) have n: "n = Suc (Suc (n - 2))" by simp
  obtain m where m: "m = n - 2" by simp
  with n have n: "n = Suc (Suc m)" by simp
  consider "os = [] \<or> (\<exists>bs. os = False # bs \<and> (bs = [] \<or> \<not> hd bs))"
    | (first) bs where "os = True # bs" | (second) bs where "os = False # True # bs"
    by (cases os; cases "tl os"; cases "hd os"; cases "hd (tl os)") auto
  then show ?case
  proof cases
    case 1
    with "1.prems" show ?thesis
      by (cases "waiting a"; cases os; cases "tl os") (auto simp: n op_defs rest_defs)
  next
    case first
    with "1.prems" have "exec (flush_loop n w f (c_state s) False) os s =
        exec (flush_loop (Suc m) w f (c_state s) False) bs s"
      by (cases "waiting a") (auto simp: n op_defs rest_defs)
    moreover have "2 * length bs + 1 < Suc m" using "1.prems"(4) n first by simp
    ultimately show ?thesis using "1.IH" "1.prems"(1-3) first by simp
  next
    case second
    from flush_retry [OF "1.prems"(1-3)] obtain s1 where
      e: "exec (flush_loop n w f (c_state s) False) os s = exec (flush_loop m w f (c_state s1) False) bs s1"
      and r: "at_rest s1 (a\<lparr>waiting := None\<rparr>)" and eff: "effect s s1 [] []"
      unfolding n second by blast
    have "\<exists>s' os'. exec (flush_loop m w f (c_state s1) False) bs s1 = (Returned Pending, s', os') \<and>
        at_rest s' (a\<lparr>waiting := None, waiting := Some w\<rparr>) \<and> effect s1 s' [] []"
      using "1.IH" [rule_format, of bs s1 "a\<lparr>waiting := None\<rparr>" m] r "1.prems" second n by simp
    with e eff show ?thesis
      using effect_trans [of s s1 "[]" "[]" _ "[]" "[]"] by auto
  qed
qed

lemma flush_refines:
  assumes "at_rest s a" and "aflush w f a = (r, a', ws)" and "content a = None \<or> active a"
    and "2 * length os + 1 < n"
  shows "\<exists>s' os'. exec (chan_flush n w f) os s = (Returned r, s', os') \<and> at_rest s' a' \<and>
    effect s s' ws []"
proof (cases "content a")
  case None
  from assms(4) obtain m where "n = Suc m" by (cases n) auto
  with assms(1,2) None show ?thesis
    by (cases "active a"; cases "waiting a"; cases f) (auto simp: aflush_def op_defs rest_defs)
next
  case (Some v)
  with assms(3) have act: "active a" by simp
  with assms(2) Some have ra: "r = Pending" "a' = a\<lparr>waiting := Some w\<rparr>" "ws = []"
    by (auto simp: aflush_def)
  from assms(1) have "freed s = 0" by (simp add: at_rest_def)
  then have "exec (chan_flush n w f) os s = exec (flush_loop n w f (c_state s) False) os s"
    by (simp add: op_defs access_defs)
  with flush_active [OF assms(1) act Some assms(4)] ra show ?thesis by simp
qed

text \<open>The reader has gone and left the value: the writer gets it back.\<close>

lemma flush_left:
  assumes "at_rest s a" and "\<not> active a" and "content a = Some v"
  shows "\<exists>s'. exec (chan_flush (Suc n) w f) os s = (Returned (Ready (Some v, True)), s', os) \<and>
    cells s' None (waiting a) \<and> effect s s' [] [] \<and>
    (\<not> f \<and> waiting a = None \<longrightarrow> at_rest s' (a\<lparr>content := None\<rparr>))"
  using assms by (cases "waiting a"; cases f) (auto simp: op_defs rest_defs)


lemma drop_first_refines:
  assumes "at_rest s a" and "active a" and "adrop_first iw a = (a', ws)"
  shows "\<exists>s'. exec (drop_one_side iw) os s = (Returned False, s', os) \<and> at_rest s' a' \<and>
    effect s s' ws []"
  using assms
    by (cases "content a"; cases "waiting a"; cases iw)
       (auto simp: adrop_first_def op_defs rest_defs)

lemma drop_last_refines:
  assumes "at_rest s a" and "\<not> active a"
  shows "\<exists>s'. exec (drop_one_side iw) os s = (Returned True, s', os) \<and> cells s' None None \<and>
    effect s s' [] (list_of (content a))"
  using assms
    by (cases "content a"; cases "waiting a"; cases iw)
       (auto simp: adrop_first_def op_defs rest_defs)

lemma dealloc_refines:
  assumes "cells s None None"
  shows "exec (dealloc k) os s = exec k os (s\<lparr>freed := Suc 0\<rparr>)"
  using assms by (auto simp: op_defs rest_defs maybe_drop_def)

subsection \<open>The refinement as rules for \<open>does\<close>\<close>

lemma write_does:
  assumes "at_rest s a" and "awrite v wk f a = (r, a', ws)"
  shows "does (chan_write v wk f) os s (\<lambda>x s'. x = r \<and> at_rest s' a' \<and> effect s s' ws [])"
  by (rule doesI [OF write_refines [OF assms]])

lemma read_does:
  assumes "at_rest s a" and "aread wk c a = (r, a', ws)" and "length os < n"
  shows "does (chan_read n wk c) os s (\<lambda>x s'. x = r \<and> at_rest s' a' \<and> effect s s' ws [])"
proof -
  from assms(1) have "freed s = 0" by (simp add: at_rest_def)
  then have "exec (chan_read n wk c) os s = exec (read_loop n wk c (c_state s)) os s"
    by (simp add: chan_read_def access_defs)
  with read_loop_refines [OF assms] show ?thesis by (intro doesI) simp
qed

lemma flush_does:
  assumes "at_rest s a" and "aflush w f a = (r, a', ws)" and "content a = None \<or> active a"
    and "2 * length os + 1 < n"
  shows "does (chan_flush n w f) os s (\<lambda>x s'. x = r \<and> at_rest s' a' \<and> effect s s' ws [])"
  by (rule doesI [OF flush_refines [OF assms]])

lemma flush_left_does:
  assumes "at_rest s a" and "\<not> active a" and "content a = Some v" and "0 < n"
  shows "does (chan_flush n w f) os s (\<lambda>x s'. x = Ready (Some v, True) \<and>
    cells s' None (waiting a) \<and> effect s s' [] [] \<and>
    (\<not> f \<and> waiting a = None \<longrightarrow> at_rest s' (a\<lparr>content := None\<rparr>)))"
proof -
  from assms(4) obtain m where "n = Suc m" by (cases n) auto
  with flush_left [OF assms(1-3)] show ?thesis by (intro doesI_det) simp
qed

lemma drop_first_does:
  assumes "at_rest s a" and "active a"
  shows "does (drop_one_side iw) os s (\<lambda>x s'. x = False \<and> at_rest s' (fst (adrop_first iw a)) \<and>
    effect s s' (snd (adrop_first iw a)) [])"
  by (rule doesI_det [OF drop_first_refines [OF assms prod.collapse [symmetric]]])

lemma drop_last_does:
  assumes "at_rest s a" and "\<not> active a"
  shows "does (drop_one_side iw) os s (\<lambda>x s'. x = True \<and> cells s' None None \<and>
    effect s s' [] (list_of (content a)))"
  by (rule doesI_det [OF drop_last_refines [OF assms]])

lemma dealloc_does:
  assumes "cells s None None" and "does k os (s\<lparr>freed := Suc 0\<rparr>) Q"
  shows "does (dealloc k) os s Q"
  using assms(2) unfolding does_def dealloc_refines [OF assms(1)] .

lemma emit_does [simp]: "does (emit e k) os s Q = does k os (s\<lparr>log := log s @ [e]\<rparr>) Q"
  by (simp add: does_def emit_def)

text \<open>After the release: counted once, both cells empty, and no waker unaccounted for.\<close>

definition released :: "('v, 'w, 'z) chan_scheme \<Rightarrow> bool" where
  "released s = (freed s = 1 \<and> checked_holds (c_value s) None \<and> checked_holds (c_waker s) None \<and>
     balanced (log s) None)"

lemma cells_released: "cells s None None \<Longrightarrow> released (s\<lparr>freed := Suc 0\<rparr>)"
  by (simp add: cells_def released_def)

definition cell_content :: "'a maybe \<Rightarrow> 'a option" where
  "cell_content c = (if loaded c then data c else None)"

lemma checked_holds_content: "checked_holds c v \<Longrightarrow> cell_content c = v"
  by (auto simp: checked_holds_def cell_content_def)

lemma at_rest_content:
  "at_rest s a \<Longrightarrow> cell_content (c_value s) = content a"
  "cells s v w \<Longrightarrow> cell_content (c_value s) = v"
  "released s \<Longrightarrow> cell_content (c_value s) = None"
  by (simp_all add: at_rest_def cells_def released_def checked_holds_content)

subsection \<open>The contract of the four operations\<close>

definition fresh :: "('v, 'w) achan" where
  "fresh = \<lparr>active = True, content = None, waiting = None\<rparr>"

lemma new_channel_at_rest: "at_rest (new_channel :: ('v, 'w) chan) fresh"
  by (simp add: at_rest_def fresh_def new_channel_def state_word_def state_defs checked_holds_def
      maybe_empty_def balanced_def)

text \<open>C2. On a channel at rest, \<open>write\<close> returns what the abstract channel returns, whether the
  fast path is taken, fails or does not apply: the value and the waker of a pending flush are
  stored, the waker of a waiting reader is called, and a full or inactive channel gives the
  value back.\<close>

theorem write_meets_spec:
  assumes "at_rest s a"
  shows "\<exists>s'. run (chan_write v wk f) os s = (Returned (fst (awrite v wk f a)), s') \<and>
    at_rest s' (fst (snd (awrite v wk f a))) \<and> effect s s' (snd (snd (awrite v wk f a))) []"
  using does_run [OF write_does [OF assms, of v wk f]] by (cases "awrite v wk f a") fastforce

theorem write_meets_spec_witness:
  "\<exists>s'. run (chan_write (7 :: nat) None False) [True] (new_channel :: (nat, nat) chan) =
     (Returned (Inr ()), s') \<and> at_rest s' (fresh\<lparr>content := Some 7\<rparr>)"
  using write_meets_spec [OF new_channel_at_rest, of "7 :: nat" "None :: nat option" False "[True]"]
  by (auto simp: awrite_def fresh_def)

text \<open>C13. On a channel at rest, \<open>read\<close> with more turns than spurious failures returns what the
  abstract channel returns: a value that is there is taken and the writer's waker called, an
  empty active channel keeps the reader's waker or is cancelled, an inactive one reports that
  the writer is gone.\<close>

theorem read_meets_spec:
  assumes "at_rest s a" and "length os < n"
  shows "\<exists>s'. run (chan_read n wk c) os s = (Returned (fst (aread wk c a)), s') \<and>
    at_rest s' (fst (snd (aread wk c a))) \<and> effect s s' (snd (snd (aread wk c a))) []"
  using does_run [OF read_does [OF assms(1) _ assms(2), of wk c]] by (cases "aread wk c a") fastforce

theorem read_meets_spec_witness:
  "\<exists>s'. run (chan_read 3 (Some 5) False) [True, True] (new_channel :: (nat, nat) chan) =
     (Returned Pending, s') \<and> at_rest s' (fresh\<lparr>waiting := Some 5\<rparr>)"
  using read_meets_spec [OF new_channel_at_rest, of "[True, True]" 3 "Some (5 :: nat)" False]
  by (auto simp: aread_def fresh_def)



text \<open>C12. On a channel at rest, the first side to drop leaves an inactive channel with no waker
  and is told not to release it; the waker of the other side is called and its own dropped.
  The second side drops a value that is left, leaves both cells empty and is told to release.\<close>

theorem drop_meets_spec:
  assumes "at_rest s a"
  shows "\<exists>s'. run (drop_one_side iw) os s = (Returned (\<not> active a), s') \<and>
    (if active a
     then at_rest s' (a\<lparr>active := False, waiting := None\<rparr>) \<and>
       effect s s' (if (content a \<noteq> None) \<noteq> iw then list_of (waiting a) else []) []
     else cells s' None None \<and> effect s s' [] (list_of (content a)))"
proof (cases "active a")
  case True
  from does_run [OF drop_first_does [OF assms True, of iw]] True show ?thesis
    by (fastforce simp: adrop_first_def)
next
  case False
  from does_run [OF drop_last_does [OF assms False, of iw]] False show ?thesis by fastforce
qed

theorem drop_meets_spec_witness:
  "\<exists>s'. run (drop_one_side True) [] (new_channel :: (nat, nat) chan) = (Returned False, s') \<and>
     at_rest s' (fresh\<lparr>active := False, waiting := None\<rparr>)"
  using drop_meets_spec [OF new_channel_at_rest, of True "[]"] by (auto simp: fresh_def)

end
