(* ===== verification/ThreadBlock.thy ===== *)
theory ThreadBlock
  imports CoreTypes
begin

text \<open>
  The blocking loops of \<open>suspend-core/src/thread.rs\<close>.  Here the state is any state: the
  program \<open>park\<close> is \<open>guard.park(timeout)\<close> on the listener that \<open>with_listener\<close> found, and the
  closure \<open>poll\<close> is a program over its captured variables.  \<open>n\<close> is the number of turns that
  the loop may take.
\<close>

text \<open>
  \<open>block_on_poll\<close>: the counter \<open>repeat\<close> only decides when to call \<open>thread::yield_now\<close>, which
  has no effect on the state.
\<close>

fun block_loop ::
  "nat \<Rightarrow> ('c \<Rightarrow> ('s, 'c \<times> 'a poll) prog) \<Rightarrow> ('s, lock_error + park_result) prog \<Rightarrow>
   'c \<Rightarrow> nat \<Rightarrow> ('s, 'c \<times> 'a poll) prog" where
  "block_loop 0 poll park c repeat = Hang"
| "block_loop (Suc n) poll park c repeat =
     bind (poll c) (\<lambda>(c', result).
       if is_ready result then Ret (c', result)
       else bind park (\<lambda>r. case r of
           Inl e \<Rightarrow> Panic ''unwrap on LockError''
         | Inr Skipped \<Rightarrow> block_loop n poll park c' (repeat + 1)
         | Inr Unparked \<Rightarrow> block_loop n poll park c' 0
         | Inr TimedOut \<Rightarrow> Ret (c', result)))"

lemmas block_loop_numeral = block_loop.simps(2) [of "pred_numeral k" for k, folded numeral_eq_Suc]

lemma lazy_loop:
  "m = m' \<Longrightarrow> c = c' \<Longrightarrow> r = r' \<Longrightarrow> block_loop m poll park c r = block_loop m' poll park c' r'"
  by simp

definition block_on_poll ::
  "nat \<Rightarrow> ('c \<Rightarrow> ('s, 'c \<times> 'a poll) prog) \<Rightarrow> ('s, lock_error + park_result) prog \<Rightarrow>
   'c \<Rightarrow> ('s, 'c \<times> 'a poll) prog" where
  "block_on_poll n poll park c = block_loop n poll park c 0"

text \<open>\<open>block_on\<close>: the future is pinned and polled, with a park in between.\<close>

fun block_on ::
  "nat \<Rightarrow> ('c \<Rightarrow> ('s, 'c \<times> 'a poll) prog) \<Rightarrow> ('s, lock_error + park_result) prog \<Rightarrow>
   'c \<Rightarrow> ('s, 'a) prog" where
  "block_on 0 poll park c = Hang"
| "block_on (Suc n) poll park c =
     bind (poll c) (\<lambda>(c', result). case result of
         Ready x \<Rightarrow> Ret x
       | Pending \<Rightarrow> bind park (\<lambda>r. case r of
           Inl e \<Rightarrow> Panic ''unwrap on LockError''
         | Inr _ \<Rightarrow> block_on n poll park c'))"

text \<open>\<open>block_on_unpin\<close> gives the future back when the time is over.\<close>

definition block_on_unpin ::
  "nat \<Rightarrow> ('c \<Rightarrow> ('s, 'c \<times> 'a poll) prog) \<Rightarrow> ('s, lock_error + park_result) prog \<Rightarrow>
   'c \<Rightarrow> ('s, 'c + 'a) prog" where
  "block_on_unpin n poll park fut =
     bind (block_on_poll n poll park fut) (\<lambda>(fut', r). case r of
         Ready x \<Rightarrow> Ret (Inr x)
       | Pending \<Rightarrow> Ret (Inl fut'))"

subsection \<open>Blocking comes to an end\<close>

text \<open>
  \<open>A c s\<close> is what the captured variables and the state must satisfy at a poll, and \<open>W c s\<close> what
  a pending poll leaves: the listener has been notified, or will be.  \<open>m\<close> bounds the polls that are still to come.
\<close>

lemma block_on_returns:
  assumes "\<And>c os s. A c s \<Longrightarrow> does (poll c) os s
      (\<lambda>(c', r) s'. case r of Ready x \<Rightarrow> Q x s' | Pending \<Rightarrow> W c' s' \<and> m c' < (m c :: nat))"
    and "\<And>c os s. W c s \<Longrightarrow> does park os s (\<lambda>r s'. (\<exists>x. r = Inr x) \<and> A c s')"
  shows "m c < n \<Longrightarrow> A c s \<Longrightarrow> does (block_on n poll park c) os s Q"
proof (induction n arbitrary: c os s)
  case (Suc n)
  show ?case
    unfolding block_on.simps
  proof (rule does_bind [OF assms(1) [OF Suc.prems(2)]])
    fix cr s' os'
    assume h: "(\<lambda>(c', r) s'. case r of Ready x \<Rightarrow> Q x s' | Pending \<Rightarrow> W c' s' \<and> m c' < m c) cr s'"
    show "does (case cr of (c', Ready x) \<Rightarrow> Ret x
        | (c', Pending) \<Rightarrow> bind park (\<lambda>r. case r of Inl e \<Rightarrow> Panic ''unwrap on LockError''
            | Inr _ \<Rightarrow> block_on n poll park c')) os' s' Q"
    proof (cases cr)
      case (Pair c' r)
      show ?thesis
      proof (cases r)
        case Pending
        with Pair h Suc.prems(1) have "W c' s'" "m c' < n" by simp_all
        then show ?thesis
          by (auto simp: Pair Pending intro!: does_bind [OF assms(2)] Suc.IH)
      qed (use Pair h in simp)
    qed
  qed
qed simp

lemma block_on_poll_returns:
  assumes "\<And>c os s. A c s \<Longrightarrow> does (poll c) os s
      (\<lambda>(c', r) s'. case r of Ready x \<Rightarrow> Q c' x s' | Pending \<Rightarrow> W c' s' \<and> m c' < (m c :: nat))"
    and "\<And>c os s. W c s \<Longrightarrow> does park os s (\<lambda>r s'. (r = Inr Skipped \<or> r = Inr Unparked) \<and> A c s')"
    and "m c < n" and "A c s"
  shows "does (block_on_poll n poll park c) os s (\<lambda>(c', r) s'. \<exists>x. r = Ready x \<and> Q c' x s')"
proof -
  have "does (block_loop n poll park c k) os s (\<lambda>(c', r) s'. \<exists>x. r = Ready x \<and> Q c' x s')"
    if "m c < n" "A c s" for c k os s
    using that
  proof (induction n arbitrary: c k os s)
    case (Suc n)
    show ?case
      unfolding block_loop.simps
    proof (rule does_bind [OF assms(1) [OF Suc.prems(2)]])
      fix cr s' os'
      assume h: "(\<lambda>(c', r) s'. case r of Ready x \<Rightarrow> Q c' x s' | Pending \<Rightarrow> W c' s' \<and> m c' < m c) cr s'"
      obtain c' r where cr: "cr = (c', r)" by (cases cr)
      show "does (case cr of (c', result) \<Rightarrow> if is_ready result then Ret (c', result)
          else bind park (\<lambda>r. case r of Inl e \<Rightarrow> Panic ''unwrap on LockError''
            | Inr Skipped \<Rightarrow> block_loop n poll park c' (k + 1)
            | Inr Unparked \<Rightarrow> block_loop n poll park c' 0
            | Inr TimedOut \<Rightarrow> Ret (c', result))) os' s' (\<lambda>(c', r) s'. \<exists>x. r = Ready x \<and> Q c' x s')"
      proof (cases r)
        case Pending
        with cr h Suc.prems(1) have "W c' s'" "m c' < n" by simp_all
        then show ?thesis
          by (auto simp: cr Pending intro!: does_bind [OF assms(2)] Suc.IH)
      qed (use cr h in simp)
    qed
  qed simp
  with assms(3,4) show ?thesis by (simp add: block_on_poll_def)
qed

end
