(* ===== verification/ChannelEnds.thy ===== *)
theory ChannelEnds
  imports ChannelSpec ThreadBlock
begin

text \<open>
  The two ends of a channel: \<open>SendOnce\<close>, \<open>ReceiveOnce\<close>, \<open>Sender\<close>, \<open>Receiver\<close> and the future
  \<open>Flush\<close> of \<open>suspend-channel/src/channel.rs\<close>, with the errors of \<open>error.rs\<close>.  There is one
  allocation, so a \<open>BoxPtr\<close> has one value.  A method that takes \<open>&mut self\<close> returns the new
  handle with its result.  \<open>n\<close> is the number of turns that the loops of the channel may
  take, \<open>w\<close> the waker of the calling thread's listener, \<open>park\<close> its \<open>guard.park(timeout)\<close>.
\<close>

subsection \<open>error.rs\<close>

datatype recv_error = Incomplete | Terminated | RecvTimedOut

fun recv_error_timed_out :: "recv_error \<Rightarrow> bool" where
  "recv_error_timed_out RecvTimedOut = True"
| "recv_error_timed_out _ = False"

fun recv_error_fmt :: "recv_error \<Rightarrow> string" where
  "recv_error_fmt Incomplete = ''Incomplete''"
| "recv_error_fmt Terminated = ''Terminated''"
| "recv_error_fmt RecvTimedOut = ''Timed out''"

datatype 'v try_send_error = Disconnected 'v | Full 'v

fun is_disconnected :: "'v try_send_error \<Rightarrow> bool" where
  "is_disconnected (Disconnected v) = True"
| "is_disconnected (Full v) = False"

fun is_full :: "'v try_send_error \<Rightarrow> bool" where
  "is_full (Disconnected v) = False"
| "is_full (Full v) = True"

fun into_inner :: "'v try_send_error \<Rightarrow> 'v" where
  "into_inner (Disconnected v) = v"
| "into_inner (Full v) = v"

definition send_error :: "'v \<Rightarrow> bool \<Rightarrow> 'v try_send_error" where
  "send_error v dropped = (if dropped then Disconnected v else Full v)"

subsection \<open>Waiting on the channel\<close>

definition read_closure ::
  "nat \<Rightarrow> 'w \<Rightarrow> unit \<Rightarrow> ('v, 'w, 'z, unit \<times> ('v option \<times> bool) poll) cprog" where
  "read_closure n w u = bind (chan_read n (Some w) False) (\<lambda>r. Ret (u, r))"

definition wait_read ::
  "nat \<Rightarrow> 'w \<Rightarrow> ('v, 'w, 'z, lock_error + park_result) cprog \<Rightarrow>
   ('v, 'w, 'z, 'v option \<times> bool) cprog" where
  "wait_read n w park =
     (let block = bind (block_on_poll n (read_closure n w) park ()) (\<lambda>(_, p). case p of
          Ready result \<Rightarrow> Ret result
        | Pending \<Rightarrow> Panic ''unreachable'') in
      bind (chan_read n None False) (\<lambda>p. case p of
          Ready (result, dropped) \<Rightarrow>
            if result \<noteq> None \<or> dropped then Ret (result, dropped) else block
        | Pending \<Rightarrow> block))"

definition wait_read_timeout ::
  "nat \<Rightarrow> 'w \<Rightarrow> ('v, 'w, 'z, lock_error + park_result) cprog \<Rightarrow>
   ('v, 'w, 'z, 'v option \<times> bool) cprog" where
  "wait_read_timeout n w park =
     bind (chan_read n None False) (\<lambda>p. case p of
         Ready result \<Rightarrow> Ret result
       | Pending \<Rightarrow>
           bind (block_on_poll n (read_closure n w) park ()) (\<lambda>(_, p). case p of
               Ready result \<Rightarrow> Ret result
             | Pending \<Rightarrow> bind (chan_read n None False) (\<lambda>p. case p of
                   Ready r \<Rightarrow> Ret r
                 | Pending \<Rightarrow> Ret (None, False))))"

subsection \<open>Handles\<close>

datatype box_ptr = ChannelPtr

record 'v flush_fut =
  fl_channel :: "box_ptr option"
  fl_value :: "'v option"
  fl_finalize :: bool

record send_once =
  so_channel :: box_ptr

record receive_once =
  ro_channel :: "box_ptr option"

record sender =
  se_channel :: "box_ptr option"

record receiver =
  re_channel :: "box_ptr option"

definition make_send_once :: "('v, 'w) chan \<times> send_once \<times> receive_once" where
  "make_send_once = (new_channel, \<lparr>so_channel = ChannelPtr\<rparr>, \<lparr>ro_channel = Some ChannelPtr\<rparr>)"

definition make_channel :: "('v, 'w) chan \<times> sender \<times> receiver" where
  "make_channel = (new_channel, \<lparr>se_channel = Some ChannelPtr\<rparr>, \<lparr>re_channel = Some ChannelPtr\<rparr>)"

text \<open>\<open>if drop_one_side(..) { dealloc() }\<close>, and \<open>if dropped { dealloc() }\<close>\<close>

definition release_side :: "bool \<Rightarrow> ('v, 'w, 'z, 'r) cprog \<Rightarrow> ('v, 'w, 'z, 'r) cprog" where
  "release_side is_writer k = bind (drop_one_side is_writer) (\<lambda>d. if d then dealloc k else k)"

definition dealloc_if :: "bool \<Rightarrow> ('v, 'w, 'z, 'r) cprog \<Rightarrow> ('v, 'w, 'z, 'r) cprog" where
  "dealloc_if d k = (if d then dealloc k else k)"

subsection \<open>Flush\<close>

text \<open>After the body of \<open>drop\<close> the field \<open>value\<close> is dropped, if it is still there.\<close>

definition flush_drop :: "'v flush_fut \<Rightarrow> ('v, 'w, 'z, unit) cprog" where
  "flush_drop f =
     (let rest = (case fl_value f of None \<Rightarrow> Ret () | Some v \<Rightarrow> emit (ValueDropped v) (Ret ())) in
      case fl_channel f of
        None \<Rightarrow> rest
      | Some _ \<Rightarrow> if fl_finalize f then release_side True rest else rest)"

definition flush_poll ::
  "nat \<Rightarrow> 'v flush_fut \<Rightarrow> 'w \<Rightarrow>
   ('v, 'w, 'z, 'v flush_fut \<times> ('v try_send_error + unit) poll) cprog" where
  "flush_poll n f w =
     (case fl_value f of
        Some v \<Rightarrow>
          (case fl_channel f of
             None \<Rightarrow> Panic ''unwrap on None''
           | Some c \<Rightarrow>
               let f = f\<lparr>fl_value := None\<rparr> in
               bind (chan_write v (Some w) (fl_finalize f)) (\<lambda>r. case r of
                   Inl (v', dropped) \<Rightarrow>
                     let result = Ready (Inl (send_error v' dropped)) in
                     if fl_finalize f \<and> dropped
                     then dealloc (Ret (f\<lparr>fl_channel := None\<rparr>, result))
                     else Ret (f, result)
                 | Inr _ \<Rightarrow> Ret (f, Pending)))
      | None \<Rightarrow>
          (case fl_channel f of
             None \<Rightarrow> Ret (f, Ready (Inr ()))
           | Some c \<Rightarrow>
               bind (chan_flush n w (fl_finalize f)) (\<lambda>p. case p of
                   Ready (result, dropped) \<Rightarrow>
                     let out = Ready (case result of None \<Rightarrow> Inr ()
                                 | Some v \<Rightarrow> Inl (Disconnected v)) in
                     if fl_finalize f \<and> dropped
                     then dealloc (Ret (f\<lparr>fl_channel := None\<rparr>, out))
                     else Ret (f, out)
                 | Pending \<Rightarrow> Ret (f, Pending))))"

definition flush_is_terminated :: "'v flush_fut \<Rightarrow> bool" where
  "flush_is_terminated f = (fl_channel f = None)"

subsection \<open>SendOnce\<close>

definition so_is_canceled :: "send_once \<Rightarrow> ('v, 'w, 'z, bool) cprog" where
  "so_is_canceled so = is_done"

definition so_send :: "send_once \<Rightarrow> 'v \<Rightarrow> 'v flush_fut" where
  "so_send so v = \<lparr>fl_channel = Some (so_channel so), fl_value = Some v, fl_finalize = True\<rparr>"

definition so_try_send :: "send_once \<Rightarrow> 'v \<Rightarrow> ('v, 'w, 'z, 'v try_send_error + unit) cprog" where
  "so_try_send so v =
     bind (chan_write v None True) (\<lambda>r. case r of
         Inr _ \<Rightarrow> Ret (Inr ())
       | Inl (v', dropped) \<Rightarrow> dealloc (Ret (Inl (send_error v' dropped))))"

definition so_drop :: "send_once \<Rightarrow> ('v, 'w, 'z, unit) cprog" where
  "so_drop so = release_side True (Ret ())"

subsection \<open>ReceiveOnce\<close>

definition ro_cancel :: "nat \<Rightarrow> receive_once \<Rightarrow> ('v, 'w, 'z, 'v option) cprog" where
  "ro_cancel n ro =
     (case ro_channel ro of
        None \<Rightarrow> Ret None
      | Some c \<Rightarrow> bind (chan_read n None True) (\<lambda>p. case p of
            Ready (result, dropped) \<Rightarrow> dealloc_if dropped (Ret result)
          | Pending \<Rightarrow> Ret None))"

definition ro_poll_result ::
  "nat \<Rightarrow> receive_once \<Rightarrow> 'w option \<Rightarrow>
   ('v, 'w, 'z, receive_once \<times> (recv_error + 'v) poll) cprog" where
  "ro_poll_result n ro w =
     (case ro_channel ro of
        None \<Rightarrow> Ret (ro, Ready (Inl Terminated))
      | Some c \<Rightarrow> bind (chan_read n w False) (\<lambda>p. case p of
            Ready (result, dropped) \<Rightarrow>
              let k = Ret (ro\<lparr>ro_channel := None\<rparr>, Ready (ok_or result Incomplete)) in
              if dropped then dealloc k else release_side False k
          | Pending \<Rightarrow> Ret (ro, Pending)))"

definition ro_try_recv ::
  "nat \<Rightarrow> receive_once \<Rightarrow> ('v, 'w, 'z, receive_once \<times> 'v option poll) cprog" where
  "ro_try_recv n ro =
     bind (ro_poll_result n ro None) (\<lambda>(ro', p). Ret (ro', map_poll result_ok p))"

definition ro_recv ::
  "nat \<Rightarrow> 'w \<Rightarrow> ('v, 'w, 'z, lock_error + park_result) cprog \<Rightarrow> receive_once \<Rightarrow>
   ('v, 'w, 'z, recv_error + 'v) cprog" where
  "ro_recv n w park ro =
     (case ro_channel ro of
        None \<Rightarrow> Ret (Inl Terminated)
      | Some c \<Rightarrow> bind (wait_read n w park) (\<lambda>(result, dropped).
            let k = Ret (ok_or result Incomplete) in
            if dropped then dealloc k else release_side False k))"

definition ro_recv_timeout ::
  "nat \<Rightarrow> 'w \<Rightarrow> ('v, 'w, 'z, lock_error + park_result) cprog \<Rightarrow> receive_once \<Rightarrow>
   ('v, 'w, 'z, receive_once \<times> (recv_error + 'v)) cprog" where
  "ro_recv_timeout n w park ro =
     (case ro_channel ro of
        None \<Rightarrow> Ret (ro, Inl Terminated)
      | Some c \<Rightarrow> bind (wait_read_timeout n w park) (\<lambda>(result, dropped).
            let gone = ro\<lparr>ro_channel := None\<rparr> in
            if dropped then dealloc (Ret (gone, ok_or result Incomplete))
            else (case result of
                Some v \<Rightarrow> release_side False (Ret (gone, Inr v))
              | None \<Rightarrow> Ret (ro, Inl RecvTimedOut))))"

definition ro_drop :: "receive_once \<Rightarrow> ('v, 'w, 'z, unit) cprog" where
  "ro_drop ro = (case ro_channel ro of None \<Rightarrow> Ret () | Some c \<Rightarrow> release_side False (Ret ()))"

definition ro_poll ::
  "nat \<Rightarrow> receive_once \<Rightarrow> 'w \<Rightarrow> ('v, 'w, 'z, receive_once \<times> (recv_error + 'v) poll) cprog" where
  "ro_poll n ro w = ro_poll_result n ro (Some w)"

definition ro_poll_next ::
  "nat \<Rightarrow> receive_once \<Rightarrow> 'w \<Rightarrow> ('v, 'w, 'z, receive_once \<times> 'v option poll) cprog" where
  "ro_poll_next n ro w =
     bind (ro_poll_result n ro (Some w)) (\<lambda>(ro', p). Ret (ro', map_poll result_ok p))"

definition ro_is_terminated :: "receive_once \<Rightarrow> ('v, 'w, 'z, bool) cprog" where
  "ro_is_terminated ro = (case ro_channel ro of None \<Rightarrow> Ret True | Some c \<Rightarrow> is_done)"

subsection \<open>Sender\<close>

definition se_is_canceled :: "sender \<Rightarrow> ('v, 'w, 'z, bool) cprog" where
  "se_is_canceled se = (case se_channel se of None \<Rightarrow> Ret True | Some c \<Rightarrow> is_done)"

definition se_send :: "sender \<Rightarrow> 'v \<Rightarrow> 'v flush_fut" where
  "se_send se v = \<lparr>fl_channel = se_channel se, fl_value = Some v, fl_finalize = False\<rparr>"

definition se_try_send ::
  "sender \<Rightarrow> 'v \<Rightarrow> ('v, 'w, 'z, sender \<times> ('v try_send_error + unit)) cprog" where
  "se_try_send se v =
     (case se_channel se of
        None \<Rightarrow> Ret (se, Inl (Disconnected v))
      | Some c \<Rightarrow> bind (chan_write v None False) (\<lambda>r. case r of
            Inr _ \<Rightarrow> Ret (se, Inr ())
          | Inl (v', dropped) \<Rightarrow>
              if dropped then dealloc (Ret (se\<lparr>se_channel := None\<rparr>, Inl (Disconnected v')))
              else Ret (se, Inl (Full v'))))"

definition se_drop :: "sender \<Rightarrow> ('v, 'w, 'z, unit) cprog" where
  "se_drop se = (case se_channel se of None \<Rightarrow> Ret () | Some c \<Rightarrow> release_side True (Ret ()))"

subsection \<open>Receiver\<close>

definition re_cancel :: "nat \<Rightarrow> receiver \<Rightarrow> ('v, 'w, 'z, 'v option) cprog" where
  "re_cancel n re =
     (case re_channel re of
        None \<Rightarrow> Ret None
      | Some c \<Rightarrow> bind (chan_read n None True) (\<lambda>p. case p of
            Ready (result, dropped) \<Rightarrow> dealloc_if dropped (Ret result)
          | Pending \<Rightarrow> Ret None))"

definition re_try_recv ::
  "nat \<Rightarrow> receiver \<Rightarrow> ('v, 'w, 'z, receiver \<times> 'v option poll) cprog" where
  "re_try_recv n re =
     (case re_channel re of
        None \<Rightarrow> Ret (re, Ready None)
      | Some c \<Rightarrow> bind (chan_read n None False) (\<lambda>p. case p of
            Ready (result, dropped) \<Rightarrow>
              if dropped then dealloc (Ret (re\<lparr>re_channel := None\<rparr>, Ready result))
              else Ret (re, Ready result)
          | Pending \<Rightarrow> Ret (re, Pending)))"

definition re_wait_next ::
  "nat \<Rightarrow> 'w \<Rightarrow> ('v, 'w, 'z, lock_error + park_result) cprog \<Rightarrow> receiver \<Rightarrow>
   ('v, 'w, 'z, receiver \<times> 'v option) cprog" where
  "re_wait_next n w park re =
     (case re_channel re of
        None \<Rightarrow> Ret (re, None)
      | Some c \<Rightarrow> bind (wait_read n w park) (\<lambda>(result, dropped).
            if dropped then dealloc (Ret (re\<lparr>re_channel := None\<rparr>, result))
            else Ret (re, result)))"

text \<open>On a value the pointer that was taken out of the handle is not put back.\<close>

definition re_wait_next_timeout ::
  "nat \<Rightarrow> 'w \<Rightarrow> ('v, 'w, 'z, lock_error + park_result) cprog \<Rightarrow> receiver \<Rightarrow>
   ('v, 'w, 'z, receiver \<times> (recv_error + 'v)) cprog" where
  "re_wait_next_timeout n w park re =
     (case re_channel re of
        None \<Rightarrow> Ret (re, Inl Terminated)
      | Some c \<Rightarrow> bind (wait_read_timeout n w park) (\<lambda>(result, dropped).
            let gone = re\<lparr>re_channel := None\<rparr> in
            if dropped then dealloc (Ret (gone, ok_or result Incomplete))
            else (case result of
                Some v \<Rightarrow> Ret (gone, Inr v)
              | None \<Rightarrow> Ret (re, Inl RecvTimedOut))))"

definition re_drop :: "receiver \<Rightarrow> ('v, 'w, 'z, unit) cprog" where
  "re_drop re = (case re_channel re of None \<Rightarrow> Ret () | Some c \<Rightarrow> release_side False (Ret ()))"

definition re_poll_next ::
  "nat \<Rightarrow> receiver \<Rightarrow> 'w \<Rightarrow> ('v, 'w, 'z, receiver \<times> 'v option poll) cprog" where
  "re_poll_next n re w =
     (case re_channel re of
        None \<Rightarrow> Ret (re, Ready None)
      | Some c \<Rightarrow> bind (chan_read n (Some w) False) (\<lambda>p. case p of
            Ready (result, dropped) \<Rightarrow>
              if dropped then dealloc (Ret (re\<lparr>re_channel := None\<rparr>, Ready result))
              else Ret (re, Ready result)
          | Pending \<Rightarrow> Ret (re, Pending)))"

definition re_is_terminated :: "receiver \<Rightarrow> ('v, 'w, 'z, bool) cprog" where
  "re_is_terminated re = (case re_channel re of None \<Rightarrow> Ret True | Some c \<Rightarrow> is_done)"

lemmas end_defs = release_side_def dealloc_if_def flush_drop_def flush_poll_def so_is_canceled_def
  so_send_def so_try_send_def so_drop_def ro_cancel_def ro_poll_result_def ro_try_recv_def
  ro_drop_def ro_poll_def ro_poll_next_def ro_is_terminated_def se_is_canceled_def se_send_def
  se_try_send_def se_drop_def re_cancel_def re_try_recv_def re_drop_def re_poll_next_def
  re_is_terminated_def send_error_def

end
