(* ===== verification/OnceProtocol.thy ===== *)
theory OnceProtocol
  imports ChannelEnds
begin

text \<open>
  The life of a channel made by \<open>send_once()\<close>: any sequence of calls on its two ends, each
  running to its end before the next.  The state holds the two handles as far as the calls
  have left them to the client, the channel, and the values given to the sending end, taken
  by the receiving end and handed back in errors.  A call on a handle that the client no
  longer has (Rust's ownership refuses it) changes nothing.
\<close>

datatype 'v once_tx = TxHeld send_once | TxFlush "'v flush_fut" | TxDone

record ('v, 'w) once_sys =
  tx :: "'v once_tx"
  rx :: "receive_once option"
  chn :: "('v, 'w) chan"
  sent :: "'v list"
  got :: "'v list"
  handed_back :: "'v list"

datatype ('v, 'w) once_call =
    OTrySend 'v | OSend 'v | OPollFlush 'w | ODropTx
  | OTryRecv | OPollRx 'w | ODropRx

definition once_start :: "('v, 'w) once_sys" where
  "once_start = (case make_send_once of (c, so, ro) \<Rightarrow>
     \<lparr>tx = TxHeld so, rx = Some ro, chn = c, sent = [], got = [], handed_back = []\<rparr>)"

subsection \<open>Calls\<close>

definition on_channel ::
  "(('v, 'w) chan, 'r) prog \<Rightarrow> bool list \<Rightarrow> ('v, 'w) once_sys \<Rightarrow>
   ('r \<Rightarrow> ('v, 'w) once_sys \<Rightarrow> ('v, 'w) once_sys) \<Rightarrow> ('v, 'w) once_sys outcome" where
  "on_channel p os x f =
     (case run p os (chn x) of
        (Returned r, s') \<Rightarrow> Returned (f r (x\<lparr>chn := s'\<rparr>))
      | (Panicked m, s') \<Rightarrow> Panicked m
      | (Blocked, s') \<Rightarrow> Blocked
      | (OutOfFuel, s') \<Rightarrow> OutOfFuel)"

text \<open>The value of a \<open>Ready(Ok(v))\<close> and the value carried by an error.\<close>

definition ok_value :: "'v option poll \<Rightarrow> 'v list" where
  "ok_value p = (case p of Ready (Some v) \<Rightarrow> [v] | _ \<Rightarrow> [])"

definition err_value :: "'v try_send_error + unit \<Rightarrow> 'v list" where
  "err_value r = (case r of Inl e \<Rightarrow> [into_inner e] | Inr _ \<Rightarrow> [])"

definition poll_err :: "('v try_send_error + unit) poll \<Rightarrow> 'v list" where
  "poll_err p = (case p of Ready r \<Rightarrow> err_value r | Pending \<Rightarrow> [])"

text \<open>The loops get as many turns as the spurious failures in \<open>os\<close> can use up.\<close>

definition turns :: "bool list \<Rightarrow> nat" where
  "turns os = 2 * length os + 2"

fun once_step ::
  "('v, 'w) once_call \<Rightarrow> bool list \<Rightarrow> ('v, 'w) once_sys \<Rightarrow> ('v, 'w) once_sys outcome" where
  "once_step (OTrySend v) os x =
     (case tx x of
        TxHeld so \<Rightarrow> on_channel (so_try_send so v) os x
          (\<lambda>r y. y\<lparr>tx := TxDone, sent := sent y @ [v], handed_back := handed_back y @ err_value r\<rparr>)
      | _ \<Rightarrow> Returned x)"
| "once_step (OSend v) os x =
     (case tx x of
        TxHeld so \<Rightarrow> Returned (x\<lparr>tx := TxFlush (so_send so v), sent := sent x @ [v]\<rparr>)
      | _ \<Rightarrow> Returned x)"
| "once_step (OPollFlush w) os x =
     (case tx x of
        TxFlush f \<Rightarrow> on_channel (flush_poll (turns os) f w) os x
          (\<lambda>(f', p) y. y\<lparr>tx := TxFlush f', handed_back := handed_back y @ poll_err p\<rparr>)
      | _ \<Rightarrow> Returned x)"
| "once_step ODropTx os x =
     (case tx x of
        TxHeld so \<Rightarrow> on_channel (so_drop so) os x (\<lambda>_ y. y\<lparr>tx := TxDone\<rparr>)
      | TxFlush f \<Rightarrow> on_channel (flush_drop f) os x (\<lambda>_ y. y\<lparr>tx := TxDone\<rparr>)
      | TxDone \<Rightarrow> Returned x)"
| "once_step OTryRecv os x =
     (case rx x of
        Some r \<Rightarrow> on_channel (ro_try_recv (turns os) r) os x
          (\<lambda>(r', p) y. y\<lparr>rx := Some r', got := got y @ ok_value p\<rparr>)
      | None \<Rightarrow> Returned x)"
| "once_step (OPollRx w) os x =
     (case rx x of
        Some r \<Rightarrow> on_channel (ro_poll (turns os) r w) os x
          (\<lambda>(r', p) y. y\<lparr>rx := Some r', got := got y @ ok_value (map_poll result_ok p)\<rparr>)
      | None \<Rightarrow> Returned x)"
| "once_step ODropRx os x =
     (case rx x of
        Some r \<Rightarrow> on_channel (ro_drop r) os x (\<lambda>_ y. y\<lparr>rx := None\<rparr>)
      | None \<Rightarrow> Returned x)"

fun once_run ::
  "(('v, 'w) once_call \<times> bool list) list \<Rightarrow> ('v, 'w) once_sys \<Rightarrow> ('v, 'w) once_sys outcome" where
  "once_run [] x = Returned x"
| "once_run ((c, os) # cs) x =
     (case once_step c os x of Returned y \<Rightarrow> once_run cs y | e \<Rightarrow> e)"

subsection \<open>The invariant\<close>

definition rx_live :: "('v, 'w) once_sys \<Rightarrow> bool" where
  "rx_live x = (\<exists>r. rx x = Some r \<and> ro_channel r \<noteq> None)"

text \<open>What the channel is, given whether the receiving end still points to it.\<close>

definition idle_rest :: "('v, 'w) chan \<Rightarrow> bool \<Rightarrow> bool" where
  "idle_rest s live = (if live then (\<exists>w. at_rest s \<lparr>active = True, content = None, waiting = w\<rparr>)
     else at_rest s \<lparr>active = False, content = None, waiting = None\<rparr>)"

definition flush_rest :: "('v, 'w) chan \<Rightarrow> bool \<Rightarrow> bool" where
  "flush_rest s live =
     (if live then (\<exists>v w. at_rest s \<lparr>active = True, content = Some v, waiting = Some w\<rparr>)
      else (\<exists>c. at_rest s \<lparr>active = False, content = c, waiting = None\<rparr>))"

definition done_rest :: "('v, 'w) chan \<Rightarrow> bool \<Rightarrow> bool" where
  "done_rest s live = (if live then (\<exists>c. at_rest s \<lparr>active = False, content = c, waiting = None\<rparr>)
     else released s)"

fun tx_rest :: "'v once_tx \<Rightarrow> ('v, 'w) chan \<Rightarrow> bool \<Rightarrow> bool" where
  "tx_rest (TxHeld so) s live = idle_rest s live"
| "tx_rest (TxFlush f) s live =
     (fl_finalize f \<and>
      (case (fl_channel f, fl_value f) of
         (Some _, Some v) \<Rightarrow> idle_rest s live
       | (Some _, None) \<Rightarrow> flush_rest s live
       | (None, None) \<Rightarrow> \<not> live \<and> released s
       | (None, Some v) \<Rightarrow> False))"
| "tx_rest TxDone s live = done_rest s live"

fun tx_value :: "'v once_tx \<Rightarrow> 'v list" where
  "tx_value (TxFlush f) = list_of (fl_value f)"
| "tx_value _ = []"

text \<open>
  Every value is somewhere, once: taken, handed back, still in the future, or held by the
  channel, in its cell or among the values it has dropped.
\<close>

definition held :: "('v, 'w, 'z) chan_scheme \<Rightarrow> 'v multiset" where
  "held s = mset (value_drops (log s)) + mset (list_of (cell_content (c_value s)))"

definition accounted :: "('v, 'w) once_sys \<Rightarrow> bool" where
  "accounted x =
     (mset (sent x) = mset (got x) + mset (handed_back x) + held (chn x) + mset (tx_value (tx x)))"

definition once_inv :: "('v, 'w) once_sys \<Rightarrow> bool" where
  "once_inv x = (tx_rest (tx x) (chn x) (rx_live x) \<and> accounted x)"

lemmas once_rest_defs = idle_rest_def flush_rest_def done_rest_def

lemma once_inv_start: "once_inv (once_start :: ('v, 'w) once_sys)"
  by (auto simp: once_inv_def once_start_def make_send_once_def new_channel_def rx_live_def
      once_rest_defs at_rest_def state_word_def state_defs checked_holds_def maybe_empty_def
      balanced_def accounted_def held_def cell_content_def)

lemma on_channel_does:
  assumes "does p os (chn x) (\<lambda>r s'. Q (f r (x\<lparr>chn := s'\<rparr>)))"
  shows "\<exists>y. on_channel p os x f = Returned y \<and> Q y"
  using does_run [OF assms] by (auto simp: on_channel_def)

subsection \<open>The operations of the two ends on a channel at rest\<close>

lemma release_first_does:
  assumes "at_rest s a" and "active a"
    and "\<And>s' os'. at_rest s' (fst (adrop_first iw a)) \<Longrightarrow> effect s s' (snd (adrop_first iw a)) [] \<Longrightarrow>
      does k os' s' Q"
  shows "does (release_side iw k) os s Q"
  unfolding release_side_def
  by (rule does_bind [OF drop_first_does [OF assms(1,2)]]) (auto intro: assms(3))

lemma release_last_does:
  assumes "at_rest s a" and "\<not> active a"
    and "\<And>s' os'. released s' \<Longrightarrow> effect s s' [] (list_of (content a)) \<Longrightarrow> does k os' s' Q"
  shows "does (release_side iw k) os s Q"
  unfolding release_side_def
proof (rule does_bind [OF drop_last_does [OF assms(1,2)]])
  fix r s' os'
  assume h: "r = True \<and> cells s' None None \<and> effect s s' [] (list_of (content a))"
  then have "released (s'\<lparr>freed := Suc 0\<rparr>)"
    and "effect s (s'\<lparr>freed := Suc 0\<rparr>) [] (list_of (content a))"
    by (simp_all add: cells_released effect_def)
  from assms(3) [OF this] h show "does (if r then dealloc k else k) os' s' Q"
    by (simp add: dealloc_does)
qed

text \<open>\<open>flow s ins s' outs\<close>: the values \<open>ins\<close> went into the channel, \<open>outs\<close> came out of it.\<close>

definition flow ::
  "('v, 'w, 'z) chan_scheme \<Rightarrow> 'v list \<Rightarrow> ('v, 'w, 'z) chan_scheme \<Rightarrow> 'v list \<Rightarrow> bool" where
  "flow s ins s' outs = (mset ins + held s = mset outs + held s')"

lemmas flow_defs = flow_def held_def at_rest_content effect_def

lemma so_try_send_does:
  assumes "idle_rest s live"
  shows "does (so_try_send so v) os s (\<lambda>r s'. done_rest s' live \<and> flow s [v] s' (err_value r))"
proof (cases live)
  case True
  with assms obtain w where r: "at_rest s \<lparr>active = True, content = None, waiting = w\<rparr>"
    by (auto simp: idle_rest_def)
  show ?thesis
    unfolding so_try_send_def
    by (rule does_bind [OF write_does [OF r]], simp add: awrite_def)
       (use True r in \<open>auto simp: flow_defs err_value_def done_rest_def\<close>)
next
  case False
  with assms have r: "at_rest s \<lparr>active = False, content = None, waiting = None\<rparr>"
    by (auto simp: idle_rest_def)
  show ?thesis
    unfolding so_try_send_def
    by (rule does_bind [OF write_does [OF r]], simp add: awrite_def)
       (use False r in \<open>auto simp: flow_defs err_value_def done_rest_def send_error_def
          intro!: dealloc_does cells_released dest: at_rest_cells\<close>)
qed

lemma release_idle_does:
  assumes "idle_rest s live"
    and "\<And>s' os'. done_rest s' live \<Longrightarrow> flow s [] s' [] \<Longrightarrow> does k os' s' Q"
  shows "does (release_side True k) os s Q"
proof (cases live)
  case True
  with assms obtain w where r: "at_rest s \<lparr>active = True, content = None, waiting = w\<rparr>"
    by (auto simp: idle_rest_def)
  show ?thesis
    by (rule release_first_does [OF r], simp, rule assms(2))
       (use True r in \<open>auto simp: flow_defs done_rest_def adrop_first_def\<close>)
next
  case False
  with assms have r: "at_rest s \<lparr>active = False, content = None, waiting = None\<rparr>"
    by (auto simp: idle_rest_def)
  show ?thesis
    by (rule release_last_does [OF r], simp, rule assms(2))
       (use False r in \<open>auto simp: flow_defs done_rest_def\<close>)
qed

lemma release_flush_does:
  assumes "flush_rest s live"
    and "\<And>s' os'. done_rest s' live \<Longrightarrow> flow s [] s' [] \<Longrightarrow> does k os' s' Q"
  shows "does (release_side True k) os s Q"
proof (cases live)
  case True
  with assms obtain v w where r: "at_rest s \<lparr>active = True, content = Some v, waiting = Some w\<rparr>"
    by (auto simp: flush_rest_def)
  show ?thesis
    by (rule release_first_does [OF r], simp, rule assms(2))
       (use True r in \<open>auto simp: flow_defs done_rest_def adrop_first_def\<close>)
next
  case False
  with assms obtain c where r: "at_rest s \<lparr>active = False, content = c, waiting = None\<rparr>"
    by (auto simp: flush_rest_def)
  show ?thesis
    by (rule release_last_does [OF r], simp, rule assms(2))
       (use False r in \<open>auto simp: flow_defs done_rest_def\<close>)
qed

lemma done_rest_log [simp]:
  "done_rest (s\<lparr>log := log s @ [ValueDropped v]\<rparr>) live = done_rest s live"
  by (simp add: done_rest_def at_rest_def released_def balanced_def)

lemma flow_log: "flow s [] s' [] \<Longrightarrow> flow s [v] (s'\<lparr>log := log s' @ [ValueDropped v]\<rparr>) []"
  by (simp add: flow_def held_def)

lemma so_drop_does:
  "idle_rest s live \<Longrightarrow> does (so_drop so) os s (\<lambda>_ s'. done_rest s' live \<and> flow s [] s' [])"
  unfolding so_drop_def by (erule release_idle_does) simp

lemma flush_drop_does:
  assumes "tx_rest (TxFlush f) s live"
  shows "does (flush_drop f) os s
    (\<lambda>_ s'. done_rest s' live \<and> flow s (tx_value (TxFlush f)) s' [])"
proof (cases "fl_value f")
  case None
  with assms show ?thesis
    by (auto simp: flush_drop_def done_rest_def [of s] flow_def [of s "[]" s]
        intro!: release_flush_does [of s live] split: option.splits)
next
  case (Some v)
  with assms show ?thesis
    by (auto simp: flush_drop_def flow_log intro!: release_idle_does [of s live]
        split: option.splits)
qed

lemma flush_poll_does:
  assumes "tx_rest (TxFlush f) s live"
  shows "does (flush_poll (turns os) f w) os s
    (\<lambda>(f', p) s'. tx_rest (TxFlush f') s' live \<and> fl_value f' = None \<and>
       flow s (tx_value (TxFlush f)) s' (poll_err p))"
proof (cases "fl_channel f")
  case None
  with assms show ?thesis
    by (auto simp: flush_poll_def flow_def poll_err_def err_value_def split: option.splits)
next
  case ch: (Some c)
  from assms have fin: "fl_finalize f" by simp
  show ?thesis
  proof (cases "fl_value f")
    case (Some v)
    with assms ch have i: "idle_rest s live" by simp
    show ?thesis
    proof (cases live)
      case True
      with i obtain x where r: "at_rest s \<lparr>active = True, content = None, waiting = x\<rparr>"
        by (auto simp: idle_rest_def)
      show ?thesis
        unfolding flush_poll_def ch Some option.case Let_def
        by (rule does_bind [OF write_does [OF r]], simp add: awrite_def)
           (use True r fin ch Some in \<open>auto simp: flow_defs poll_err_def flush_rest_def\<close>)
    next
      case False
      with i have r: "at_rest s \<lparr>active = False, content = None, waiting = None\<rparr>"
        by (auto simp: idle_rest_def)
      show ?thesis
        unfolding flush_poll_def ch Some option.case Let_def
        by (rule does_bind [OF write_does [OF r]], simp add: awrite_def)
           (use False r fin ch Some in \<open>auto simp: flow_defs poll_err_def err_value_def send_error_def
              intro!: dealloc_does cells_released dest: at_rest_cells\<close>)
    qed
  next
    case None
    with assms ch have i: "flush_rest s live" by simp
    show ?thesis
    proof (cases live)
      case True
      with i obtain v x where r: "at_rest s \<lparr>active = True, content = Some v, waiting = Some x\<rparr>"
        by (auto simp: flush_rest_def)
      show ?thesis
        unfolding flush_poll_def ch None option.case Let_def
        by (rule does_bind [OF flush_does [OF r]], simp add: aflush_def)
           (use True r fin ch None in \<open>auto simp: flow_defs poll_err_def flush_rest_def turns_def\<close>)
    next
      case False
      with i obtain d where r: "at_rest s \<lparr>active = False, content = d, waiting = None\<rparr>"
        by (auto simp: flush_rest_def)
      show ?thesis
      proof (cases d)
        case None
        with r have r: "at_rest s \<lparr>active = False, content = None, waiting = None\<rparr>" by simp
        show ?thesis
          unfolding flush_poll_def ch \<open>fl_value f = None\<close> option.case Let_def
          by (rule does_bind [OF flush_does [OF r]], simp add: aflush_def)
             (use False r fin ch \<open>fl_value f = None\<close> in \<open>auto simp: flow_defs poll_err_def err_value_def turns_def
                intro!: dealloc_does cells_released dest: at_rest_cells\<close>)
      next
        case (Some v)
        with r have r: "at_rest s \<lparr>active = False, content = Some v, waiting = None\<rparr>" by simp
        show ?thesis
          unfolding flush_poll_def ch \<open>fl_value f = None\<close> option.case Let_def
          by (rule does_bind [OF flush_left_does [OF r, where v = v]])
             (use False r fin ch \<open>fl_value f = None\<close> in \<open>auto simp: flow_defs poll_err_def err_value_def turns_def
                intro!: dealloc_does cells_released\<close>)
      qed
    qed
  qed
qed


lemma ro_poll_idle:
  assumes "idle_rest s True" and "ro_channel r = Some c" and "length os < n"
  shows "does (ro_poll_result n r w) os s
    (\<lambda>(r', p) s'. idle_rest s' (ro_channel r' \<noteq> None) \<and>
       flow s [] s' (ok_value (map_poll result_ok p)))"
proof -
  from assms(1) obtain x where r: "at_rest s \<lparr>active = True, content = None, waiting = x\<rparr>"
    by (auto simp: idle_rest_def)
  show ?thesis
    unfolding ro_poll_result_def assms(2) option.case Let_def
    by (rule does_bind [OF read_does [OF r _ assms(3)]], simp add: aread_def)
       (use r assms(2) in \<open>auto simp: flow_defs ok_value_def idle_rest_def adrop_first_def
          intro!: release_first_does split: if_splits\<close>)
qed

lemma ro_poll_flush:
  assumes "flush_rest s True" and "ro_channel r = Some c" and "length os < n"
  shows "does (ro_poll_result n r w) os s
    (\<lambda>(r', p) s'. flush_rest s' (ro_channel r' \<noteq> None) \<and>
       flow s [] s' (ok_value (map_poll result_ok p)))"
proof -
  from assms(1) obtain v x where r: "at_rest s \<lparr>active = True, content = Some v, waiting = Some x\<rparr>"
    by (auto simp: flush_rest_def)
  show ?thesis
    unfolding ro_poll_result_def assms(2) option.case Let_def
    by (rule does_bind [OF read_does [OF r _ assms(3)]], simp add: aread_def)
       (use r assms(2) in \<open>auto simp: flow_defs ok_value_def flush_rest_def adrop_first_def
          intro!: release_first_does split: if_splits\<close>)
qed

lemma ro_poll_done:
  assumes "done_rest s True" and "ro_channel r = Some c" and "length os < n"
  shows "does (ro_poll_result n r w) os s
    (\<lambda>(r', p) s'. done_rest s' (ro_channel r' \<noteq> None) \<and>
       flow s [] s' (ok_value (map_poll result_ok p)))"
proof -
  from assms(1) obtain d where r: "at_rest s \<lparr>active = False, content = d, waiting = None\<rparr>"
    by (auto simp: done_rest_def)
  have "aread w False \<lparr>active = False, content = d, waiting = None\<rparr> =
      (Ready (d, True), \<lparr>active = False, content = None, waiting = None\<rparr>, [])"
    by (cases d) (simp_all add: aread_def)
  note step = read_does [OF r this assms(3)]
  show ?thesis
    unfolding ro_poll_result_def assms(2) option.case Let_def
    by (rule does_bind [OF step])
       (use r assms(2) in \<open>cases d; auto simp: flow_defs ok_value_def done_rest_def
          intro!: dealloc_does cells_released dest: at_rest_cells\<close>)
qed

lemma tx_rest_kind:
  fixes s :: "('v, 'w) chan"
  assumes "tx_rest t s True"
  obtains (idle) "tx_rest t = (idle_rest :: ('v, 'w) chan \<Rightarrow> _)"
    | (flush) "tx_rest t = (flush_rest :: ('v, 'w) chan \<Rightarrow> _)"
    | (finished) "tx_rest t = (done_rest :: ('v, 'w) chan \<Rightarrow> _)"
  using assms by (cases t) (auto simp: fun_eq_iff split: option.splits)

lemma ro_poll_does:
  assumes "tx_rest t s (ro_channel r \<noteq> None)" and "length os < n"
  shows "does (ro_poll_result n r w) os s
    (\<lambda>(r', p) s'. tx_rest t s' (ro_channel r' \<noteq> None) \<and>
       flow s [] s' (ok_value (map_poll result_ok p)))"
proof (cases "ro_channel r")
  case None
  with assms show ?thesis by (simp add: ro_poll_result_def ok_value_def flow_def)
next
  case (Some c)
  with assms(1) have live: "tx_rest t s True" by simp
  then show ?thesis
  proof (cases rule: tx_rest_kind)
    case idle
    show ?thesis unfolding idle by (rule ro_poll_idle [OF live [unfolded idle] Some assms(2)])
  next
    case flush
    show ?thesis unfolding flush by (rule ro_poll_flush [OF live [unfolded flush] Some assms(2)])
  next
    case finished
    show ?thesis
      unfolding finished by (rule ro_poll_done [OF live [unfolded finished] Some assms(2)])
  qed
qed

lemma ro_drop_does:
  assumes "tx_rest t s (ro_channel r \<noteq> None)"
  shows "does (ro_drop r) os s (\<lambda>_ s'. tx_rest t s' False \<and> flow s [] s' [])"
proof (cases "ro_channel r")
  case None
  with assms show ?thesis by (simp add: ro_drop_def flow_def)
next
  case (Some c)
  with assms have live: "tx_rest t s True" by simp
  then show ?thesis
  proof (cases rule: tx_rest_kind)
    case idle
    with live Some show ?thesis
      by (auto simp: ro_drop_def idle_rest_def flow_defs adrop_first_def intro!: release_first_does)
  next
    case flush
    with live Some show ?thesis
      by (auto simp: ro_drop_def flush_rest_def flow_defs adrop_first_def intro!: release_first_does)
  next
    case finished
    with live Some show ?thesis
      by (auto simp: ro_drop_def done_rest_def flow_defs intro!: release_last_does)
  qed
qed

lemma ro_try_recv_does:
  assumes "tx_rest t s (ro_channel r \<noteq> None)" and "length os < n"
  shows "does (ro_try_recv n r) os s
    (\<lambda>(r', p) s'. tx_rest t s' (ro_channel r' \<noteq> None) \<and> flow s [] s' (ok_value p))"
  unfolding ro_try_recv_def by (rule does_bind [OF ro_poll_does [OF assms]]) auto

subsection \<open>Every sequence of calls\<close>

lemma on_channel_step:
  assumes "once_step c os x = on_channel p os x f" and "does p os (chn x) P"
    and "\<And>r s'. P r s' \<Longrightarrow> once_inv (f r (x\<lparr>chn := s'\<rparr>))"
  shows "\<exists>y. once_step c os x = Returned y \<and> once_inv y"
  unfolding assms(1) by (rule on_channel_does, rule does_weaken [OF assms(2)]) (rule assms(3))

lemmas once_inv_defs = once_inv_def rx_live_def accounted_def flow_def

lemma once_step_inv:
  assumes "once_inv x"
  shows "\<exists>y. once_step c os x = Returned y \<and> once_inv y"
proof (cases c)
  case (OTrySend v)
  show ?thesis
  proof (cases "tx x")
    case (TxHeld so)
    with assms have i: "idle_rest (chn x) (rx_live x)" by (simp add: once_inv_def)
    show ?thesis
      by (rule on_channel_step [OF _ so_try_send_does [OF i]], simp add: OTrySend TxHeld)
         (use TxHeld assms in \<open>auto simp: once_inv_defs\<close>)
  qed (use OTrySend assms in simp_all)
next
  case (OSend v)
  with assms show ?thesis
    by (cases "tx x") (auto simp: once_inv_defs so_send_def)
next
  case (OPollFlush w)
  show ?thesis
  proof (cases "tx x")
    case (TxFlush f)
    with assms have i: "tx_rest (TxFlush f) (chn x) (rx_live x)" by (simp add: once_inv_def)
    show ?thesis
      by (rule on_channel_step [OF _ flush_poll_does [OF i]], simp add: OPollFlush TxFlush)
         (use TxFlush assms in \<open>auto simp: once_inv_defs ac_simps simp del: tx_rest.simps\<close>)
  qed (use OPollFlush assms in simp_all)
next
  case ODropTx
  show ?thesis
  proof (cases "tx x")
    case (TxHeld so)
    with assms have i: "idle_rest (chn x) (rx_live x)" by (simp add: once_inv_def)
    show ?thesis
      by (rule on_channel_step [OF _ so_drop_does [OF i]], simp add: ODropTx TxHeld)
         (use TxHeld assms in \<open>auto simp: once_inv_defs\<close>)
  next
    case (TxFlush f)
    with assms have i: "tx_rest (TxFlush f) (chn x) (rx_live x)" by (simp add: once_inv_def)
    show ?thesis
      by (rule on_channel_step [OF _ flush_drop_does [OF i]], simp add: ODropTx TxFlush)
         (use TxFlush assms in \<open>auto simp: once_inv_defs ac_simps\<close>)
  qed (use ODropTx assms in simp_all)
next
  case OTryRecv
  show ?thesis
  proof (cases "rx x")
    case (Some r)
    with assms have i: "tx_rest (tx x) (chn x) (ro_channel r \<noteq> None)"
      by (simp add: once_inv_def rx_live_def)
    have l: "length os < turns os" by (simp add: turns_def)
    show ?thesis
      by (rule on_channel_step [OF _ ro_try_recv_does [OF i l]], simp add: OTryRecv Some)
         (use Some assms in \<open>auto simp: once_inv_defs\<close>)
  qed (use OTryRecv assms in simp_all)
next
  case (OPollRx w)
  show ?thesis
  proof (cases "rx x")
    case (Some r)
    with assms have i: "tx_rest (tx x) (chn x) (ro_channel r \<noteq> None)"
      by (simp add: once_inv_def rx_live_def)
    have l: "length os < turns os" by (simp add: turns_def)
    show ?thesis
      by (rule on_channel_step [OF _ ro_poll_does [OF i l]], simp add: OPollRx Some)
         (use Some assms in \<open>auto simp: once_inv_defs ro_poll_def\<close>)
  qed (use OPollRx assms in simp_all)
next
  case ODropRx
  show ?thesis
  proof (cases "rx x")
    case (Some r)
    with assms have i: "tx_rest (tx x) (chn x) (ro_channel r \<noteq> None)"
      by (simp add: once_inv_def rx_live_def)
    show ?thesis
      by (rule on_channel_step [OF _ ro_drop_does [OF i]], simp add: ODropRx Some)
         (use Some assms in \<open>auto simp: once_inv_defs\<close>)
  qed (use ODropRx assms in simp_all)
qed

lemma once_run_inv:
  "once_inv x \<Longrightarrow> \<exists>y. once_run cs x = Returned y \<and> once_inv y"
proof (induction cs arbitrary: x)
  case (Cons a cs)
  obtain c os where a: "a = (c, os)" by fastforce
  from once_step_inv [OF Cons.prems] obtain y where "once_step c os x = Returned y" "once_inv y"
    by blast
  with Cons.IH a show ?case by simp
qed simp

text \<open>
  What the invariant gives at any point of the life of the channel: the allocation is
  released exactly when both ends are gone, never twice, and then no waker is left over.
\<close>

definition tx_gone :: "('v, 'w) once_sys \<Rightarrow> bool" where
  "tx_gone x = (case tx x of TxHeld _ \<Rightarrow> False | TxFlush f \<Rightarrow> fl_channel f = None | TxDone \<Rightarrow> True)"

lemma once_inv_released:
  assumes "once_inv x"
  shows "if tx_gone x \<and> \<not> rx_live x then released (chn x) else freed (chn x) = 0"
  using assms
  by (cases "tx x")
     (auto simp: once_inv_def tx_gone_def once_rest_defs at_rest_def split: if_splits option.splits)



end
