(* ===== verification/Explore.thy ===== *)
theory Explore
  imports Prelude
begin

text \<open>
  Exhaustive search of the interleavings of a few threads: \<open>explore\<close> follows every move of
  every thread, and what it finds at each configuration holds of every reachable one.  It
  evaluates by \<open>simp\<close> when the congruence rules \<open>lazy_prog\<close> keep the simplifier out of
  what a program has not come to yet.
\<close>

primrec thread_succs :: "('s, 'r) prog \<Rightarrow> 's \<Rightarrow> (('s, 'r) prog \<times> 's) list" where
  "thread_succs (Ret r) s = []"
| "thread_succs (Panic m) s = []"
| "thread_succs Hang s = []"
| "thread_succs (Act u k) s = [(k s, u s)]"
| "thread_succs (Wait g p) s = (if g s then thread_succs p s else [])"
| "thread_succs (Pick k) s = thread_succs (k False) s @ thread_succs (k True) s"

fun moves_from :: "('s, 'r) prog list \<Rightarrow> ('s, 'r) prog list \<Rightarrow> 's \<Rightarrow> ('s, 'r) config list" where
  "moves_from qs [] s = []"
| "moves_from qs (p # ps) s =
     map (\<lambda>(p', s'). (s', qs @ p' # ps)) (thread_succs p s) @ moves_from (qs @ [p]) ps s"

text \<open>
  \<open>explore n P c\<close>: \<open>P\<close> holds of \<open>c\<close> and of everything reachable from it, and every
  interleaving ends in fewer than \<open>n\<close> steps.
\<close>

fun explore :: "nat \<Rightarrow> (('s, 'r) config \<Rightarrow> bool) \<Rightarrow> ('s, 'r) config \<Rightarrow> bool" where
  "explore 0 P c = False"
| "explore (Suc n) P c = (P c \<and> list_all (explore n P) (moves_from [] (snd c) (fst c)))"

lemma tstep_succs: "tstep p s p' s' \<Longrightarrow> (p', s') \<in> set (thread_succs p s)"
proof (induction rule: tstep.induct)
  case (pick k b s p' s')
  then show ?case by (cases b) simp_all
qed simp_all

lemma moves_from_thread:
  "i < length ps \<Longrightarrow> (p', s') \<in> set (thread_succs (ps ! i) s) \<Longrightarrow>
     (s', qs @ ps[i := p']) \<in> set (moves_from qs ps s)"
proof (induction ps arbitrary: i qs)
  case (Cons p ps)
  then show ?case
  proof (cases i)
    case (Suc j)
    with Cons.prems Cons.IH [of j "qs @ [p]"] show ?thesis by simp
  qed (force simp: image_iff)
qed simp

lemma explore_numeral:
  "explore (numeral k) P c = (P c \<and> list_all (explore (pred_numeral k) P) (moves_from [] (snd c) (fst c)))"
  unfolding numeral_eq_Suc by (rule explore.simps)

lemma explore_reach:
  assumes "explore n P c" and "reach c d"
  shows "P d"
proof -
  from assms(2,1) have "\<exists>m. explore m P d"
  proof (induction rule: reach.induct)
    case (step d e)
    then obtain m where m: "explore m P d" by blast
    from step(2) have "e \<in> set (moves_from [] (snd d) (fst d))"
    proof cases
      case (thread i ps s p' s')
      from moves_from_thread [OF thread(3) tstep_succs [OF thread(4)], of "[]"] thread
      show ?thesis by simp
    qed
    with m show ?case by (cases m) (auto simp: list_all_iff)
  qed blast
  then obtain m where "explore m P d" ..
  then show ?thesis by (cases m) auto
qed

definition panicked :: "('s, 'r) prog \<Rightarrow> bool" where
  "panicked p = (case p of Panic _ \<Rightarrow> True | _ \<Rightarrow> False)"

lemma panicked_simps [simp]:
  "panicked (Panic m)" "\<not> panicked (Ret r)" "\<not> panicked (Act u k)"
  "\<not> panicked (Wait g p)" "\<not> panicked (Pick k')" "\<not> panicked Hang"
  by (simp_all add: panicked_def)


lemma lazy_prog:
  "Act u k = Act u k" "Pick k' = Pick k'" "Wait g p = Wait g p" "p = p' \<Longrightarrow> bind p f = bind p' f"
  by simp_all

end
