(* ===== verification/ChannelRace.thy ===== *)
theory ChannelRace
  imports ChannelSpec ChannelEnds Explore
begin

text \<open>
  The two ends of a channel on two threads.  Every interleaving of two calls is explored:
  for some pairs nothing goes wrong, and what goes wrong for the others is shown by a
  schedule that leads there.
\<close>

lemma lazy_access:
  "access u k = access u k" "load_state k2 = load_state k2" "store_state x k3 = store_state x k3"
  "swap_state x k2 = swap_state x k2" "fetch_or x k2 = fetch_or x k2"
  "fetch_and x k2 = fetch_and x k2" "compare_exchange x y k4 = compare_exchange x y k4"
  "compare_exchange_weak x y k4 = compare_exchange_weak x y k4"
  "on_value g k5 = on_value g k5" "on_waker h k6 = on_waker h k6" "emit e k3 = emit e k3"
  "value_store v k3 = value_store v k3" "value_load k7 = value_load k7"
  "value_clear k3 = value_clear k3" "waker_store w k3 = waker_store w k3"
  "waker_load k8 = waker_load k8" "waker_clear k3 = waker_clear k3"
  "b = b' \<Longrightarrow> waker_load_if b k9 = waker_load_if b' k9"
  "b = b' \<Longrightarrow> waker_clear_if b k3 = waker_clear_if b' k3"
  "o1 = o1' \<Longrightarrow> wake o1 k3 = wake o1' k3" "o1 = o1' \<Longrightarrow> wake_by_ref o1 k3 = wake_by_ref o1' k3"
  "o1 = o1' \<Longrightarrow> waker_drop o1 k3 = waker_drop o1' k3" "dealloc k3 = dealloc k3"
  "release_side b k3 = release_side b k3" "dealloc_if b k3 = dealloc_if b k3"
  by simp_all

lemmas numeral_loops = explore_numeral
  read_loop.simps(2) [of "pred_numeral k" for k, folded numeral_eq_Suc]
  flush_loop.simps(2) [of "pred_numeral k" for k, folded numeral_eq_Suc]

lemmas race_defs = op_defs access_defs end_defs state_defs checked_defs numeral_loops
  new_channel_def maybe_empty_def maybe_drop_def

text \<open>A schedule that leads to a configuration with a property.\<close>

definition leads_to :: "(nat \<times> bool) list \<Rightarrow> ('s, 'r) config \<Rightarrow> (('s, 'r) config \<Rightarrow> bool) \<Rightarrow> bool" where
  "leads_to is c P = (case sched is c of None \<Rightarrow> False | Some d \<Rightarrow> P d)"

lemma leads_to_reach: "leads_to is c P \<Longrightarrow> \<exists>d. reach c d \<and> P d"
  by (auto simp: leads_to_def dest: sched_reach split: option.splits)

lemmas race_simps = race_defs leads_to_def

subsection \<open>Threads\<close>

text \<open>What a thread has to say when it ends.\<close>

datatype 'v race_end =
    Sent "'v try_send_error + unit"
  | Took "'v option"
  | Polled "(recv_error + 'v) poll"
  | PolledNext "'v option poll"
  | Flushed "('v try_send_error + unit) poll"
  | Gone

definition tx_once :: send_once where "tx_once = \<lparr>so_channel = ChannelPtr\<rparr>"
definition rx_once :: receive_once where "rx_once = \<lparr>ro_channel = Some ChannelPtr\<rparr>"
definition tx_many :: sender where "tx_many = \<lparr>se_channel = Some ChannelPtr\<rparr>"
definition rx_many :: receiver where "rx_many = \<lparr>re_channel = Some ChannelPtr\<rparr>"

lemmas handle_defs = tx_once_def rx_once_def tx_many_def rx_many_def

type_synonym ('v, 'w) racer = "(('v, 'w) chan, 'v race_end) prog"
type_synonym ('v, 'w) race = "(('v, 'w) chan, 'v race_end) config"

definition t_send :: "'v \<Rightarrow> ('v, 'w) racer" where
  "t_send v = bind (so_try_send tx_once v) (\<lambda>r. Ret (Sent r))"

definition t_drop_tx :: "('v, 'w) racer" where
  "t_drop_tx = bind (so_drop tx_once) (\<lambda>_. Ret Gone)"

definition t_cancel :: "('v, 'w) racer" where
  "t_cancel = bind (ro_cancel 5 rx_once) (\<lambda>r. Ret (Took r))"

definition t_drop_rx :: "('v, 'w) racer" where
  "t_drop_rx = bind (ro_drop rx_once) (\<lambda>_. Ret Gone)"

definition t_try_recv :: "('v, 'w) racer" where
  "t_try_recv = bind (ro_try_recv 3 rx_once) (\<lambda>(_, p). Ret (PolledNext p))"

definition t_poll :: "'w \<Rightarrow> ('v, 'w) racer" where
  "t_poll w = bind (ro_poll 3 rx_once w) (\<lambda>(_, p). Ret (Polled p))"

definition t_stream_send :: "'v \<Rightarrow> ('v, 'w) racer" where
  "t_stream_send v = bind (se_try_send tx_many v) (\<lambda>(_, r). Ret (Sent r))"

definition t_stream_poll :: "'w \<Rightarrow> ('v, 'w) racer" where
  "t_stream_poll w = bind (re_poll_next 2 rx_many w) (\<lambda>(_, p). Ret (PolledNext p))"

text \<open>The future of \<open>send\<close>, polled twice and then dropped.\<close>

definition t_flush :: "'v \<Rightarrow> 'w \<Rightarrow> ('v, 'w) racer" where
  "t_flush v w =
     bind (flush_poll 3 (so_send tx_once v) w) (\<lambda>(f, p).
       bind (flush_poll 3 f w) (\<lambda>(f, p). bind (flush_drop f) (\<lambda>_. Ret (Flushed p))))"

lemmas thread_defs = handle_defs t_send_def t_drop_tx_def t_cancel_def t_drop_rx_def
  t_try_recv_def t_poll_def t_stream_send_def t_stream_poll_def t_flush_def

abbreviation race_start :: "('v, 'w) racer list \<Rightarrow> ('v, 'w) race" where
  "race_start ts \<equiv> (new_channel, ts)"

definition calm :: "('v, 'w) race \<Rightarrow> bool" where
  "calm c = (list_all (\<lambda>p. \<not> panicked p) (snd c) \<and> freed (fst c) \<le> 1)"

definition some_panic :: "('v, 'w) race \<Rightarrow> bool" where
  "some_panic c = list_ex panicked (snd c)"

subsection \<open>Pairs of calls that are safe\<close>

text \<open>\<open>SendOnce::try_send\<close> against \<open>ReceiveOnce::cancel\<close>\<close>

definition send_cancel_ok :: "'v \<Rightarrow> ('v, 'w) race \<Rightarrow> bool" where
  "send_cancel_ok v c =
     (calm c \<and>
      (case snd c of
         [Ret (Sent r), Ret (Took t)] \<Rightarrow>
           r = Inr () \<and> t = Some v \<or>
           r = Inl (Disconnected v) \<and> t = None \<and> freed (fst c) = 1
       | _ \<Rightarrow> True))"

lemma send_cancel_explored: "explore 40 (send_cancel_ok v) (race_start [t_send v, t_cancel])"
  by (simp add: race_defs thread_defs send_cancel_ok_def calm_def cong: lazy_prog lazy_access)

text \<open>\<open>SendOnce::try_send\<close> against the drop of \<open>ReceiveOnce\<close>\<close>

definition send_drop_ok :: "'v \<Rightarrow> ('v, 'w) race \<Rightarrow> bool" where
  "send_drop_ok v c =
     (calm c \<and>
      (case snd c of
         [Ret (Sent r), Ret Gone] \<Rightarrow>
           (if r = Inr ()
            then freed (fst c) = 1 \<and> value_drops (log (fst c)) = [v] \<or>
              freed (fst c) = 0 \<and> cell_content (c_value (fst c)) = Some v
            else r = Inl (Disconnected v) \<and> freed (fst c) = 1 \<and> value_drops (log (fst c)) = [])
       | _ \<Rightarrow> True))"

lemma send_drop_explored: "explore 40 (send_drop_ok v) (race_start [t_send v, t_drop_rx])"
  by (simp add: race_defs thread_defs send_drop_ok_def calm_def cell_content_def
      cong: lazy_prog lazy_access)

text \<open>\<open>Sender::try_send\<close> against \<open>Receiver::poll_next\<close>\<close>

definition send_poll_ok :: "'v \<Rightarrow> 'w \<Rightarrow> ('v, 'w) race \<Rightarrow> bool" where
  "send_poll_ok v w c =
     (calm c \<and> freed (fst c) = 0 \<and>
      (case snd c of
         [Ret (Sent r), Ret (PolledNext p)] \<Rightarrow>
           r = Inr () \<and>
           (p = Ready (Some v) \<and> cell_content (c_value (fst c)) = None \<or>
            p = Pending \<and> cell_content (c_value (fst c)) = Some v \<and> w \<in> set (wakes (log (fst c))))
       | _ \<Rightarrow> True))"

lemma send_poll_explored: "explore 50 (send_poll_ok v w) (race_start [t_stream_send v, t_stream_poll w])"
  by (simp add: race_defs thread_defs send_poll_ok_def calm_def cell_content_def
      cong: lazy_prog lazy_access)


subsection \<open>Pairs of calls that are not\<close>

text \<open>Both ends dropped at once: the second to clear \<open>STATE_ACTIVE\<close> clears an empty cell.\<close>

lemma drop_drop_panics:
  "\<exists>d. reach (race_start [t_drop_tx, t_drop_rx] :: ('v, 'w) race) d \<and> some_panic d"
  by (rule leads_to_reach [of "[(0, False), (1, False), (0, False), (1, False), (1, False)]"])
     (simp add: race_simps thread_defs some_panic_def cong: lazy_prog lazy_access)

text \<open>
  \<open>try_send\<close> on its slow path against \<open>try_recv\<close>, which takes the value and drops its side
  before the writer has cleared \<open>STATE_ACTIVE\<close>.
\<close>

lemma send_recv_panics:
  "\<exists>d. reach (race_start [t_send v, t_try_recv] :: ('v, 'w) race) d \<and> some_panic d"
  by (rule leads_to_reach [of "[(0, False), (0, False), (0, True), (0, False), (1, False),
        (1, False), (1, False), (1, False), (1, False), (0, False), (1, False), (1, False)]"])
     (simp add: race_simps thread_defs some_panic_def cong: lazy_prog lazy_access)

text \<open>The reader drops while it holds \<open>STATE_WLOCK\<close>: both ends are gone, the value stays.\<close>

lemma send_drop_leaks:
  "\<exists>d. reach (race_start [t_send v, t_drop_rx] :: ('v, 'w) race) d \<and>
     snd d = [Ret (Sent (Inr ())), Ret Gone] \<and> freed (fst d) = 0 \<and>
     cell_content (c_value (fst d)) = Some v"
  by (rule leads_to_reach [of "[(1, False), (0, False), (0, False), (0, False), (1, False)]"])
     (simp add: race_simps thread_defs cell_content_def cong: lazy_prog lazy_access)

lemma send_cancel_leaks:
  "\<exists>d. reach (race_start [t_send v, t_cancel] :: ('v, 'w) race) d \<and>
     snd d = [Ret (Sent (Inr ())), Ret (Took (Some v))] \<and> freed (fst d) = 0"
  by (rule leads_to_reach [of "[(0, False), (0, False), (0, True), (0, False), (1, False),
        (1, False), (1, False), (1, False), (0, False)]"])
     (simp add: race_simps thread_defs cong: lazy_prog lazy_access)

text \<open>The writer drops while the reader stores its waker, and nobody calls that waker.\<close>

lemma drop_poll_loses_wakeup:
  "\<exists>d. reach (race_start [t_drop_tx, t_poll w] :: ('v, 'w) race) d \<and>
     snd d = [Ret Gone, Ret (Polled Pending)] \<and> cell_content (c_waker (fst d)) = Some w \<and>
     wakes (log (fst d)) = []"
  by (rule leads_to_reach [of "[(1, False), (1, False), (0, False), (1, False), (1, False),
        (1, False), (0, False)]"])
     (simp add: race_simps thread_defs cell_content_def cong: lazy_prog lazy_access)

text \<open>
  The reader has taken the value and woken the writer, whose future completes and releases
  the channel before the reader drops its side.
\<close>

lemma flush_poll_use_after_free:
  "\<exists>d. reach (race_start [t_flush v w, t_poll u] :: ('v, 'w) race) d \<and>
     snd d = [Ret (Flushed (Ready (Inr ()))), Panic ''use after free'']"
  by (rule leads_to_reach [of "replicate 6 (0, False) @ replicate 6 (1, False) @
        replicate 4 (0, False) @ [(1, False)]"])
     (simp add: race_simps thread_defs eval_nat_numeral cong: lazy_prog lazy_access)

subsection \<open>Sequences of calls that go wrong without a race\<close>

text \<open>The waker of an earlier poll is still in its cell when \<open>try_send\<close> releases the channel.\<close>

lemma poll_cancel_send_panics:
  "\<exists>m s. run (bind (ro_poll 2 rx_once w) (\<lambda>(r, _). bind (ro_cancel 2 r) (\<lambda>_. so_try_send tx_once v)))
     [] (new_channel :: ('v, 'w) chan) = (Panicked m, s)"
  by (simp add: race_simps thread_defs run_def cong: lazy_prog lazy_access)

text \<open>The same for a value that the receiver left, when the sender sends again.\<close>

lemma send_drop_send_panics:
  "\<exists>m s. run (bind (se_try_send tx_many v) (\<lambda>(t, _). bind (re_drop rx_many) (\<lambda>_. se_try_send t v')))
     [] (new_channel :: ('v, 'w) chan) = (Panicked m, s)"
  by (simp add: race_simps thread_defs run_def cong: lazy_prog lazy_access)

text \<open>\<open>cancel\<close> takes a value and leaves the channel active: the writer's drop is not the last.\<close>

lemma flush_cancel_drop_leaks:
  "\<exists>s. run (bind (flush_poll 2 (so_send tx_once v) w) (\<lambda>(f, _).
       bind (ro_cancel 2 rx_once) (\<lambda>t. bind (flush_drop f) (\<lambda>_. Ret t))))
     [] (new_channel :: ('v, 'w) chan) = (Returned (Some v), s) \<and> freed s = 0"
  by (simp add: race_simps thread_defs run_def cong: lazy_prog lazy_access)

text \<open>\<open>try_recv\<close> on an empty channel ends it.\<close>

lemma try_recv_empty_closes:
  "\<exists>s. run (ro_try_recv 2 rx_once) [] (new_channel :: ('v, 'w) chan) =
     (Returned (\<lparr>ro_channel = None\<rparr>, Ready None), s) \<and> c_state s = STATE_DONE"
  by (simp add: race_simps thread_defs run_def cong: lazy_prog lazy_access)

text \<open>A wait with a timeout on an empty channel returns at once, and never parks.\<close>

lemma read_timeout_does_not_wait:
  "run (wait_read_timeout 2 w park) [] (new_channel :: ('v, 'w) chan) =
     (Returned (None, False), new_channel)"
  by (simp add: race_simps run_def wait_read_timeout_def cong: lazy_prog lazy_access)

text \<open>The receiver loses its channel when a wait with a timeout gives a value.\<close>

lemma wait_next_timeout_forgets:
  "\<exists>s. run (bind (se_try_send tx_many v) (\<lambda>_. re_wait_next_timeout 2 w park rx_many))
     [] (new_channel :: ('v, 'w) chan) = (Returned (\<lparr>re_channel = None\<rparr>, Inr v), s) \<and>
     freed s = 0 \<and> c_state s = STATE_ACTIVE"
  by (simp add: race_simps thread_defs run_def wait_read_timeout_def re_wait_next_timeout_def
      cong: lazy_prog lazy_access)

text \<open>A second \<open>send\<close> after the receiver is gone gives a future that panics when polled.\<close>

lemma send_after_disconnect_panics:
  "\<exists>m s. run (bind (re_drop rx_many) (\<lambda>_. bind (se_try_send tx_many v) (\<lambda>(t, _).
       flush_poll 2 (se_send t v') w)))
     [] (new_channel :: ('v, 'w) chan) = (Panicked m, s)"
  by (simp add: race_simps thread_defs run_def cong: lazy_prog lazy_access)


subsection \<open>What the interleavings have in common\<close>



text \<open>C23. However \<open>SendOnce::try_send\<close> and the drop of \<open>ReceiveOnce\<close> interleave, nothing panics
  and the channel is not released twice; when both have returned, a send that failed has
  handed the value back and released the channel, and after one that succeeded the value has
  been dropped with the channel, or both are left unreleased.\<close>

theorem send_drop_safe:
  assumes "reach (race_start [t_send v, t_drop_rx]) d"
  shows "send_drop_ok v d"
  by (rule explore_reach [OF send_drop_explored assms])

theorem send_drop_safe_witness: "send_drop_ok (7 :: nat) (race_start [t_send 7, t_drop_rx] :: (nat, nat) race)"
  by (rule send_drop_safe [OF reach.start])

text \<open>However \<open>Sender::try_send\<close> and \<open>Receiver::poll_next\<close> interleave, with up to two turns of
  the reader's loop, nothing panics and nothing is released; when both have returned, the
  value was sent, and the poll either returned it or is pending with the value in the channel
  and the waker of the poll called: no wakeup is lost.\<close>

lemma send_poll_safe:
  assumes "reach (race_start [t_stream_send v, t_stream_poll w]) d"
  shows "send_poll_ok v w d"
  by (rule explore_reach [OF send_poll_explored assms])

end
