(* ===== verification/StreamPlaces.thy ===== *)
theory StreamPlaces
  imports ChannelEnds Explore
begin

text \<open>
  The code of a \<open>Sender\<close> and of a \<open>Receiver\<close> that run on two threads, cut at the places where a
  thread can be between two steps.  The sender calls \<open>try_send\<close>, or \<open>send\<close> and polls its
  future; the receiver calls \<open>poll_next\<close> and \<open>try_recv\<close>.  Neither end is dropped here, so
  \<open>STATE_ACTIVE\<close> is set throughout.
\<close>

subsection \<open>The state word as flags\<close>

datatype state_bits = Bits (loaded_bit: bool) (wlock_bit: bool) (rlock_bit: bool) (wake_bit: bool)

primrec word_of :: "state_bits \<Rightarrow> u8" where
  "word_of (Bits l w r k) =
     STATE_ACTIVE OR (if l then STATE_LOADED else 0) OR (if w then STATE_WLOCK else 0) OR
       (if r then STATE_RLOCK else 0) OR (if k then STATE_WAKE else 0)"

lemma word_of_eq [simp]: "word_of b = word_of c \<longleftrightarrow> b = c"
  by (cases b; cases c) (simp add: state_defs)

lemma word_of_tests [simp]:
  "word_of b AND STATE_ACTIVE \<noteq> 0"
  "word_of b AND STATE_LOADED = 0 \<longleftrightarrow> \<not> loaded_bit b"
  "word_of b AND STATE_WLOCK = 0 \<longleftrightarrow> \<not> wlock_bit b"
  "word_of b AND STATE_RLOCK = 0 \<longleftrightarrow> \<not> rlock_bit b"
  "word_of b AND STATE_WAKE = 0 \<longleftrightarrow> \<not> wake_bit b"
  "word_of b AND (STATE_LOADED OR STATE_RLOCK) = 0 \<longleftrightarrow> \<not> loaded_bit b \<and> \<not> rlock_bit b"
  "word_of b AND (STATE_WLOCK OR STATE_WAKE) = STATE_WAKE \<longleftrightarrow> wake_bit b \<and> \<not> wlock_bit b"
  "word_of b AND (STATE_LOADED OR STATE_ACTIVE) = STATE_ACTIVE \<longleftrightarrow> \<not> loaded_bit b"
  by (cases b; simp add: state_defs)+

lemma word_of_masks [simp]:
  "word_of b OR STATE_LOADED = word_of (Bits True (wlock_bit b) (rlock_bit b) (wake_bit b))"
  "word_of b OR STATE_WAKE = word_of (Bits (loaded_bit b) (wlock_bit b) (rlock_bit b) True)"
  "word_of b OR STATE_LOADED OR STATE_WAKE = word_of (Bits True (wlock_bit b) (rlock_bit b) True)"
  "word_of b OR STATE_LOADED OR STATE_WLOCK OR STATE_WAKE = word_of (Bits True True (rlock_bit b) True)"
  "word_of b OR STATE_WLOCK OR STATE_WAKE = word_of (Bits (loaded_bit b) True (rlock_bit b) True)"
  "word_of b OR STATE_RLOCK OR STATE_WLOCK = word_of (Bits (loaded_bit b) True True (wake_bit b))"
  "word_of b OR STATE_RLOCK OR STATE_WLOCK OR STATE_WAKE = word_of (Bits (loaded_bit b) True True True)"
  "word_of b AND NOT (STATE_WLOCK OR STATE_WAKE) = word_of (Bits (loaded_bit b) False (rlock_bit b) False)"
  "word_of b AND NOT (STATE_LOADED OR STATE_RLOCK) = word_of (Bits False (wlock_bit b) False (wake_bit b))"
  "word_of b AND NOT (STATE_LOADED OR STATE_RLOCK OR STATE_WLOCK OR STATE_WAKE) = word_of (Bits False False False False)"
  "word_of b AND NOT (STATE_RLOCK OR STATE_WLOCK OR STATE_WAKE) = word_of (Bits (loaded_bit b) False False False)"
  by (cases b; simp add: state_defs)+

lemma word_of_active: "STATE_ACTIVE = word_of (Bits False False False False)"
  by simp

declare word_of.simps [simp del] bit.de_Morgan_disj [simp del]

subsection \<open>A step at a place\<close>

text \<open>The channel seen as its flags and the contents of its cells.\<close>

definition view :: "('v, 'w) chan \<Rightarrow> state_bits \<Rightarrow> 'v option \<Rightarrow> 'w option \<Rightarrow> bool" where
  "view s b x y =
     (freed s = 0 \<and> c_state s = word_of b \<and> checked_holds (c_value s) x \<and> checked_holds (c_waker s) y)"

text \<open>What a step of one access does, to the program and to the view.\<close>

definition steps_to ::
  "('v, 'w) chan \<Rightarrow> ('v, 'w) chan \<Rightarrow> state_bits \<Rightarrow> 'v option \<Rightarrow> 'w option \<Rightarrow> ('v, 'w) event list \<Rightarrow> bool" where
  "steps_to s s' b x y es = (view s' b x y \<and> log s' = log s @ es)"

inductive_simps tstep_Act: "tstep (Act u k) s q s'"

lemmas step_defs = view_def steps_to_def access_defs checked_holds_def checked_defs

lemma step_load:
  assumes "tstep (bind (load_state k) f) s q s'" and "view s b x y"
  shows "q = bind (k (word_of b)) f \<and> steps_to s s' b x y []"
  using assms by (auto simp: step_defs)

lemma step_or:
  assumes "tstep (bind (fetch_or m k) f) s q s'" and "view s b x y" and "word_of b OR m = word_of b'"
  shows "q = bind (k (word_of b)) f \<and> steps_to s s' b' x y []"
  using assms by (auto simp: step_defs)

lemma step_and:
  assumes "tstep (bind (fetch_and m k) f) s q s'" and "view s b x y" and "word_of b AND m = word_of b'"
  shows "q = bind (k (word_of b)) f \<and> steps_to s s' b' x y []"
  using assms by (auto simp: step_defs)

lemma step_exchange:
  assumes "tstep (bind (compare_exchange (word_of c) (word_of c') k) f) s q s'" and "view s b x y"
  shows "b = c \<and> q = bind (k (Inr (word_of b))) f \<and> steps_to s s' c' x y [] \<or>
    b \<noteq> c \<and> q = bind (k (Inl (word_of b))) f \<and> steps_to s s' b x y []"
  using assms
  by (cases "b = c") (simp_all add: compare_exchange_def access_def view_def steps_to_def tstep_Act)

lemma step_exchange_weak:
  assumes "tstep (bind (compare_exchange_weak (word_of c) (word_of c') k) f) s q s'" and "view s b x y"
  shows "b = c \<and> q = bind (k (Inr (word_of b))) f \<and> steps_to s s' c' x y [] \<or>
    q = bind (k (Inl (word_of b))) f \<and> steps_to s s' b x y []"
proof -
  from assms(1) consider "tstep (bind (compare_exchange (word_of c) (word_of c') k) f) s q s'"
    | "tstep (bind (access (\<lambda>s. s) (\<lambda>s. k (Inl (c_state s)))) f) s q s'"
    unfolding compare_exchange_weak_def by (auto split: if_splits)
  then show ?thesis
  proof cases
    case 1
    from step_exchange [OF this assms(2)] show ?thesis by blast
  next
    case 2
    with assms(2) show ?thesis by (simp add: access_def view_def steps_to_def) fastforce
  qed
qed

lemma step_value_store:
  assumes "tstep (bind (value_store v k) f) s q s'" and "view s b None y"
  shows "q = bind k f \<and> steps_to s s' b (Some v) y []"
  using assms by (auto simp: step_defs)

lemma step_value_load:
  assumes "tstep (bind (value_load k) f) s q s'" and "view s b (Some v) y"
  shows "q = bind (k v) f \<and> steps_to s s' b None y []"
  using assms by (auto simp: step_defs)

lemma step_emit:
  assumes "tstep (bind (emit e k) f) s q s'" and "view s b x y"
  shows "q = bind k f \<and> steps_to s s' b x y [e]"
  using assms by (auto simp: step_defs)

text \<open>\<open>waker_store\<close> and \<open>waker_clear\<close> are two steps each, the second of which is named here.\<close>

definition waker_put :: "'w \<Rightarrow> ('v, 'w, 'z, 'r) cprog \<Rightarrow> ('v, 'w, 'z, 'r) cprog" where
  "waker_put w k = on_waker (maybe_store w) (\<lambda>_. k)"

lemma waker_store_two: "waker_store w k = emit (WakerCloned w) (waker_put w k)"
  by (simp add: waker_store_def waker_put_def)

lemma step_waker_put:
  assumes "tstep (bind (waker_put w k) f) s q s'" and "view s b x None"
  shows "q = bind k f \<and> steps_to s s' b x (Some w) []"
  using assms by (auto simp: step_defs waker_put_def)

lemma step_waker_load:
  assumes "tstep (bind (waker_load k) f) s q s'" and "view s b x (Some w)"
  shows "q = bind (k w) f \<and> steps_to s s' b x None []"
  using assms by (auto simp: step_defs)

lemma step_waker_clear:
  assumes "tstep (bind (waker_clear k) f) s q s'" and "view s b x (Some w)"
  shows "q = bind (emit (WakerDropped w) k) f \<and> steps_to s s' b x None []"
  using assms by (auto simp: step_defs)

subsection \<open>The two threads\<close>

text \<open>
  The future of \<open>send(v)\<close> is polled with \<open>w\<close>, and then with each waker of the list as long as it is
  pending; after that it is dropped.
\<close>

datatype ('v, 'w) tx_op = TrySend 'v | SendPolls 'v 'w "'w list"

datatype 'w rx_op = PollNext 'w | TryRecv

text \<open>
  What a thread says at the end: the values that the channel accepted, or those received, in order,
  and the waker of the last call if that call was left pending.
\<close>

datatype ('v, 'w) stream_end = TxEnd "'v list" "'w option" | RxEnd "'v list" "'w option"

type_synonym ('v, 'w) sthread = "(('v, 'w) chan, ('v, 'w) stream_end) prog"

primrec send_polls ::
  "nat \<Rightarrow> 'w list \<Rightarrow> 'v flush_fut \<Rightarrow> 'w \<Rightarrow> ('v, 'w, 'z, ('v try_send_error + unit) poll \<times> 'w) cprog" where
  "send_polls n [] f w = bind (flush_poll n f w) (\<lambda>(f, p). bind (flush_drop f) (\<lambda>_. Ret (p, w)))"
| "send_polls n (w' # ws) f w = bind (flush_poll n f w) (\<lambda>(f, p). case p of
     Ready r \<Rightarrow> bind (flush_drop f) (\<lambda>_. Ret (Ready r, w))
   | Pending \<Rightarrow> send_polls n ws f w')"

fun tx_run :: "nat \<Rightarrow> ('v, 'w) tx_op list \<Rightarrow> sender \<Rightarrow> 'v list \<Rightarrow> 'w option \<Rightarrow> ('v, 'w) sthread" where
  "tx_run n [] se acc l = Ret (TxEnd acc l)"
| "tx_run n (TrySend v # ops) se acc l = bind (se_try_send se v) (\<lambda>(se, r).
     tx_run n ops se (case r of Inr _ \<Rightarrow> acc @ [v] | Inl _ \<Rightarrow> acc) None)"
| "tx_run n (SendPolls v w ws # ops) se acc l = bind (send_polls n ws (se_send se v) w) (\<lambda>(p, w).
     case p of
       Ready r \<Rightarrow> tx_run n ops se (case r of Inr _ \<Rightarrow> acc @ [v] | Inl _ \<Rightarrow> acc) None
     | Pending \<Rightarrow> tx_run n ops se (acc @ [v]) (Some w))"

definition item :: "'v option poll \<Rightarrow> 'v list" where
  "item p = (case p of Ready (Some v) \<Rightarrow> [v] | _ \<Rightarrow> [])"

fun rx_run :: "nat \<Rightarrow> 'w rx_op list \<Rightarrow> receiver \<Rightarrow> 'v list \<Rightarrow> 'w option \<Rightarrow> ('v, 'w) sthread" where
  "rx_run n [] re got l = Ret (RxEnd got l)"
| "rx_run n (PollNext w # ops) re got l = bind (re_poll_next n re w) (\<lambda>(re, p).
     rx_run n ops re (got @ item p) (case p of Ready _ \<Rightarrow> None | Pending \<Rightarrow> Some w))"
| "rx_run n (TryRecv # ops) re got l = bind (re_try_recv n re) (\<lambda>(re, p).
     rx_run n ops re (got @ item p) None)"

definition tx_end :: sender where "tx_end = \<lparr>se_channel = Some ChannelPtr\<rparr>"
definition rx_end :: receiver where "rx_end = \<lparr>re_channel = Some ChannelPtr\<rparr>"

subsection \<open>The operations in pieces\<close>

text \<open>\<open>write\<close> after the \<open>fetch_or\<close> of its slow path\<close>

definition w_back :: "'w \<Rightarrow> u8 \<Rightarrow> 'w option \<Rightarrow> ('v, 'w, 'z, ('v \<times> bool) + unit) cprog" where
  "w_back w s rw =
     (if s AND STATE_LOADED = 0 \<or> s AND STATE_RLOCK \<noteq> 0 then
        fetch_and (NOT (STATE_WLOCK OR STATE_WAKE)) (\<lambda>_.
          wake_by_ref (Some w) (waker_drop rw (Ret (Inr ()))))
      else if s AND STATE_ACTIVE = 0 then value_load (\<lambda>v. waker_drop rw (Ret (Inl (v, True))))
      else Panic ''Invalid channel state'')"

definition w_release :: "'w \<Rightarrow> u8 \<Rightarrow> 'w option \<Rightarrow> ('v, 'w, 'z, ('v \<times> bool) + unit) cprog" where
  "w_release w prev rw =
     compare_exchange (prev OR STATE_LOADED OR STATE_WLOCK OR STATE_WAKE) (prev OR STATE_LOADED OR STATE_WAKE)
       (\<lambda>r. case r of Inl s \<Rightarrow> waker_clear (w_back w s rw) | Inr _ \<Rightarrow> wake rw (Ret (Inr ())))"

definition w_unlock :: "'w option \<Rightarrow> ('v, 'w, 'z, ('v \<times> bool) + unit) cprog" where
  "w_unlock rw =
     fetch_and (NOT (STATE_WLOCK OR STATE_WAKE)) (\<lambda>prev.
       if prev AND STATE_ACTIVE = 0 then value_load (\<lambda>v. waker_drop rw (Ret (Inl (v, True))))
       else wake rw (Ret (Inr ())))"

definition w_keep :: "'w option \<Rightarrow> u8 \<Rightarrow> 'w option \<Rightarrow> ('v, 'w, 'z, ('v \<times> bool) + unit) cprog" where
  "w_keep wk prev rw =
     (case wk of Some w \<Rightarrow> waker_store w (w_release w prev rw) | None \<Rightarrow> w_unlock rw)"

lemma write_slow_pieces:
  "chan_write_slow wk False = fetch_or (STATE_LOADED OR STATE_WLOCK OR STATE_WAKE) (\<lambda>prev.
     if prev AND STATE_WLOCK = 0 then waker_load_if (prev AND STATE_WAKE \<noteq> 0) (w_keep wk prev)
     else wake_by_ref wk (Ret (Inr ())))"
  unfolding chan_write_slow_def w_keep_def [abs_def] w_unlock_def w_release_def w_back_def
  by (simp only: if_False or.right_neutral)

text \<open>\<open>flush\<close> with the waker \<open>w\<close> and \<open>n\<close> more turns\<close>

definition f_again :: "nat \<Rightarrow> 'w \<Rightarrow> ('v, 'w, 'z, ('v option \<times> bool) poll) cprog" where
  "f_again n w =
     fetch_and (NOT (STATE_WLOCK OR STATE_WAKE)) (\<lambda>prev.
       flush_loop n w False (prev AND NOT (STATE_WLOCK OR STATE_WAKE)) False)"

definition f_release :: "nat \<Rightarrow> 'w \<Rightarrow> u8 \<Rightarrow> ('v, 'w, 'z, ('v option \<times> bool) poll) cprog" where
  "f_release n w prev =
     compare_exchange_weak (prev OR STATE_WLOCK OR STATE_WAKE) (prev OR STATE_WAKE)
       (\<lambda>r. case r of Inr _ \<Rightarrow> Ret Pending | Inl _ \<Rightarrow> waker_clear (f_again n w))"

definition f_lock :: "nat \<Rightarrow> 'w \<Rightarrow> u8 \<Rightarrow> ('v, 'w, 'z, ('v option \<times> bool) poll) cprog" where
  "f_lock n w prev =
     compare_exchange_weak prev (prev OR STATE_WLOCK OR STATE_WAKE)
       (\<lambda>r. case r of
          Inr s \<Rightarrow> flush_loop n w False s True
        | Inl s \<Rightarrow> if s AND STATE_WLOCK \<noteq> 0 then wake_by_ref (Some w) (Ret Pending)
            else flush_loop n w False s False)"

lemma flush_pieces:
  "flush_loop (Suc n) w False (word_of b) False =
     (if \<not> loaded_bit b \<and> \<not> rlock_bit b then load_state (\<lambda>prev. Ret (Ready (None, prev AND STATE_ACTIVE = 0)))
      else if rlock_bit b then wake_by_ref (Some w) (Ret Pending) else f_lock n w (word_of b))"
  "loaded_bit b \<Longrightarrow> \<not> rlock_bit b \<Longrightarrow> flush_loop (Suc n) w False (word_of b) True =
     waker_clear_if (wake_bit b) (waker_store w (f_release n w (word_of b)))"
  unfolding flush_loop.simps(2) f_lock_def f_release_def [abs_def] f_again_def
  by (simp_all cong: if_cong)

text \<open>\<open>read\<close> that does not cancel, with \<open>n\<close> more turns\<close>

definition r_finish :: "u8 \<Rightarrow> 'v \<Rightarrow> 'w option \<Rightarrow> ('v, 'w, 'z, ('v option \<times> bool) poll) cprog" where
  "r_finish prev v fw =
     fetch_and
       (NOT (STATE_LOADED OR STATE_RLOCK OR (if prev AND STATE_WLOCK = 0 then STATE_WLOCK OR STATE_WAKE else 0)))
       (\<lambda>prev. wake fw (Ret (Ready (Some v, prev AND STATE_ACTIVE = 0))))"

definition r_take :: "u8 \<Rightarrow> ('v, 'w, 'z, ('v option \<times> bool) poll) cprog" where
  "r_take prev = value_load (\<lambda>v.
     waker_load_if (prev AND (STATE_WLOCK OR STATE_WAKE) = STATE_WAKE) (r_finish prev v))"

definition r_again :: "nat \<Rightarrow> ('v, 'w, 'z, ('v option \<times> bool) poll) cprog" where
  "r_again n =
     fetch_and (NOT (STATE_RLOCK OR STATE_WLOCK OR STATE_WAKE)) (\<lambda>prev.
       read_loop n None False (prev AND NOT (STATE_RLOCK OR STATE_WLOCK OR STATE_WAKE)))"

definition r_look :: "nat \<Rightarrow> ('v, 'w, 'z, ('v option \<times> bool) poll) cprog" where
  "r_look n =
     fetch_and (NOT (STATE_RLOCK OR STATE_WLOCK OR STATE_WAKE)) (\<lambda>p.
       let prev = p AND NOT (STATE_RLOCK OR STATE_WLOCK OR STATE_WAKE) in
       if prev AND (STATE_LOADED OR STATE_ACTIVE) = STATE_ACTIVE then Ret (Ready (None, False))
       else read_loop n None False prev)"

definition r_release :: "nat \<Rightarrow> u8 \<Rightarrow> ('v, 'w, 'z, ('v option \<times> bool) poll) cprog" where
  "r_release n prev =
     compare_exchange (prev OR STATE_RLOCK OR STATE_WLOCK OR STATE_WAKE) (prev OR STATE_WAKE)
       (\<lambda>r. case r of Inr _ \<Rightarrow> Ret Pending | Inl _ \<Rightarrow> waker_clear (r_again n))"

definition r_keep :: "nat \<Rightarrow> 'w option \<Rightarrow> u8 \<Rightarrow> ('v, 'w, 'z, ('v option \<times> bool) poll) cprog" where
  "r_keep n wk prev = (case wk of Some w \<Rightarrow> waker_store w (r_release n prev) | None \<Rightarrow> r_look n)"

definition r_read :: "nat \<Rightarrow> 'w option \<Rightarrow> u8 \<Rightarrow> ('v, 'w, 'z, ('v option \<times> bool) poll) cprog" where
  "r_read n wk prev =
     compare_exchange_weak prev (prev OR STATE_RLOCK OR STATE_WLOCK)
       (\<lambda>r. case r of Inr _ \<Rightarrow> r_take prev | Inl s \<Rightarrow> read_loop n wk False s)"

definition r_lock :: "nat \<Rightarrow> 'w option \<Rightarrow> u8 \<Rightarrow> ('v, 'w, 'z, ('v option \<times> bool) poll) cprog" where
  "r_lock n wk prev =
     compare_exchange_weak prev (prev OR STATE_RLOCK OR STATE_WLOCK OR STATE_WAKE)
       (\<lambda>r. case r of
          Inr _ \<Rightarrow> waker_clear_if (prev AND STATE_WAKE \<noteq> 0) (r_keep n wk prev)
        | Inl s \<Rightarrow> read_loop n wk False s)"

lemma read_pieces:
  "read_loop (Suc n) wk False (word_of b) =
     (if loaded_bit b then r_read n wk (word_of b)
      else if wk \<noteq> None \<or> wake_bit b then
        (if wlock_bit b then wake_by_ref wk (Ret Pending) else r_lock n wk (word_of b))
      else Ret (Ready (None, False)))"
  unfolding read_loop.simps(2) r_read_def r_lock_def r_keep_def [abs_def] r_release_def [abs_def] r_look_def
    r_again_def r_take_def r_finish_def [abs_def]
  by (simp cong: if_cong del: word_of_masks)

subsection \<open>What comes after an operation\<close>

datatype ('v, 'w) send_ctx = SendCtx 'v 'w "'w list" "('v, 'w) tx_op list" "'v list"

datatype ('v, 'w) tx_ctx = TryCtx 'v "('v, 'w) tx_op list" "'v list" | FutCtx "('v, 'w) send_ctx"

datatype ('v, 'w) rx_ctx = RxCtx "'w option" "'w rx_op list" "'v list"

definition in_flight :: "'v flush_fut" where
  "in_flight = \<lparr>fl_channel = Some ChannelPtr, fl_value = None, fl_finalize = False\<rparr>"

lemma in_flight_finalize [simp]: "\<not> fl_finalize in_flight"
  by (simp add: in_flight_def)

primrec poll_cont ::
  "nat \<Rightarrow> ('v, 'w) send_ctx \<Rightarrow> 'v flush_fut \<times> ('v try_send_error + unit) poll \<Rightarrow> ('v, 'w) sthread" where
  "poll_cont n (SendCtx v w ws ops acc) fp =
     bind (case ws of
         [] \<Rightarrow> (\<lambda>(f, p). bind (flush_drop f) (\<lambda>_. Ret (p, w))) fp
       | w' # ws \<Rightarrow> (\<lambda>(f, p). case p of
             Ready r \<Rightarrow> bind (flush_drop f) (\<lambda>_. Ret (Ready r, w))
           | Pending \<Rightarrow> send_polls n ws f w') fp)
       (\<lambda>(p, w). case p of
          Ready r \<Rightarrow> tx_run n ops tx_end (case r of Inr _ \<Rightarrow> acc @ [v] | Inl _ \<Rightarrow> acc) None
        | Pending \<Rightarrow> tx_run n ops tx_end (acc @ [v]) (Some w))"

primrec write_cont :: "nat \<Rightarrow> ('v, 'w) tx_ctx \<Rightarrow> ('v \<times> bool) + unit \<Rightarrow> ('v, 'w) sthread" where
  "write_cont n (TryCtx v ops acc) r =
     bind (case r of
         Inr _ \<Rightarrow> Ret (tx_end, Inr ())
       | Inl (v', dropped) \<Rightarrow>
           if dropped then dealloc (Ret (tx_end\<lparr>se_channel := None\<rparr>, Inl (Disconnected v')))
           else Ret (tx_end, Inl (Full v')))
       (\<lambda>(se, r). tx_run n ops se (case r of Inr _ \<Rightarrow> acc @ [v] | Inl _ \<Rightarrow> acc) None)"
| "write_cont n (FutCtx c) r =
     poll_cont n c (case r of
         Inl (v', dropped) \<Rightarrow> (in_flight, Ready (Inl (send_error v' dropped)))
       | Inr _ \<Rightarrow> (in_flight, Pending))"

definition flush_cont :: "nat \<Rightarrow> ('v, 'w) send_ctx \<Rightarrow> ('v option \<times> bool) poll \<Rightarrow> ('v, 'w) sthread" where
  "flush_cont n c p = poll_cont n c (in_flight, case p of
       Ready (result, dropped) \<Rightarrow> Ready (case result of None \<Rightarrow> Inr () | Some v \<Rightarrow> Inl (Disconnected v))
     | Pending \<Rightarrow> Pending)"

primrec read_cont :: "nat \<Rightarrow> ('v, 'w) rx_ctx \<Rightarrow> ('v option \<times> bool) poll \<Rightarrow> ('v, 'w) sthread" where
  "read_cont n (RxCtx wo ops got) p =
     bind (case p of
         Ready (result, dropped) \<Rightarrow>
           if dropped then dealloc (Ret (rx_end\<lparr>re_channel := None\<rparr>, Ready result))
           else Ret (rx_end, Ready result)
       | Pending \<Rightarrow> Ret (rx_end, Pending))
       (\<lambda>(re, p). rx_run n ops re (got @ item p) (case p of Ready _ \<Rightarrow> None | Pending \<Rightarrow> wo))"

lemma bind_ext: "(\<And>r. f r = g r) \<Longrightarrow> bind p f = bind p g"
  by presburger

lemma tx_run_try: "tx_run n (TrySend v # ops) tx_end acc l = bind (chan_write v None False) (write_cont n (TryCtx v ops acc))"
  by (auto simp: se_try_send_def bind_assoc tx_end_def intro!: bind_ext split: sum.splits)

lemma send_polls_cont:
  "bind (send_polls n ws f w) (\<lambda>(p, w). case p of
      Ready r \<Rightarrow> tx_run n ops tx_end (case r of Inr _ \<Rightarrow> acc @ [v] | Inl _ \<Rightarrow> acc) None
    | Pending \<Rightarrow> tx_run n ops tx_end (acc @ [v]) (Some w)) =
   bind (flush_poll n f w) (poll_cont n (SendCtx v w ws ops acc))"
  by (cases ws) (auto simp: bind_assoc intro!: bind_ext split: poll.splits)

lemma tx_run_send:
  "tx_run n (SendPolls v w ws # ops) tx_end acc l =
     bind (chan_write v (Some w) False) (write_cont n (FutCtx (SendCtx v w ws ops acc)))"
  unfolding tx_run.simps send_polls_cont
  by (auto simp: se_send_def tx_end_def flush_poll_def bind_assoc in_flight_def [symmetric] Let_def intro!: bind_ext
      split: sum.splits)

lemma flush_poll_flight:
  "bind (flush_poll n in_flight w) (poll_cont n c) = bind (chan_flush n w False) (flush_cont n c)"
  by (auto simp: flush_poll_def in_flight_def bind_assoc flush_cont_def intro!: bind_ext split: poll.splits)

lemma rx_run_poll: "rx_run n (PollNext w # ops) rx_end got l = bind (chan_read n (Some w) False) (read_cont n (RxCtx (Some w) ops got))"
  by (auto simp: re_poll_next_def bind_assoc rx_end_def intro!: bind_ext split: poll.splits)

lemma rx_run_try: "rx_run n (TryRecv # ops) rx_end got l = bind (chan_read n None False) (read_cont n (RxCtx None ops got))"
  by (auto simp: re_try_recv_def bind_assoc rx_end_def intro!: bind_ext split: poll.splits)

text \<open>What the continuations are for the results that can come here.\<close>

lemma flight_drop [simp]: "flush_drop in_flight = Ret ()"
  by (simp add: flush_drop_def in_flight_def)

lemma write_cont_try [simp]:
  "write_cont n (TryCtx v ops acc) (Inr u) = tx_run n ops tx_end (acc @ [v]) None"
  "write_cont n (TryCtx v ops acc) (Inl (v', False)) = tx_run n ops tx_end acc None"
  by simp_all

lemma poll_cont_ready [simp]:
  "poll_cont n (SendCtx v w ws ops acc) (in_flight, Ready (Inr u)) = tx_run n ops tx_end (acc @ [v]) None"
  "poll_cont n (SendCtx v w ws ops acc) (in_flight, Ready (Inl e)) = tx_run n ops tx_end acc None"
  by (cases ws; simp)+

lemma poll_cont_pending [simp]:
  "poll_cont n (SendCtx v w [] ops acc) (in_flight, Pending) = tx_run n ops tx_end (acc @ [v]) (Some w)"
  "poll_cont n (SendCtx v w (w' # ws) ops acc) (in_flight, Pending) =
     bind (chan_flush n w' False) (flush_cont n (SendCtx v w' ws ops acc))"
  by (simp_all add: send_polls_cont flush_poll_flight)

declare poll_cont.simps [simp del]

lemma flush_cont_simps [simp]:
  "flush_cont n c Pending = poll_cont n c (in_flight, Pending)"
  "flush_cont n c (Ready (None, d)) = poll_cont n c (in_flight, Ready (Inr ()))"
  by (simp_all add: flush_cont_def)

lemma read_cont_simps [simp]:
  "read_cont n (RxCtx wo ops got) Pending = rx_run n ops rx_end got wo"
  "read_cont n (RxCtx wo ops got) (Ready (Some v, False)) = rx_run n ops rx_end (got @ [v]) None"
  "read_cont n (RxCtx wo ops got) (Ready (None, False)) = rx_run n ops rx_end got None"
  by (simp_all add: item_def)

declare read_cont.simps [simp del]

end
