(* ===== verification/StreamRace.thy ===== *)
theory StreamRace
  imports StreamPlaces
begin

text \<open>
  A \<open>Sender\<close> and a \<open>Receiver\<close> on two threads, with any number of calls each, in any
  interleaving.  Each thread is at a place, and a place says what the thread knows of the
  channel and what it has of it.
\<close>

subsection \<open>Places of the sender\<close>

primrec ctx_w :: "('v, 'w) send_ctx \<Rightarrow> 'w" where "ctx_w (SendCtx v w ws ops acc) = w"
primrec ctx_v :: "('v, 'w) send_ctx \<Rightarrow> 'v" where "ctx_v (SendCtx v w ws ops acc) = v"
primrec ctx_acc :: "('v, 'w) send_ctx \<Rightarrow> 'v list" where "ctx_acc (SendCtx v w ws ops acc) = acc"

primrec tx_w :: "('v, 'w) tx_ctx \<Rightarrow> 'w option" where
  "tx_w (TryCtx v ops acc) = None" | "tx_w (FutCtx c) = Some (ctx_w c)"

primrec tx_v :: "('v, 'w) tx_ctx \<Rightarrow> 'v" where
  "tx_v (TryCtx v ops acc) = v" | "tx_v (FutCtx c) = ctx_v c"

primrec tx_acc :: "('v, 'w) tx_ctx \<Rightarrow> 'v list" where
  "tx_acc (TryCtx v ops acc) = acc" | "tx_acc (FutCtx c) = ctx_acc c"

text \<open>
  In \<open>write\<close> (its argument is the call it belongs to, and before it the state word that was seen
  and the waker of the reader that was taken), and in \<open>flush\<close> (with the turns that are left).
\<close>

datatype ('v, 'w) tx_place =
    TIdle "('v, 'w) tx_op list" "'v list" "'w option"
  | TStore state_bits "('v, 'w) tx_ctx" | TFast state_bits "('v, 'w) tx_ctx" | TSlow "('v, 'w) tx_ctx"
  | TTake state_bits "('v, 'w) tx_ctx" | TUnlock "'w option" "('v, 'w) tx_ctx" | TWake 'w "('v, 'w) tx_ctx"
  | TClone state_bits "'w option" "('v, 'w) send_ctx" | TPut state_bits "'w option" "('v, 'w) send_ctx"
  | TRelease state_bits "'w option" "('v, 'w) send_ctx" | TUnput state_bits "'w option" "('v, 'w) send_ctx"
  | TUndrop 'w state_bits "'w option" "('v, 'w) send_ctx" | TBack state_bits "'w option" "('v, 'w) send_ctx"
  | TSelf "'w option" "('v, 'w) send_ctx" | TDropped 'w "('v, 'w) send_ctx"
  | FStart "('v, 'w) send_ctx" | FSync "('v, 'w) send_ctx" | FSelf "('v, 'w) send_ctx"
  | FLock nat state_bits "('v, 'w) send_ctx" | FTake nat state_bits "('v, 'w) send_ctx"
  | FDrop 'w nat state_bits "('v, 'w) send_ctx" | FClone nat state_bits "('v, 'w) send_ctx"
  | FPut nat state_bits "('v, 'w) send_ctx" | FRelease nat state_bits "('v, 'w) send_ctx"
  | FUnput nat "('v, 'w) send_ctx" | FUndrop 'w nat "('v, 'w) send_ctx" | FAgain nat "('v, 'w) send_ctx"
  | THang bool "'v list"

definition w_stored :: "'w option \<Rightarrow> u8 \<Rightarrow> ('v, 'w, 'z, ('v \<times> bool) + unit) cprog" where
  "w_stored wk st =
     (if wk = None \<and> st AND STATE_WAKE = 0 then
        compare_exchange_weak st ((st OR STATE_LOADED) AND NOT (of_bool False))
          (\<lambda>r. case r of Inr _ \<Rightarrow> Ret (Inr ()) | Inl _ \<Rightarrow> chan_write_slow wk False)
      else chan_write_slow wk False)"

primrec tcode :: "nat \<Rightarrow> ('v, 'w) tx_place \<Rightarrow> ('v, 'w) sthread" where
  "tcode n (TIdle ops acc l) = tx_run n ops tx_end acc l"
| "tcode n (TStore b c) = bind (value_store (tx_v c) (w_stored (tx_w c) (word_of b))) (write_cont n c)"
| "tcode n (TFast b c) = bind (w_stored (tx_w c) (word_of b)) (write_cont n c)"
| "tcode n (TSlow c) = bind (chan_write_slow (tx_w c) False) (write_cont n c)"
| "tcode n (TTake b c) = bind (waker_load (\<lambda>u. w_keep (tx_w c) (word_of b) (Some u))) (write_cont n c)"
| "tcode n (TUnlock rw c) = bind (w_unlock rw) (write_cont n c)"
| "tcode n (TWake u c) = bind (emit (Woken u) (Ret (Inr ()))) (write_cont n c)"
| "tcode n (TClone b rw c) =
     bind (waker_store (ctx_w c) (w_release (ctx_w c) (word_of b) rw)) (write_cont n (FutCtx c))"
| "tcode n (TPut b rw c) =
     bind (waker_put (ctx_w c) (w_release (ctx_w c) (word_of b) rw)) (write_cont n (FutCtx c))"
| "tcode n (TRelease b rw c) = bind (w_release (ctx_w c) (word_of b) rw) (write_cont n (FutCtx c))"
| "tcode n (TUnput s rw c) = bind (waker_clear (w_back (ctx_w c) (word_of s) rw)) (write_cont n (FutCtx c))"
| "tcode n (TUndrop u s rw c) =
     bind (emit (WakerDropped u) (w_back (ctx_w c) (word_of s) rw)) (write_cont n (FutCtx c))"
| "tcode n (TBack s rw c) = bind (w_back (ctx_w c) (word_of s) rw) (write_cont n (FutCtx c))"
| "tcode n (TSelf rw c) = bind (emit (WokenByRef (ctx_w c)) (waker_drop rw (Ret (Inr ())))) (write_cont n (FutCtx c))"
| "tcode n (TDropped u c) = bind (emit (WakerDropped u) (Ret (Inr ()))) (write_cont n (FutCtx c))"
| "tcode n (FStart c) = bind (chan_flush n (ctx_w c) False) (flush_cont n c)"
| "tcode n (FSync c) = bind (load_state (\<lambda>prev. Ret (Ready (None, prev AND STATE_ACTIVE = 0)))) (flush_cont n c)"
| "tcode n (FSelf c) = bind (emit (WokenByRef (ctx_w c)) (Ret Pending)) (flush_cont n c)"
| "tcode n (FLock m b c) = bind (f_lock m (ctx_w c) (word_of b)) (flush_cont n c)"
| "tcode n (FTake m b c) = bind (waker_clear (waker_store (ctx_w c) (f_release m (ctx_w c) (word_of b)))) (flush_cont n c)"
| "tcode n (FDrop u m b c) =
     bind (emit (WakerDropped u) (waker_store (ctx_w c) (f_release m (ctx_w c) (word_of b)))) (flush_cont n c)"
| "tcode n (FClone m b c) = bind (waker_store (ctx_w c) (f_release m (ctx_w c) (word_of b))) (flush_cont n c)"
| "tcode n (FPut m b c) = bind (waker_put (ctx_w c) (f_release m (ctx_w c) (word_of b))) (flush_cont n c)"
| "tcode n (FRelease m b c) = bind (f_release m (ctx_w c) (word_of b)) (flush_cont n c)"
| "tcode n (FUnput m c) = bind (waker_clear (f_again m (ctx_w c))) (flush_cont n c)"
| "tcode n (FUndrop u m c) = bind (emit (WakerDropped u) (f_again m (ctx_w c))) (flush_cont n c)"
| "tcode n (FAgain m c) = bind (f_again m (ctx_w c)) (flush_cont n c)"
| "tcode n (THang h acc) = Hang"

text \<open>Where the sender goes when a call, a poll or a turn of the loop of \<open>flush\<close> is over.\<close>

primrec t_pending :: "('v, 'w) send_ctx \<Rightarrow> ('v, 'w) tx_place" where
  "t_pending (SendCtx v w ws ops acc) =
     (case ws of [] \<Rightarrow> TIdle ops (acc @ [v]) (Some w) | w' # ws \<Rightarrow> FStart (SendCtx v w' ws ops acc))"

primrec t_flushed :: "('v, 'w) send_ctx \<Rightarrow> ('v, 'w) tx_place" where
  "t_flushed (SendCtx v w ws ops acc) = TIdle ops (acc @ [v]) None"

primrec t_sent :: "('v, 'w) tx_ctx \<Rightarrow> ('v, 'w) tx_place" where
  "t_sent (TryCtx v ops acc) = TIdle ops (acc @ [v]) None" | "t_sent (FutCtx c) = t_pending c"

definition t_turn :: "nat \<Rightarrow> state_bits \<Rightarrow> ('v, 'w) send_ctx \<Rightarrow> ('v, 'w) tx_place" where
  "t_turn m b c = (case m of 0 \<Rightarrow> THang False (ctx_acc c @ [ctx_v c])
     | Suc m \<Rightarrow> if \<not> loaded_bit b \<and> \<not> rlock_bit b then FSync c else if rlock_bit b then FSelf c else FLock m b c)"

definition t_locked :: "nat \<Rightarrow> state_bits \<Rightarrow> ('v, 'w) send_ctx \<Rightarrow> ('v, 'w) tx_place" where
  "t_locked m b c = (case m of 0 \<Rightarrow> THang True (ctx_acc c @ [ctx_v c])
     | Suc m \<Rightarrow> if wake_bit b then FTake m b c else FClone m b c)"

lemma t_pending_code: "tcode n (t_pending c) = poll_cont n c (in_flight, Pending)"
  by (cases c) (simp split: list.split)

lemma t_flushed_code: "tcode n (t_flushed c) = poll_cont n c (in_flight, Ready (Inr ()))"
  by (cases c) simp

lemma t_sent_code: "tcode n (t_sent c) = write_cont n c (Inr ())"
  by (cases c) (simp_all add: t_pending_code del: write_cont_try)

lemma t_turn_code: "tcode n (t_turn m b c) = bind (flush_loop m (ctx_w c) False (word_of b) False) (flush_cont n c)"
  by (cases m) (simp_all add: t_turn_def flush_pieces wake_by_ref_def)

lemma t_locked_code:
  "loaded_bit b \<Longrightarrow> \<not> rlock_bit b \<Longrightarrow>
     tcode n (t_locked m b c) = bind (flush_loop m (ctx_w c) False (word_of b) True) (flush_cont n c)"
  by (cases m) (simp_all add: t_locked_def flush_pieces waker_clear_if_def)

subsection \<open>Places of the receiver\<close>

text \<open>The waker that a loop of \<open>read\<close> still has is an argument of its own.\<close>

datatype ('v, 'w) rx_place =
    RIdle "'w rx_op list" "'v list" "'w option"
  | RRead nat "'w option" state_bits "('v, 'w) rx_ctx" | RTake state_bits "('v, 'w) rx_ctx"
  | RTakeW state_bits 'v "('v, 'w) rx_ctx" | RFinish state_bits 'v "'w option" "('v, 'w) rx_ctx"
  | RWake 'w 'v "('v, 'w) rx_ctx" | RSelf 'w "('v, 'w) rx_ctx"
  | RLock nat "'w option" state_bits "('v, 'w) rx_ctx" | RClear nat "'w option" state_bits "('v, 'w) rx_ctx"
  | RDrop 'w nat "'w option" state_bits "('v, 'w) rx_ctx" | RClone nat 'w state_bits "('v, 'w) rx_ctx"
  | RPut nat 'w state_bits "('v, 'w) rx_ctx" | RRelease nat 'w state_bits "('v, 'w) rx_ctx"
  | RUnput nat "('v, 'w) rx_ctx" | RUndrop 'w nat "('v, 'w) rx_ctx" | RAgain nat "('v, 'w) rx_ctx"
  | RLook nat "('v, 'w) rx_ctx"
  | RHang "'v list"

primrec rcode :: "nat \<Rightarrow> ('v, 'w) rx_place \<Rightarrow> ('v, 'w) sthread" where
  "rcode n (RIdle ops got l) = rx_run n ops rx_end got l"
| "rcode n (RRead m wk b c) = bind (r_read m wk (word_of b)) (read_cont n c)"
| "rcode n (RTake b c) = bind (r_take (word_of b)) (read_cont n c)"
| "rcode n (RTakeW b v c) = bind (waker_load (\<lambda>u. r_finish (word_of b) v (Some u))) (read_cont n c)"
| "rcode n (RFinish b v fw c) = bind (r_finish (word_of b) v fw) (read_cont n c)"
| "rcode n (RWake u v c) = bind (emit (Woken u) (Ret (Ready (Some v, False)))) (read_cont n c)"
| "rcode n (RSelf w c) = bind (emit (WokenByRef w) (Ret Pending)) (read_cont n c)"
| "rcode n (RLock m wk b c) = bind (r_lock m wk (word_of b)) (read_cont n c)"
| "rcode n (RClear m wk b c) = bind (waker_clear (r_keep m wk (word_of b))) (read_cont n c)"
| "rcode n (RDrop u m wk b c) = bind (emit (WakerDropped u) (r_keep m wk (word_of b))) (read_cont n c)"
| "rcode n (RClone m w b c) = bind (waker_store w (r_release m (word_of b))) (read_cont n c)"
| "rcode n (RPut m w b c) = bind (waker_put w (r_release m (word_of b))) (read_cont n c)"
| "rcode n (RRelease m w b c) = bind (r_release m (word_of b)) (read_cont n c)"
| "rcode n (RUnput m c) = bind (waker_clear (r_again m)) (read_cont n c)"
| "rcode n (RUndrop u m c) = bind (emit (WakerDropped u) (r_again m)) (read_cont n c)"
| "rcode n (RAgain m c) = bind (r_again m) (read_cont n c)"
| "rcode n (RLook m c) = bind (r_look m) (read_cont n c)"
| "rcode n (RHang got) = Hang"

primrec rx_wo :: "('v, 'w) rx_ctx \<Rightarrow> 'w option" where "rx_wo (RxCtx wo ops got) = wo"
primrec rx_got :: "('v, 'w) rx_ctx \<Rightarrow> 'v list" where "rx_got (RxCtx wo ops got) = got"

primrec r_pending :: "('v, 'w) rx_ctx \<Rightarrow> ('v, 'w) rx_place" where
  "r_pending (RxCtx wo ops got) = RIdle ops got wo"

primrec r_none :: "('v, 'w) rx_ctx \<Rightarrow> ('v, 'w) rx_place" where
  "r_none (RxCtx wo ops got) = RIdle ops got None"

primrec r_some :: "'v \<Rightarrow> ('v, 'w) rx_ctx \<Rightarrow> ('v, 'w) rx_place" where
  "r_some v (RxCtx wo ops got) = RIdle ops (got @ [v]) None"

definition r_turn :: "nat \<Rightarrow> 'w option \<Rightarrow> state_bits \<Rightarrow> ('v, 'w) rx_ctx \<Rightarrow> ('v, 'w) rx_place" where
  "r_turn m wk b c = (case m of 0 \<Rightarrow> RHang (rx_got c)
     | Suc m \<Rightarrow> if loaded_bit b then RRead m wk b c
         else if wk \<noteq> None \<or> wake_bit b then
           (if wlock_bit b then (case wk of None \<Rightarrow> r_pending c | Some w \<Rightarrow> RSelf w c) else RLock m wk b c)
         else r_none c)"

lemma r_done_code:
  "rcode n (r_pending c) = read_cont n c Pending" "rcode n (r_none c) = read_cont n c (Ready (None, False))"
  "rcode n (r_some v c) = read_cont n c (Ready (Some v, False))"
  by (cases c; simp)+

lemma r_turn_code: "rcode n (r_turn m wk b c) = bind (read_loop m wk False (word_of b)) (read_cont n c)"
  by (cases m) (simp_all add: r_turn_def read_pieces wake_by_ref_def r_done_code split: option.split)

subsection \<open>What a place has and knows\<close>

text \<open>
  Of the sender: it has \<open>STATE_WLOCK\<close>; it will store a value, or has stored one that is not
  announced; the values accepted with the one that is being stored; the wakers in its hands; the
  waker it will call if it is the one in the cell or in its hands; the waker with which its last
  poll was left pending; and what it knows of the flags and of the cell of the waker.
\<close>

primrec t_locks :: "('v, 'w) tx_place \<Rightarrow> bool" where
  "t_locks (TIdle ops acc l) = False" | "t_locks (TStore b c) = False" | "t_locks (TFast b c) = False"
| "t_locks (TSlow c) = False" | "t_locks (TTake b c) = True" | "t_locks (TUnlock rw c) = True"
| "t_locks (TWake u c) = False" | "t_locks (TClone b rw c) = True" | "t_locks (TPut b rw c) = True"
| "t_locks (TRelease b rw c) = True" | "t_locks (TUnput s rw c) = True" | "t_locks (TUndrop u s rw c) = True"
| "t_locks (TBack s rw c) = True" | "t_locks (TSelf rw c) = False" | "t_locks (TDropped u c) = False"
| "t_locks (FStart c) = False" | "t_locks (FSync c) = False" | "t_locks (FSelf c) = False"
| "t_locks (FLock m b c) = False" | "t_locks (FTake m b c) = True" | "t_locks (FDrop u m b c) = True"
| "t_locks (FClone m b c) = True" | "t_locks (FPut m b c) = True" | "t_locks (FRelease m b c) = True"
| "t_locks (FUnput m c) = True" | "t_locks (FUndrop u m c) = True" | "t_locks (FAgain m c) = True"
| "t_locks (THang h acc) = h"

fun t_stored :: "('v, 'w) tx_place \<Rightarrow> bool" where
  "t_stored (TFast b c) = True"
| "t_stored (TSlow c) = True"
| "t_stored p = False"

fun t_writes :: "('v, 'w) tx_place \<Rightarrow> bool" where
  "t_writes (TStore b c) = True"
| "t_writes (TFast b c) = True"
| "t_writes (TSlow c) = True"
| "t_writes p = False"

primrec t_accepted :: "('v, 'w) tx_place \<Rightarrow> 'v list" where
  "t_accepted (TIdle ops acc l) = acc" | "t_accepted (TStore b c) = tx_acc c"
| "t_accepted (TFast b c) = tx_acc c @ [tx_v c]" | "t_accepted (TSlow c) = tx_acc c @ [tx_v c]"
| "t_accepted (TTake b c) = tx_acc c @ [tx_v c]" | "t_accepted (TUnlock rw c) = tx_acc c @ [tx_v c]"
| "t_accepted (TWake u c) = tx_acc c @ [tx_v c]" | "t_accepted (TClone b rw c) = ctx_acc c @ [ctx_v c]"
| "t_accepted (TPut b rw c) = ctx_acc c @ [ctx_v c]" | "t_accepted (TRelease b rw c) = ctx_acc c @ [ctx_v c]"
| "t_accepted (TUnput s rw c) = ctx_acc c @ [ctx_v c]" | "t_accepted (TUndrop u s rw c) = ctx_acc c @ [ctx_v c]"
| "t_accepted (TBack s rw c) = ctx_acc c @ [ctx_v c]" | "t_accepted (TSelf rw c) = ctx_acc c @ [ctx_v c]"
| "t_accepted (TDropped u c) = ctx_acc c @ [ctx_v c]" | "t_accepted (FStart c) = ctx_acc c @ [ctx_v c]"
| "t_accepted (FSync c) = ctx_acc c @ [ctx_v c]" | "t_accepted (FSelf c) = ctx_acc c @ [ctx_v c]"
| "t_accepted (FLock m b c) = ctx_acc c @ [ctx_v c]" | "t_accepted (FTake m b c) = ctx_acc c @ [ctx_v c]"
| "t_accepted (FDrop u m b c) = ctx_acc c @ [ctx_v c]" | "t_accepted (FClone m b c) = ctx_acc c @ [ctx_v c]"
| "t_accepted (FPut m b c) = ctx_acc c @ [ctx_v c]" | "t_accepted (FRelease m b c) = ctx_acc c @ [ctx_v c]"
| "t_accepted (FUnput m c) = ctx_acc c @ [ctx_v c]" | "t_accepted (FUndrop u m c) = ctx_acc c @ [ctx_v c]"
| "t_accepted (FAgain m c) = ctx_acc c @ [ctx_v c]" | "t_accepted (THang h acc) = acc"

fun t_holds :: "('v, 'w) tx_place \<Rightarrow> 'w multiset" where
  "t_holds (TUnlock rw c) = stored rw"
| "t_holds (TWake u c) = {#u#}"
| "t_holds (TClone b rw c) = stored rw"
| "t_holds (TPut b rw c) = add_mset (ctx_w c) (stored rw)"
| "t_holds (TRelease b rw c) = stored rw"
| "t_holds (TUnput s rw c) = stored rw"
| "t_holds (TUndrop u s rw c) = add_mset u (stored rw)"
| "t_holds (TBack s rw c) = stored rw"
| "t_holds (TSelf rw c) = stored rw"
| "t_holds (TDropped u c) = {#u#}"
| "t_holds (FDrop u m b c) = {#u#}"
| "t_holds (FPut m b c) = {#ctx_w c#}"
| "t_holds (FUndrop u m c) = {#u#}"
| "t_holds p = {#}"

fun t_will_wake :: "('v, 'w) tx_place \<Rightarrow> 'w option \<Rightarrow> 'w \<Rightarrow> bool" where
  "t_will_wake (TTake b c) y w = (y = Some w)"
| "t_will_wake (TUnlock rw c) y w = (rw = Some w)"
| "t_will_wake (TWake u c) y w = (u = w)"
| "t_will_wake (TClone b rw c) y w = (rw = Some w)"
| "t_will_wake (TPut b rw c) y w = (rw = Some w)"
| "t_will_wake (TRelease b rw c) y w = (rw = Some w)"
| "t_will_wake p y w = False"

primrec tx_pends :: "('v, 'w) tx_ctx \<Rightarrow> 'w option" where
  "tx_pends (TryCtx v ops acc) = None" | "tx_pends (FutCtx c) = Some (ctx_w c)"

fun t_pends :: "('v, 'w) tx_place \<Rightarrow> 'w option" where
  "t_pends (TIdle ops acc l) = l"
| "t_pends (TWake u c) = tx_pends c"
| "t_pends (TDropped u c) = Some (ctx_w c)"
| "t_pends p = None"

primrec t_knows :: "('v, 'w) tx_place \<Rightarrow> 'w option \<Rightarrow> bool" where
  "t_knows (TIdle ops acc l) y = True"
| "t_knows (TStore b c) y = (\<not> loaded_bit b)"
| "t_knows (TFast b c) y = (\<not> loaded_bit b \<and> \<not> wake_bit b \<and> tx_w c = None)"
| "t_knows (TSlow c) y = True"
| "t_knows (TTake b c) y = (y \<noteq> None \<and> \<not> wlock_bit b \<and> \<not> rlock_bit b)"
| "t_knows (TUnlock rw c) y = (y = None \<and> tx_w c = None)"
| "t_knows (TWake u c) y = True"
| "t_knows (TClone b rw c) y = (y = None \<and> \<not> wlock_bit b \<and> \<not> rlock_bit b)"
| "t_knows (TPut b rw c) y = (y = None \<and> \<not> wlock_bit b \<and> \<not> rlock_bit b)"
| "t_knows (TRelease b rw c) y = (y = Some (ctx_w c) \<and> \<not> wlock_bit b \<and> \<not> rlock_bit b)"
| "t_knows (TUnput s rw c) y = (y \<noteq> None \<and> (\<not> loaded_bit s \<or> rlock_bit s))"
| "t_knows (TUndrop u s rw c) y = (y = None \<and> (\<not> loaded_bit s \<or> rlock_bit s))"
| "t_knows (TBack s rw c) y = (y = None \<and> (\<not> loaded_bit s \<or> rlock_bit s))"
| "t_knows (TSelf rw c) y = True" | "t_knows (TDropped u c) y = True" | "t_knows (FStart c) y = True"
| "t_knows (FSync c) y = True" | "t_knows (FSelf c) y = True"
| "t_knows (FLock m b c) y = (loaded_bit b \<and> \<not> rlock_bit b)"
| "t_knows (FTake m b c) y = (y \<noteq> None \<and> loaded_bit b \<and> \<not> rlock_bit b \<and> \<not> wlock_bit b)"
| "t_knows (FDrop u m b c) y = (y = None \<and> loaded_bit b \<and> \<not> rlock_bit b \<and> \<not> wlock_bit b)"
| "t_knows (FClone m b c) y = (y = None \<and> loaded_bit b \<and> \<not> rlock_bit b \<and> \<not> wlock_bit b)"
| "t_knows (FPut m b c) y = (y = None \<and> loaded_bit b \<and> \<not> rlock_bit b \<and> \<not> wlock_bit b)"
| "t_knows (FRelease m b c) y = (y = Some (ctx_w c) \<and> loaded_bit b \<and> \<not> rlock_bit b \<and> \<not> wlock_bit b)"
| "t_knows (FUnput m c) y = (y \<noteq> None)" | "t_knows (FUndrop u m c) y = (y = None)"
| "t_knows (FAgain m c) y = (y = None)" | "t_knows (THang h acc) y = True"

text \<open>
  Of the receiver: it has \<open>STATE_RLOCK\<close>, and reads; it has \<open>STATE_WLOCK\<close>; the value is in its
  hands; and the same as for the sender.
\<close>

fun r_reads :: "('v, 'w) rx_place \<Rightarrow> bool" where
  "r_reads (RTake b c) = True"
| "r_reads (RTakeW b v c) = True"
| "r_reads (RFinish b v fw c) = True"
| "r_reads r = False"

fun r_stores :: "('v, 'w) rx_place \<Rightarrow> bool" where
  "r_stores (RClear m wk b c) = True"
| "r_stores (RDrop u m wk b c) = True"
| "r_stores (RClone m w b c) = True"
| "r_stores (RPut m w b c) = True"
| "r_stores (RRelease m w b c) = True"
| "r_stores (RUnput m c) = True"
| "r_stores (RUndrop u m c) = True"
| "r_stores (RAgain m c) = True"
| "r_stores (RLook m c) = True"
| "r_stores r = False"

fun r_owns :: "('v, 'w) rx_place \<Rightarrow> bool" where
  "r_owns (RTake b c) = (\<not> wlock_bit b)"
| "r_owns (RTakeW b v c) = (\<not> wlock_bit b)"
| "r_owns (RFinish b v fw c) = (\<not> wlock_bit b)"
| "r_owns r = r_stores r"

fun r_took :: "('v, 'w) rx_place \<Rightarrow> bool" where
  "r_took (RTakeW b v c) = True"
| "r_took (RFinish b v fw c) = True"
| "r_took r = False"

fun r_insists :: "('v, 'w) rx_place \<Rightarrow> bool" where
  "r_insists (RRead m wk b c) = (wk = None \<and> rx_wo c \<noteq> None)"
| "r_insists (RUnput m c) = True"
| "r_insists (RUndrop u m c) = True"
| "r_insists (RAgain m c) = True"
| "r_insists r = False"

primrec r_received :: "('v, 'w) rx_place \<Rightarrow> 'v list" where
  "r_received (RIdle ops got l) = got" | "r_received (RRead m wk b c) = rx_got c"
| "r_received (RTake b c) = rx_got c" | "r_received (RTakeW b v c) = rx_got c @ [v]"
| "r_received (RFinish b v fw c) = rx_got c @ [v]" | "r_received (RWake u v c) = rx_got c @ [v]"
| "r_received (RSelf w c) = rx_got c" | "r_received (RLock m wk b c) = rx_got c"
| "r_received (RClear m wk b c) = rx_got c" | "r_received (RDrop u m wk b c) = rx_got c"
| "r_received (RClone m w b c) = rx_got c" | "r_received (RPut m w b c) = rx_got c"
| "r_received (RRelease m w b c) = rx_got c" | "r_received (RUnput m c) = rx_got c"
| "r_received (RUndrop u m c) = rx_got c" | "r_received (RAgain m c) = rx_got c"
| "r_received (RLook m c) = rx_got c" | "r_received (RHang got) = got"

fun r_holds :: "('v, 'w) rx_place \<Rightarrow> 'w multiset" where
  "r_holds (RFinish b v fw c) = stored fw"
| "r_holds (RWake u v c) = {#u#}"
| "r_holds (RDrop u m wk b c) = {#u#}"
| "r_holds (RPut m w b c) = {#w#}"
| "r_holds (RUndrop u m c) = {#u#}"
| "r_holds r = {#}"

fun r_will_wake :: "('v, 'w) rx_place \<Rightarrow> 'w \<Rightarrow> bool" where
  "r_will_wake (RFinish b v fw c) w = (fw = Some w)"
| "r_will_wake (RWake u v c) w = (u = w)"
| "r_will_wake r w = False"

fun r_pends :: "('v, 'w) rx_place \<Rightarrow> 'w option" where
  "r_pends (RIdle ops got l) = l"
| "r_pends r = None"

primrec r_knows :: "('v, 'w) rx_place \<Rightarrow> 'w option \<Rightarrow> bool" where
  "r_knows (RIdle ops got l) y = True"
| "r_knows (RRead m wk b c) y = (loaded_bit b \<and> (wk = None \<or> wk = rx_wo c))"
| "r_knows (RTake b c) y = (loaded_bit b \<and> (\<not> wlock_bit b \<longrightarrow> (y \<noteq> None \<longleftrightarrow> wake_bit b)))"
| "r_knows (RTakeW b v c) y = (loaded_bit b \<and> \<not> wlock_bit b \<and> wake_bit b \<and> y \<noteq> None)"
| "r_knows (RFinish b v fw c) y = (loaded_bit b \<and> (\<not> wlock_bit b \<longrightarrow> y = None))"
| "r_knows (RWake u v c) y = True"
| "r_knows (RSelf w c) y = (rx_wo c = Some w)"
| "r_knows (RLock m wk b c) y = (\<not> loaded_bit b \<and> \<not> wlock_bit b \<and> wk = rx_wo c \<and> (wk = None \<longrightarrow> wake_bit b))"
| "r_knows (RClear m wk b c) y = (\<not> loaded_bit b \<and> \<not> wlock_bit b \<and> \<not> rlock_bit b \<and> wk = rx_wo c \<and> y \<noteq> None)"
| "r_knows (RDrop u m wk b c) y = (\<not> loaded_bit b \<and> \<not> wlock_bit b \<and> \<not> rlock_bit b \<and> wk = rx_wo c \<and> y = None)"
| "r_knows (RClone m w b c) y = (\<not> loaded_bit b \<and> \<not> wlock_bit b \<and> \<not> rlock_bit b \<and> rx_wo c = Some w \<and> y = None)"
| "r_knows (RPut m w b c) y = (\<not> loaded_bit b \<and> \<not> wlock_bit b \<and> \<not> rlock_bit b \<and> rx_wo c = Some w \<and> y = None)"
| "r_knows (RRelease m w b c) y = (\<not> loaded_bit b \<and> \<not> wlock_bit b \<and> \<not> rlock_bit b \<and> rx_wo c = Some w \<and> y = Some w)"
| "r_knows (RUnput m c) y = (y \<noteq> None)" | "r_knows (RUndrop u m c) y = (y = None)"
| "r_knows (RAgain m c) y = (y = None)" | "r_knows (RLook m c) y = (y = None \<and> rx_wo c = None)"
| "r_knows (RHang got) y = True"

subsection \<open>How the two agree\<close>

definition locks_agree :: "state_bits \<Rightarrow> ('v, 'w) tx_place \<Rightarrow> ('v, 'w) rx_place \<Rightarrow> bool" where
  "locks_agree b p r =
     ((wlock_bit b \<longleftrightarrow> t_locks p \<or> r_owns r) \<and> \<not> (t_locks p \<and> r_owns r) \<and>
      (rlock_bit b \<longleftrightarrow> r_reads r \<or> r_stores r) \<and> (t_locks p \<or> r_stores r \<longrightarrow> wake_bit b))"

definition values_agree :: "state_bits \<Rightarrow> 'v option \<Rightarrow> ('v, 'w) tx_place \<Rightarrow> ('v, 'w) rx_place \<Rightarrow> bool" where
  "values_agree b x p r =
     ((t_writes p \<longrightarrow> \<not> loaded_bit b) \<and> (r_reads r \<or> r_insists r \<longrightarrow> loaded_bit b) \<and>
      (x \<noteq> None \<longleftrightarrow> t_stored p \<or> loaded_bit b \<and> \<not> r_took r) \<and>
      t_accepted p = r_received r @ list_of x)"

definition wakers_agree ::
  "state_bits \<Rightarrow> 'w option \<Rightarrow> ('v, 'w) event list \<Rightarrow> ('v, 'w) tx_place \<Rightarrow> ('v, 'w) rx_place \<Rightarrow> bool" where
  "wakers_agree b y es p r =
     (t_knows p y \<and> r_knows r y \<and>
      (\<not> t_locks p \<and> \<not> r_owns r \<longrightarrow> (wake_bit b \<longleftrightarrow> y \<noteq> None)) \<and>
      (r_reads r \<and> \<not> r_owns r \<and> \<not> t_locks p \<longrightarrow> y = None) \<and>
      total waker_made es = total waker_ended es + stored y + t_holds p + r_holds r)"

text \<open>A call that was left pending: its waker has been called, or is where it will be called.\<close>

definition receiver_woken ::
  "state_bits \<Rightarrow> 'w option \<Rightarrow> ('v, 'w) event list \<Rightarrow> ('v, 'w) tx_place \<Rightarrow> ('v, 'w) rx_place \<Rightarrow> bool" where
  "receiver_woken b y es p r =
     (\<forall>w. r_pends r = Some w \<longrightarrow> w \<in> set (wakes es) \<or>
        (if t_locks p then loaded_bit b \<and> t_will_wake p y w
         else \<not> loaded_bit b \<and> y = Some w \<or> t_will_wake p y w))"

definition sender_woken ::
  "state_bits \<Rightarrow> 'w option \<Rightarrow> ('v, 'w) event list \<Rightarrow> ('v, 'w) tx_place \<Rightarrow> ('v, 'w) rx_place \<Rightarrow> bool" where
  "sender_woken b y es p r =
     (\<forall>w. t_pends p = Some w \<longrightarrow> w \<in> set (wakes es) \<or> r_will_wake r w \<or>
        loaded_bit b \<and> y = Some w \<and> (rlock_bit b \<longrightarrow> r_reads r \<and> r_owns r))"

definition agree ::
  "state_bits \<Rightarrow> 'v option \<Rightarrow> 'w option \<Rightarrow> ('v, 'w) event list \<Rightarrow> ('v, 'w) tx_place \<Rightarrow> ('v, 'w) rx_place \<Rightarrow> bool" where
  "agree b x y es p r = (locks_agree b p r \<and> values_agree b x p r \<and> wakers_agree b y es p r \<and>
     receiver_woken b y es p r \<and> sender_woken b y es p r)"

lemmas agree_defs = agree_def locks_agree_def values_agree_def wakers_agree_def receiver_woken_def sender_woken_def

text \<open>The receiver reads, stores its waker, or does neither.\<close>

lemma r_kinds [case_names reads stores out]:
  assumes "r_reads r \<Longrightarrow> \<not> r_stores r \<Longrightarrow> \<not> r_insists r \<Longrightarrow> r_pends r = None \<Longrightarrow> P"
    and "r_stores r \<Longrightarrow> r_owns r \<Longrightarrow> \<not> r_reads r \<Longrightarrow> \<not> r_took r \<Longrightarrow> r_pends r = None \<Longrightarrow> (\<And>w. \<not> r_will_wake r w) \<Longrightarrow> P"
    and "\<not> r_stores r \<Longrightarrow> \<not> r_owns r \<Longrightarrow> \<not> r_reads r \<Longrightarrow> \<not> r_took r \<Longrightarrow> P"
  shows P
  using assms by (cases r) simp_all

lemma r_knows_other [simp]: "\<not> r_owns r \<Longrightarrow> r_knows r (Some u) = r_knows r None"
  by (cases r) auto

lemma t_knows_other [simp]:
  "\<not> t_locks p \<Longrightarrow> t_knows p (Some u) = t_knows p None"
  "\<not> t_locks p \<Longrightarrow> t_will_wake p (Some u) w = t_will_wake p None w"
  by (cases p; auto)+

subsection \<open>A step of the sender\<close>

text \<open>What the sender knows of the channel at the place where it is.\<close>

lemma t_done_summary [simp]:
  "\<not> t_locks (t_pending c)" "\<not> t_stored (t_pending c)" "\<not> t_writes (t_pending c)"
  "t_accepted (t_pending c) = ctx_acc c @ [ctx_v c]" "t_holds (t_pending c) = {#}"
  "\<not> t_will_wake (t_pending c) y w" "t_knows (t_pending c) y"
  by (cases c; auto split: list.splits)+

lemma t_pending_pends: "t_pends (t_pending c) = Some u \<Longrightarrow> ctx_w c = u"
  by (cases c) (auto split: list.splits)

lemma t_sent_summary [simp]:
  "\<not> t_locks (t_sent c)" "\<not> t_stored (t_sent c)" "\<not> t_writes (t_sent c)"
  "t_accepted (t_sent c) = tx_acc c @ [tx_v c]" "t_holds (t_sent c) = {#}"
  "\<not> t_will_wake (t_sent c) y w" "t_knows (t_sent c) y"
  by (cases c; simp)+

lemma t_sent_pends: "t_pends (t_sent c) = Some u \<Longrightarrow> tx_pends c = Some u"
  by (cases c) (auto dest: t_pending_pends)

lemma t_flushed_summary [simp]:
  "\<not> t_locks (t_flushed c)" "\<not> t_stored (t_flushed c)" "\<not> t_writes (t_flushed c)"
  "t_accepted (t_flushed c) = ctx_acc c @ [ctx_v c]" "t_holds (t_flushed c) = {#}"
  "\<not> t_will_wake (t_flushed c) y w" "t_knows (t_flushed c) y" "t_pends (t_flushed c) = None"
  by (cases c; simp)+

lemma t_turn_summary [simp]:
  "\<not> t_locks (t_turn m b c)" "\<not> t_stored (t_turn m b c)" "\<not> t_writes (t_turn m b c)"
  "t_accepted (t_turn m b c) = ctx_acc c @ [ctx_v c]" "t_holds (t_turn m b c) = {#}"
  "\<not> t_will_wake (t_turn m b c) y w" "t_knows (t_turn m b c) y" "t_pends (t_turn m b c) = None"
  by (cases m; auto simp: t_turn_def)+

lemma t_locked_summary [simp]:
  "t_locks (t_locked m b c)" "\<not> t_stored (t_locked m b c)" "\<not> t_writes (t_locked m b c)"
  "t_accepted (t_locked m b c) = ctx_acc c @ [ctx_v c]" "t_holds (t_locked m b c) = {#}"
  "\<not> t_will_wake (t_locked m b c) y w" "t_pends (t_locked m b c) = None"
  by (cases m; auto simp: t_locked_def)+

lemma t_locked_knows:
  "loaded_bit b \<Longrightarrow> \<not> rlock_bit b \<Longrightarrow> \<not> wlock_bit b \<Longrightarrow> (wake_bit b \<longleftrightarrow> y \<noteq> None) \<Longrightarrow> t_knows (t_locked m b c) y"
  by (cases m) (auto simp: t_locked_def)

lemmas t_codes = t_pending_code t_flushed_code t_sent_code t_turn_code t_locked_code

declare t_pending.simps [simp del] t_flushed.simps [simp del]

definition tx_goes ::
  "nat \<Rightarrow> ('v, 'w) sthread \<Rightarrow> ('v, 'w) chan \<Rightarrow> ('v, 'w) rx_place \<Rightarrow> bool" where
  "tx_goes n q s r = (\<exists>p b x y. q = tcode n p \<and> view s b x y \<and> agree b x y (log s) p r)"

lemma tx_goesI:
  "q = tcode n p \<Longrightarrow> steps_to s s' b x y es \<Longrightarrow> agree b x y (log s @ es) p r \<Longrightarrow> tx_goes n q s' r"
  unfolding tx_goes_def steps_to_def by metis

text \<open>A step after which the cells and the flags are what they were.\<close>

lemma keep_flags [simp]: "Bits (loaded_bit b) (wlock_bit b) (rlock_bit b) (wake_bit b) = b"
  by (cases b) simp

end
