(* ===== verification/StreamSound.thy ===== *)
theory StreamSound
  imports StreamRace
begin

text \<open>
  Every step of the sender and every step of the receiver keeps what the two threads agree on; so
  it holds in every interleaving of their calls, and with it what a user of the channel sees.
\<close>

subsection \<open>What a place gives its own thread\<close>

lemma agree_value:
  assumes "agree b x y es p r"
  shows "t_writes p \<Longrightarrow> \<not> t_stored p \<Longrightarrow> x = None"
  using assms by (auto simp: agree_defs)

lemma agree_held:
  assumes "agree b x y es p r" and "t_locks p"
  shows "wlock_bit b" "wake_bit b" "\<not> r_owns r" "\<not> r_stores r"
  using assms by - (cases r rule: r_kinds; simp add: agree_defs)+

lemma agree_knows: "agree b x y es p r \<Longrightarrow> t_knows p y"
  by (simp add: agree_defs)

named_theorems tx_steps

lemma tx_TStore [tx_steps]:
  assumes a: "agree b x y (log s) (TStore b0 c) r" and v: "view s b x y"
    and t: "tstep (tcode n (TStore b0 c)) s q s'"
  shows "tx_goes n q s' r"
proof -
  have x: "x = None" using agree_value [OF a] by simp
  from step_value_store [OF t [unfolded tcode.simps] v [unfolded x]]
  have st: "q = bind (w_stored (tx_w c) (word_of b0)) (write_cont n c)" "steps_to s s' b (Some (tx_v c)) y []" by simp_all
  from a show ?thesis
    by - (cases r rule: r_kinds;
        rule tx_goesI [of _ _ "if tx_w c = None \<and> \<not> wake_bit b0 then TFast b0 c else TSlow c", OF _ st(2)];
        auto simp: st(1) w_stored_def agree_defs x)
qed

lemma tx_TFast [tx_steps]:
  assumes a: "agree b x y (log s) (TFast b0 c) r" and v: "view s b x y"
    and t: "tstep (tcode n (TFast b0 c)) s q s'"
  shows "tx_goes n q s' r"
proof -
  let ?b = "Bits True (wlock_bit b0) (rlock_bit b0) (wake_bit b0)"
  from a have k: "\<not> loaded_bit b0" "\<not> wake_bit b0" "tx_w c = None" by (simp_all add: agree_defs)
  then obtain v ops acc where c: "c = TryCtx v ops acc" by (cases c) auto
  from t k have "tstep (bind (compare_exchange_weak (word_of b0) (word_of ?b)
      (\<lambda>r. case r of Inr _ \<Rightarrow> Ret (Inr ()) | Inl _ \<Rightarrow> chan_write_slow None False)) (write_cont n c)) s q s'"
    by (simp add: w_stored_def)
  from step_exchange_weak [OF this v] show ?thesis
  proof (elim disjE conjE)
    assume st: "b = b0" "q = bind (case Inr (word_of b) of Inr _ \<Rightarrow> Ret (Inr ()) | Inl _ \<Rightarrow> chan_write_slow None False)
        (write_cont n c)" "steps_to s s' ?b x y []"
    from a k st show ?thesis
      by - (cases r rule: r_kinds;
          rule tx_goesI [of _ _ "t_sent c", OF _ st(3)]; auto simp: t_sent_code agree_defs c)
  next
    assume st: "q = bind (case Inl (word_of b) of Inr _ \<Rightarrow> Ret (Inr ()) | Inl _ \<Rightarrow> chan_write_slow None False)
        (write_cont n c)" "steps_to s s' b x y []"
    from a k st show ?thesis
      by - (cases r rule: r_kinds; rule tx_goesI [of _ _ "TSlow c", OF _ st(2)]; auto simp: agree_defs)
  qed
qed

lemma tx_TSlow [tx_steps]:
  assumes a: "agree b x y (log s) (TSlow c) r" and v: "view s b x y" and t: "tstep (tcode n (TSlow c)) s q s'"
  shows "tx_goes n q s' r"
proof -
  let ?b = "Bits True True (rlock_bit b) True"
  from step_or [OF t [unfolded tcode.simps write_slow_pieces] v, of ?b]
  have st: "q = bind (if \<not> wlock_bit b then waker_load_if (wake_bit b) (w_keep (tx_w c) (word_of b))
      else wake_by_ref (tx_w c) (Ret (Inr ()))) (write_cont n c)" "steps_to s s' ?b x y []" by simp_all
  from a have l: "\<not> loaded_bit b" "\<not> r_reads r" by (auto simp: agree_defs)
  show ?thesis
  proof (cases "wlock_bit b")
    case True
    with a l show ?thesis
      by - (cases r rule: r_kinds;
          rule tx_goesI [of _ _ "case c of TryCtx v ops acc \<Rightarrow> t_sent c | FutCtx c \<Rightarrow> TSelf None c", OF _ st(2)];
          auto simp: st(1) t_sent_code wake_by_ref_def waker_drop_def agree_defs split: tx_ctx.splits)
  next
    case False
    with a l show ?thesis
      by - (cases r rule: r_kinds;
          rule tx_goesI [of _ _ "if wake_bit b then TTake b c else (case c of TryCtx v ops acc \<Rightarrow> TUnlock None c | FutCtx c \<Rightarrow> TClone b None c)", OF _ st(2)];
          auto simp: st(1) waker_load_if_def w_keep_def agree_defs split: tx_ctx.splits)
  qed
qed

lemma tx_TWake [tx_steps]:
  assumes a: "agree b x y (log s) (TWake u c) r" and v: "view s b x y"
    and t: "tstep (tcode n (TWake u c)) s q s'"
  shows "tx_goes n q s' r"
proof -
  from step_emit [OF t [unfolded tcode.simps] v]
  have st: "q = write_cont n c (Inr ())" "steps_to s s' b x y [Woken u]" by simp_all
  from a show ?thesis
    by - (cases r rule: r_kinds;
        rule tx_goesI [of _ _ "t_sent c", OF _ st(2)];
        auto simp: st(1) t_sent_code agree_defs simp del: write_cont_try dest: t_sent_pends)
qed

lemma tx_TSelf [tx_steps]:
  assumes a: "agree b x y (log s) (TSelf rw c) r" and v: "view s b x y"
    and t: "tstep (tcode n (TSelf rw c)) s q s'"
  shows "tx_goes n q s' r"
proof -
  from step_emit [OF t [unfolded tcode.simps] v]
  have st: "q = bind (waker_drop rw (Ret (Inr ()))) (write_cont n (FutCtx c))"
    "steps_to s s' b x y [WokenByRef (ctx_w c)]" by simp_all
  from a show ?thesis
    by - (cases r rule: r_kinds;
        rule tx_goesI [of _ _ "case rw of None \<Rightarrow> t_pending c | Some u \<Rightarrow> TDropped u c", OF _ st(2)];
        auto simp: st(1) t_pending_code waker_drop_def agree_defs dest: t_pending_pends split: option.splits)
qed

lemma tx_TDropped [tx_steps]:
  assumes a: "agree b x y (log s) (TDropped u c) r" and v: "view s b x y"
    and t: "tstep (tcode n (TDropped u c)) s q s'"
  shows "tx_goes n q s' r"
proof -
  from step_emit [OF t [unfolded tcode.simps] v]
  have st: "q = write_cont n (FutCtx c) (Inr ())" "steps_to s s' b x y [WakerDropped u]" by simp_all
  from a show ?thesis
    by - (cases r rule: r_kinds;
        rule tx_goesI [of _ _ "t_pending c", OF _ st(2)];
        auto simp: st(1) t_pending_code agree_defs dest: t_pending_pends)
qed

lemma tx_TTake [tx_steps]:
  assumes a: "agree b x y (log s) (TTake b0 c) r" and v: "view s b x y"
    and t: "tstep (tcode n (TTake b0 c)) s q s'"
  shows "tx_goes n q s' r"
proof -
  from agree_knows [OF a] obtain u where y: "y = Some u" by auto
  from step_waker_load [OF t [unfolded tcode.simps] v [unfolded y]]
  have st: "q = bind (w_keep (tx_w c) (word_of b0) (Some u)) (write_cont n c)" "steps_to s s' b x None []" by simp_all
  from a agree_held [OF a] show ?thesis
    by - (cases r rule: r_kinds;
        rule tx_goesI [of _ _ "case c of TryCtx v ops acc \<Rightarrow> TUnlock (Some u) c | FutCtx c \<Rightarrow> TClone b0 (Some u) c", OF _ st(2)];
        auto simp: st(1) w_keep_def y agree_defs split: tx_ctx.splits)
qed

lemma tx_TUnlock [tx_steps]:
  assumes a: "agree b x y (log s) (TUnlock rw c) r" and v: "view s b x y"
    and t: "tstep (tcode n (TUnlock rw c)) s q s'"
  shows "tx_goes n q s' r"
proof -
  from agree_knows [OF a] obtain u ops acc where y: "y = None" and c: "c = TryCtx u ops acc" by (cases c) auto
  let ?b = "Bits (loaded_bit b) False (rlock_bit b) False"
  from step_and [OF t [unfolded tcode.simps w_unlock_def] v, of ?b]
  have st: "q = bind (wake rw (Ret (Inr ()))) (write_cont n c)" "steps_to s s' ?b x y []" by simp_all
  from a agree_held [OF a] show ?thesis
    by - (cases r rule: r_kinds;
        rule tx_goesI [of _ _ "case rw of None \<Rightarrow> t_sent c | Some u \<Rightarrow> TWake u c", OF _ st(2)];
        auto simp: st(1) c wake_def y agree_defs split: option.splits)
qed

lemma tx_TClone [tx_steps]:
  assumes a: "agree b x y (log s) (TClone b0 rw c) r" and v: "view s b x y"
    and t: "tstep (tcode n (TClone b0 rw c)) s q s'"
  shows "tx_goes n q s' r"
proof -
  from step_emit [OF t [unfolded tcode.simps waker_store_two] v]
  have st: "q = tcode n (TPut b0 rw c)" "steps_to s s' b x y [WakerCloned (ctx_w c)]" by simp_all
  from a show ?thesis by - (cases r rule: r_kinds; rule tx_goesI [OF st]; auto simp: agree_defs)
qed

lemma tx_TPut [tx_steps]:
  assumes a: "agree b x y (log s) (TPut b0 rw c) r" and v: "view s b x y"
    and t: "tstep (tcode n (TPut b0 rw c)) s q s'"
  shows "tx_goes n q s' r"
proof -
  from agree_knows [OF a] have y: "y = None" by simp
  from step_waker_put [OF t [unfolded tcode.simps] v [unfolded y]]
  have st: "q = tcode n (TRelease b0 rw c)" "steps_to s s' b x (Some (ctx_w c)) []" by simp_all
  from a agree_held [OF a] show ?thesis
    by - (cases r rule: r_kinds; rule tx_goesI [OF st]; auto simp: y agree_defs)
qed

lemma tx_TRelease [tx_steps]:
  assumes a: "agree b x y (log s) (TRelease b0 rw c) r" and v: "view s b x y"
    and t: "tstep (tcode n (TRelease b0 rw c)) s q s'"
  shows "tx_goes n q s' r"
proof -
  let ?b = "Bits True True (rlock_bit b0) True" and ?b' = "Bits True (wlock_bit b0) (rlock_bit b0) True"
  from agree_knows [OF a] have k: "y = Some (ctx_w c)" "\<not> wlock_bit b0" "\<not> rlock_bit b0" by simp_all
  from t have "tstep (bind (compare_exchange (word_of ?b) (word_of ?b') (\<lambda>r. case r of
      Inl s \<Rightarrow> waker_clear (w_back (ctx_w c) s rw) | Inr _ \<Rightarrow> wake rw (Ret (Inr ())))) (write_cont n (FutCtx c))) s q s'"
    by (simp add: w_release_def)
  from step_exchange [OF this v] show ?thesis
  proof (elim disjE conjE)
    assume st: "b = ?b" "steps_to s s' ?b' x y []"
      "q = bind (case Inr (word_of b) of Inl s \<Rightarrow> waker_clear (w_back (ctx_w c) s rw) | Inr _ \<Rightarrow> wake rw (Ret (Inr ())))
        (write_cont n (FutCtx c))"
    from a k agree_held [OF a] st(1) show ?thesis
      by - (cases r rule: r_kinds;
          rule tx_goesI [of _ _ "case rw of None \<Rightarrow> t_pending c | Some u \<Rightarrow> TWake u (FutCtx c)", OF _ st(2)];
          auto simp: st(3) t_pending_code wake_def agree_defs dest: t_pending_pends split: option.splits)
  next
    assume st: "b \<noteq> ?b" "steps_to s s' b x y []"
      "q = bind (case Inl (word_of b) of Inl s \<Rightarrow> waker_clear (w_back (ctx_w c) s rw) | Inr _ \<Rightarrow> wake rw (Ret (Inr ())))
        (write_cont n (FutCtx c))"
    from st(1) k agree_held [OF a] have "\<not> loaded_bit b \<or> rlock_bit b" by (cases b) auto
    with a k agree_held [OF a] show ?thesis
      by - (cases r rule: r_kinds;
          rule tx_goesI [of _ _ "TUnput b rw c", OF _ st(2)]; auto simp: st(3) agree_defs)
  qed
qed

lemma tx_TUnput [tx_steps]:
  assumes a: "agree b x y (log s) (TUnput b0 rw c) r" and v: "view s b x y"
    and t: "tstep (tcode n (TUnput b0 rw c)) s q s'"
  shows "tx_goes n q s' r"
proof -
  from agree_knows [OF a] obtain u where y: "y = Some u" by auto
  from step_waker_clear [OF t [unfolded tcode.simps] v [unfolded y]]
  have st: "q = tcode n (TUndrop u b0 rw c)" "steps_to s s' b x None []" by simp_all
  from a agree_held [OF a] show ?thesis
    by - (cases r rule: r_kinds; rule tx_goesI [OF st]; auto simp: y agree_defs)
qed

lemma tx_TUndrop [tx_steps]:
  assumes a: "agree b x y (log s) (TUndrop u b0 rw c) r" and v: "view s b x y"
    and t: "tstep (tcode n (TUndrop u b0 rw c)) s q s'"
  shows "tx_goes n q s' r"
proof -
  from step_emit [OF t [unfolded tcode.simps] v]
  have st: "q = tcode n (TBack b0 rw c)" "steps_to s s' b x y [WakerDropped u]" by simp_all
  from a show ?thesis by - (cases r rule: r_kinds; rule tx_goesI [OF st]; auto simp: agree_defs)
qed

lemma tx_TBack [tx_steps]:
  assumes a: "agree b x y (log s) (TBack b0 rw c) r" and v: "view s b x y"
    and t: "tstep (tcode n (TBack b0 rw c)) s q s'"
  shows "tx_goes n q s' r"
proof -
  let ?b = "Bits (loaded_bit b) False (rlock_bit b) False"
  from agree_knows [OF a] have y: "y = None" and k: "\<not> loaded_bit b0 \<or> rlock_bit b0" by simp_all
  from t k have "tstep (bind (fetch_and (NOT (STATE_WLOCK OR STATE_WAKE)) (\<lambda>_.
      wake_by_ref (Some (ctx_w c)) (waker_drop rw (Ret (Inr ()))))) (write_cont n (FutCtx c))) s q s'"
    by (simp add: w_back_def)
  from step_and [OF this v, of ?b]
  have st: "q = tcode n (TSelf rw c)" "steps_to s s' ?b x y []" by (simp_all add: wake_by_ref_def)
  from a agree_held [OF a] show ?thesis
    by - (cases r rule: r_kinds; rule tx_goesI [OF st]; auto simp: y agree_defs)
qed

lemma tx_FStart [tx_steps]:
  assumes a: "agree b x y (log s) (FStart c) r" and v: "view s b x y" and t: "tstep (tcode n (FStart c)) s q s'"
  shows "tx_goes n q s' r"
proof -
  from step_load [OF t [unfolded tcode.simps chan_flush_def] v]
  have st: "q = tcode n (t_turn n b c)" "steps_to s s' b x y []" by (simp_all add: t_turn_code)
  from a show ?thesis by - (cases r rule: r_kinds; rule tx_goesI [OF st]; auto simp: agree_defs)
qed

lemma tx_FSync [tx_steps]:
  assumes a: "agree b x y (log s) (FSync c) r" and v: "view s b x y" and t: "tstep (tcode n (FSync c)) s q s'"
  shows "tx_goes n q s' r"
proof -
  from step_load [OF t [unfolded tcode.simps] v]
  have st: "q = tcode n (t_flushed c)" "steps_to s s' b x y []" by (simp_all add: t_flushed_code)
  from a show ?thesis by - (cases r rule: r_kinds; rule tx_goesI [OF st]; auto simp: agree_defs)
qed

lemma tx_FSelf [tx_steps]:
  assumes a: "agree b x y (log s) (FSelf c) r" and v: "view s b x y" and t: "tstep (tcode n (FSelf c)) s q s'"
  shows "tx_goes n q s' r"
proof -
  from step_emit [OF t [unfolded tcode.simps] v]
  have st: "q = tcode n (t_pending c)" "steps_to s s' b x y [WokenByRef (ctx_w c)]" by (simp_all add: t_pending_code)
  from a show ?thesis
    by - (cases r rule: r_kinds; rule tx_goesI [OF st]; auto simp: agree_defs dest: t_pending_pends)
qed

lemma tx_FLock [tx_steps]:
  assumes a: "agree b x y (log s) (FLock m b0 c) r" and v: "view s b x y"
    and t: "tstep (tcode n (FLock m b0 c)) s q s'"
  shows "tx_goes n q s' r"
proof -
  let ?b = "Bits True True False True"
  let ?k = "\<lambda>r. case r of Inr s \<Rightarrow> flush_loop m (ctx_w c) False s True
    | Inl s \<Rightarrow> if s AND STATE_WLOCK \<noteq> 0 then wake_by_ref (Some (ctx_w c)) (Ret Pending)
        else flush_loop m (ctx_w c) False s False"
  from agree_knows [OF a] have k: "loaded_bit b0" "\<not> rlock_bit b0" by simp_all
  with t have "tstep (bind (compare_exchange_weak (word_of b0) (word_of ?b) ?k) (flush_cont n c)) s q s'"
    by (simp add: f_lock_def)
  from step_exchange_weak [OF this v] show ?thesis
  proof (elim disjE conjE)
    assume st: "b = b0" "q = bind (?k (Inr (word_of b))) (flush_cont n c)" "steps_to s s' ?b x y []"
    from a k st(1) have "t_knows (t_locked m b0 c) y"
      by - (cases r rule: r_kinds; rule t_locked_knows; auto simp: agree_defs)
    with a k st(1,2) show ?thesis
      by - (cases r rule: r_kinds; rule tx_goesI [of _ _ "t_locked m b0 c", OF _ st(3)];
          auto simp: t_locked_code agree_defs)
  next
    assume st: "q = bind (?k (Inl (word_of b))) (flush_cont n c)" "steps_to s s' b x y []"
    from a st(1) show ?thesis
      by - (cases r rule: r_kinds;
          rule tx_goesI [of _ _ "if wlock_bit b then FSelf c else t_turn m b c", OF _ st(2)];
          auto simp: t_turn_code wake_by_ref_def agree_defs)
  qed
qed

lemma tx_FTake [tx_steps]:
  assumes a: "agree b x y (log s) (FTake m b0 c) r" and v: "view s b x y"
    and t: "tstep (tcode n (FTake m b0 c)) s q s'"
  shows "tx_goes n q s' r"
proof -
  from agree_knows [OF a] obtain u where y: "y = Some u" by auto
  from step_waker_clear [OF t [unfolded tcode.simps] v [unfolded y]]
  have st: "q = tcode n (FDrop u m b0 c)" "steps_to s s' b x None []" by simp_all
  from a agree_held [OF a] show ?thesis
    by - (cases r rule: r_kinds; rule tx_goesI [OF st]; auto simp: y agree_defs)
qed

lemma tx_FDrop [tx_steps]:
  assumes a: "agree b x y (log s) (FDrop u m b0 c) r" and v: "view s b x y"
    and t: "tstep (tcode n (FDrop u m b0 c)) s q s'"
  shows "tx_goes n q s' r"
proof -
  from step_emit [OF t [unfolded tcode.simps] v]
  have st: "q = tcode n (FClone m b0 c)" "steps_to s s' b x y [WakerDropped u]" by simp_all
  from a show ?thesis by - (cases r rule: r_kinds; rule tx_goesI [OF st]; auto simp: agree_defs)
qed

lemma tx_FClone [tx_steps]:
  assumes a: "agree b x y (log s) (FClone m b0 c) r" and v: "view s b x y"
    and t: "tstep (tcode n (FClone m b0 c)) s q s'"
  shows "tx_goes n q s' r"
proof -
  from step_emit [OF t [unfolded tcode.simps waker_store_two] v]
  have st: "q = tcode n (FPut m b0 c)" "steps_to s s' b x y [WakerCloned (ctx_w c)]" by simp_all
  from a show ?thesis by - (cases r rule: r_kinds; rule tx_goesI [OF st]; auto simp: agree_defs)
qed

lemma tx_FPut [tx_steps]:
  assumes a: "agree b x y (log s) (FPut m b0 c) r" and v: "view s b x y"
    and t: "tstep (tcode n (FPut m b0 c)) s q s'"
  shows "tx_goes n q s' r"
proof -
  from agree_knows [OF a] have y: "y = None" by simp
  from step_waker_put [OF t [unfolded tcode.simps] v [unfolded y]]
  have st: "q = tcode n (FRelease m b0 c)" "steps_to s s' b x (Some (ctx_w c)) []" by simp_all
  from a agree_held [OF a] show ?thesis
    by - (cases r rule: r_kinds; rule tx_goesI [OF st]; auto simp: y agree_defs)
qed

lemma tx_FRelease [tx_steps]:
  assumes a: "agree b x y (log s) (FRelease m b0 c) r" and v: "view s b x y"
    and t: "tstep (tcode n (FRelease m b0 c)) s q s'"
  shows "tx_goes n q s' r"
proof -
  let ?b = "Bits True True False True" and ?b' = "Bits True False False True"
  let ?k = "\<lambda>r. case r of Inr _ \<Rightarrow> Ret Pending | Inl _ \<Rightarrow> waker_clear (f_again m (ctx_w c))"
  from agree_knows [OF a] have k: "y = Some (ctx_w c)" "loaded_bit b0" "\<not> wlock_bit b0" "\<not> rlock_bit b0" by simp_all
  with t have "tstep (bind (compare_exchange_weak (word_of ?b) (word_of ?b') ?k) (flush_cont n c)) s q s'"
    by (simp add: f_release_def)
  from step_exchange_weak [OF this v] show ?thesis
  proof (elim disjE conjE)
    assume st: "b = ?b" "q = bind (?k (Inr (word_of b))) (flush_cont n c)" "steps_to s s' ?b' x y []"
    from a k agree_held [OF a] st(1,2) show ?thesis
      by - (cases r rule: r_kinds; rule tx_goesI [of _ _ "t_pending c", OF _ st(3)];
          auto simp: t_pending_code agree_defs dest: t_pending_pends)
  next
    assume st: "q = bind (?k (Inl (word_of b))) (flush_cont n c)" "steps_to s s' b x y []"
    from a k agree_held [OF a] st(1) show ?thesis
      by - (cases r rule: r_kinds; rule tx_goesI [of _ _ "FUnput m c", OF _ st(2)]; auto simp: agree_defs)
  qed
qed

lemma tx_FUnput [tx_steps]:
  assumes a: "agree b x y (log s) (FUnput m c) r" and v: "view s b x y"
    and t: "tstep (tcode n (FUnput m c)) s q s'"
  shows "tx_goes n q s' r"
proof -
  from agree_knows [OF a] obtain u where y: "y = Some u" by auto
  from step_waker_clear [OF t [unfolded tcode.simps] v [unfolded y]]
  have st: "q = tcode n (FUndrop u m c)" "steps_to s s' b x None []" by simp_all
  from a agree_held [OF a] show ?thesis
    by - (cases r rule: r_kinds; rule tx_goesI [OF st]; auto simp: y agree_defs)
qed

lemma tx_FUndrop [tx_steps]:
  assumes a: "agree b x y (log s) (FUndrop u m c) r" and v: "view s b x y"
    and t: "tstep (tcode n (FUndrop u m c)) s q s'"
  shows "tx_goes n q s' r"
proof -
  from step_emit [OF t [unfolded tcode.simps] v]
  have st: "q = tcode n (FAgain m c)" "steps_to s s' b x y [WakerDropped u]" by simp_all
  from a show ?thesis by - (cases r rule: r_kinds; rule tx_goesI [OF st]; auto simp: agree_defs)
qed

lemma tx_FAgain [tx_steps]:
  assumes a: "agree b x y (log s) (FAgain m c) r" and v: "view s b x y"
    and t: "tstep (tcode n (FAgain m c)) s q s'"
  shows "tx_goes n q s' r"
proof -
  let ?b = "Bits (loaded_bit b) False (rlock_bit b) False"
  from agree_knows [OF a] have y: "y = None" by simp
  from step_and [OF t [unfolded tcode.simps f_again_def] v, of ?b]
  have st: "q = tcode n (t_turn m ?b c)" "steps_to s s' ?b x y []" by (simp_all add: t_turn_code)
  from a agree_held [OF a] show ?thesis
    by - (cases r rule: r_kinds; rule tx_goesI [OF st]; auto simp: y agree_defs)
qed

lemma tx_call:
  assumes a: "agree b x y (log s) (TIdle ops acc l) r" and v: "view s b x y"
    and t: "tstep (bind (chan_write (tx_v c) (tx_w c) False) (write_cont n c)) s q s'" and c: "tx_acc c = acc"
    and refused: "write_cont n c (Inl (tx_v c, False)) = tcode n (TIdle ops' acc None)"
  shows "tx_goes n q s' r"
proof -
  from step_load [OF t [unfolded chan_write_def] v]
  have st: "q = bind (if loaded_bit b then Ret (Inl (tx_v c, False))
      else value_store (tx_v c) (w_stored (tx_w c) (word_of b))) (write_cont n c)" "steps_to s s' b x y []"
    by (simp_all add: w_stored_def)
  from a show ?thesis
    by - (cases r rule: r_kinds;
        rule tx_goesI [of _ _ "if loaded_bit b then TIdle ops' acc None else TStore b c", OF _ st(2)];
        auto simp: st(1) refused c agree_defs)
qed

lemma tx_TIdle [tx_steps]:
  assumes a: "agree b x y (log s) (TIdle ops acc l) r" and v: "view s b x y"
    and t: "tstep (tcode n (TIdle ops acc l)) s q s'"
  shows "tx_goes n q s' r"
proof (cases ops)
  case Nil
  with t show ?thesis by auto
next
  case (Cons op ops')
  show ?thesis
  proof (cases op)
    case (TrySend w)
    with t Cons show ?thesis
      by (intro tx_call [OF a v, of "TryCtx w ops' acc" n q s' ops']) (simp_all add: tx_run_try del: tx_run.simps)
  next
    case (SendPolls w u us)
    with t Cons show ?thesis
      by (intro tx_call [OF a v, of "FutCtx (SendCtx w u us ops' acc)" n q s' ops'])
        (simp_all add: tx_run_send del: tx_run.simps)
  qed
qed

lemma tx_THang [tx_steps]: "tstep (tcode n (THang h acc)) s q s' \<Longrightarrow> tx_goes n q s' r"
  by auto

lemma tx_step:
  assumes "agree b x y (log s) p r" and "view s b x y" and "tstep (tcode n p) s q s'"
  shows "tx_goes n q s' r"
  using assms by - (cases p; hypsubst; (rule tx_steps; assumption))
subsection \<open>A step of the receiver\<close>

lemma t_kinds [case_names locks writes out]:
  assumes "t_locks p \<Longrightarrow> \<not> t_writes p \<Longrightarrow> \<not> t_stored p \<Longrightarrow> t_pends p = None \<Longrightarrow> P"
    and "\<not> t_locks p \<Longrightarrow> t_writes p \<Longrightarrow> t_pends p = None \<Longrightarrow> (\<And>y w. \<not> t_will_wake p y w) \<Longrightarrow> P"
    and "\<not> t_locks p \<Longrightarrow> \<not> t_writes p \<Longrightarrow> \<not> t_stored p \<Longrightarrow> P"
  shows P
  using assms by (cases p) auto

lemma agree_owned:
  assumes "agree b x y es p r" and "r_owns r"
  shows "wlock_bit b" "rlock_bit b" "\<not> t_locks p" "r_stores r \<Longrightarrow> wake_bit b"
  using assms by (cases r rule: r_kinds; simp add: agree_defs)+

lemma agree_reader: "agree b x y es p r \<Longrightarrow> r_knows r y"
  by (simp add: agree_defs)

lemma r_done_summary [simp]:
  "\<not> r_reads (r_pending c)" "\<not> r_stores (r_pending c)" "\<not> r_owns (r_pending c)" "\<not> r_took (r_pending c)"
  "\<not> r_insists (r_pending c)" "r_holds (r_pending c) = {#}" "\<not> r_will_wake (r_pending c) w"
  "r_knows (r_pending c) y" "r_received (r_pending c) = rx_got c" "r_pends (r_pending c) = rx_wo c"
  "\<not> r_reads (r_none c)" "\<not> r_stores (r_none c)" "\<not> r_owns (r_none c)" "\<not> r_took (r_none c)"
  "\<not> r_insists (r_none c)" "r_holds (r_none c) = {#}" "\<not> r_will_wake (r_none c) w"
  "r_knows (r_none c) y" "r_received (r_none c) = rx_got c" "r_pends (r_none c) = None"
  "\<not> r_reads (r_some v c)" "\<not> r_stores (r_some v c)" "\<not> r_owns (r_some v c)" "\<not> r_took (r_some v c)"
  "\<not> r_insists (r_some v c)" "r_holds (r_some v c) = {#}" "\<not> r_will_wake (r_some v c) w"
  "r_knows (r_some v c) y" "r_received (r_some v c) = rx_got c @ [v]" "r_pends (r_some v c) = None"
  by (cases c; simp)+

declare r_pending.simps [simp del] r_none.simps [simp del] r_some.simps [simp del]

lemma r_turn_summary [simp]:
  "\<not> r_reads (r_turn m wk b c)" "\<not> r_stores (r_turn m wk b c)" "\<not> r_owns (r_turn m wk b c)"
  "\<not> r_took (r_turn m wk b c)" "r_holds (r_turn m wk b c) = {#}" "\<not> r_will_wake (r_turn m wk b c) w"
  "r_received (r_turn m wk b c) = rx_got c"
  by (cases m; auto simp: r_turn_def split: option.split)+

lemma r_turn_insists: "r_insists (r_turn m wk b c) \<Longrightarrow> loaded_bit b"
  by (cases m) (auto simp: r_turn_def split: if_splits option.splits)

lemma r_turn_knows:
  assumes "wk = rx_wo c \<or> wk = None \<and> loaded_bit b"
  shows "r_knows (r_turn m wk b c) y" "r_pends (r_turn m wk b c) = None"
  using assms by (cases m; auto simp: r_turn_def split: option.split)+

definition rx_goes ::
  "nat \<Rightarrow> ('v, 'w) sthread \<Rightarrow> ('v, 'w) chan \<Rightarrow> ('v, 'w) tx_place \<Rightarrow> bool" where
  "rx_goes n q s p = (\<exists>r b x y. q = rcode n r \<and> view s b x y \<and> agree b x y (log s) p r)"

lemma rx_goesI:
  "q = rcode n r \<Longrightarrow> steps_to s s' b x y es \<Longrightarrow> agree b x y (log s @ es) p r \<Longrightarrow> rx_goes n q s' p"
  unfolding rx_goes_def steps_to_def by metis

named_theorems rx_steps

lemma rx_call:
  assumes a: "agree b x y (log s) p (RIdle ops got l)" and v: "view s b x y"
    and t: "tstep (bind (chan_read n (rx_wo c) False) (read_cont n c)) s q s'" and c: "rx_got c = got"
  shows "rx_goes n q s' p"
proof -
  from step_load [OF t [unfolded chan_read_def] v]
  have st: "q = rcode n (r_turn n (rx_wo c) b c)" "steps_to s s' b x y []" by (simp_all add: r_turn_code)
  from a show ?thesis
    by - (cases p rule: t_kinds; rule rx_goesI [OF st];
        auto simp: r_turn_knows c agree_defs dest: r_turn_insists)
qed

lemma rx_RIdle [rx_steps]:
  assumes a: "agree b x y (log s) p (RIdle ops got l)" and v: "view s b x y"
    and t: "tstep (rcode n (RIdle ops got l)) s q s'"
  shows "rx_goes n q s' p"
proof (cases ops)
  case Nil
  with t show ?thesis by auto
next
  case (Cons op ops')
  show ?thesis
  proof (cases op)
    case (PollNext w)
    with t Cons show ?thesis
      by (intro rx_call [OF a v, of n "RxCtx (Some w) ops' got" q s']) (simp_all add: rx_run_poll del: rx_run.simps)
  next
    case TryRecv
    with t Cons show ?thesis
      by (intro rx_call [OF a v, of n "RxCtx None ops' got" q s']) (simp_all add: rx_run_try del: rx_run.simps)
  qed
qed

lemma rx_RRead [rx_steps]:
  assumes a: "agree b x y (log s) p (RRead m wk b0 c)" and v: "view s b x y"
    and t: "tstep (rcode n (RRead m wk b0 c)) s q s'"
  shows "rx_goes n q s' p"
proof -
  let ?b = "Bits True True True (wake_bit b0)"
  let ?k = "\<lambda>r. case r of Inr _ \<Rightarrow> r_take (word_of b0) | Inl s \<Rightarrow> read_loop m wk False s"
  from agree_reader [OF a] have k: "loaded_bit b0" "wk = None \<or> wk = rx_wo c" by simp_all
  with t have "tstep (bind (compare_exchange_weak (word_of b0) (word_of ?b) ?k) (read_cont n c)) s q s'"
    by (simp add: r_read_def)
  from step_exchange_weak [OF this v] show ?thesis
  proof (elim disjE conjE)
    assume st: "b = b0" "q = bind (?k (Inr (word_of b))) (read_cont n c)" "steps_to s s' ?b x y []"
    from a k st(1,2) show ?thesis
      by - (cases p rule: t_kinds; rule rx_goesI [of _ _ "RTake b0 c", OF _ st(3)]; auto simp: agree_defs)
  next
    assume st: "q = bind (?k (Inl (word_of b))) (read_cont n c)" "steps_to s s' b x y []"
    from a k have "wk = rx_wo c \<or> wk = None \<and> loaded_bit b" by (cases "rx_wo c") (auto simp: agree_defs)
    from a st(1) r_turn_knows [OF this] show ?thesis
      by - (cases p rule: t_kinds; rule rx_goesI [of _ _ "r_turn m wk b c", OF _ st(2)];
          auto simp: r_turn_code agree_defs dest: r_turn_insists)
  qed
qed

lemma rx_RTake [rx_steps]:
  assumes a: "agree b x y (log s) p (RTake b0 c)" and v: "view s b x y"
    and t: "tstep (rcode n (RTake b0 c)) s q s'"
  shows "rx_goes n q s' p"
proof -
  from a obtain u where x: "x = Some u" by (auto simp: agree_defs)
  from step_value_load [OF t [unfolded rcode.simps r_take_def] v [unfolded x]]
  have st: "q = bind (waker_load_if (wake_bit b0 \<and> \<not> wlock_bit b0) (r_finish (word_of b0) u)) (read_cont n c)"
    "steps_to s s' b None y []" by simp_all
  from a show ?thesis
    by - (cases p rule: t_kinds;
        rule rx_goesI [of _ _ "if wake_bit b0 \<and> \<not> wlock_bit b0 then RTakeW b0 u c else RFinish b0 u None c", OF _ st(2)];
        auto simp: st(1) x waker_load_if_def agree_defs)
qed

lemma rx_RTakeW [rx_steps]:
  assumes a: "agree b x y (log s) p (RTakeW b0 v c)" and v: "view s b x y"
    and t: "tstep (rcode n (RTakeW b0 v c)) s q s'"
  shows "rx_goes n q s' p"
proof -
  from agree_reader [OF a] obtain u where y: "y = Some u" by auto
  from step_waker_load [OF t [unfolded rcode.simps] v [unfolded y]]
  have st: "q = rcode n (RFinish b0 v (Some u) c)" "steps_to s s' b x None []" by simp_all
  from a show ?thesis by - (cases p rule: t_kinds; rule rx_goesI [OF st]; auto simp: y agree_defs)
qed

lemma rx_RFinish [rx_steps]:
  assumes a: "agree b x y (log s) p (RFinish b0 v fw c)" and v: "view s b x y"
    and t: "tstep (rcode n (RFinish b0 v fw c)) s q s'"
  shows "rx_goes n q s' p"
proof -
  let ?b = "if wlock_bit b0 then Bits False (wlock_bit b) False (wake_bit b) else Bits False False False False"
  from step_and [OF t [unfolded rcode.simps r_finish_def] v, of ?b]
  have st: "q = bind (wake fw (Ret (Ready (Some v, False)))) (read_cont n c)" "steps_to s s' ?b x y []"
    by (simp_all split: if_splits)
  from a show ?thesis
    by - (cases p rule: t_kinds;
        rule rx_goesI [of _ _ "case fw of None \<Rightarrow> r_some v c | Some u \<Rightarrow> RWake u v c", OF _ st(2)];
        auto simp: st(1) r_done_code wake_def agree_defs split: option.split)
qed

lemma rx_RWake [rx_steps]:
  assumes a: "agree b x y (log s) p (RWake u v c)" and v: "view s b x y"
    and t: "tstep (rcode n (RWake u v c)) s q s'"
  shows "rx_goes n q s' p"
proof -
  from step_emit [OF t [unfolded rcode.simps] v]
  have st: "q = rcode n (r_some v c)" "steps_to s s' b x y [Woken u]" by (simp_all add: r_done_code)
  from a show ?thesis by - (cases p rule: t_kinds; rule rx_goesI [OF st]; auto simp: agree_defs)
qed

lemma rx_RSelf [rx_steps]:
  assumes a: "agree b x y (log s) p (RSelf w c)" and v: "view s b x y"
    and t: "tstep (rcode n (RSelf w c)) s q s'"
  shows "rx_goes n q s' p"
proof -
  from step_emit [OF t [unfolded rcode.simps] v]
  have st: "q = rcode n (r_pending c)" "steps_to s s' b x y [WokenByRef w]" by (simp_all add: r_done_code)
  from a show ?thesis by - (cases p rule: t_kinds; rule rx_goesI [OF st]; auto simp: agree_defs)
qed

lemma rx_RLock [rx_steps]:
  assumes a: "agree b x y (log s) p (RLock m wk b0 c)" and v: "view s b x y"
    and t: "tstep (rcode n (RLock m wk b0 c)) s q s'"
  shows "rx_goes n q s' p"
proof -
  let ?b = "Bits False True True True"
  let ?k = "\<lambda>r. case r of Inr _ \<Rightarrow> waker_clear_if (word_of b0 AND STATE_WAKE \<noteq> 0) (r_keep m wk (word_of b0))
    | Inl s \<Rightarrow> read_loop m wk False s"
  from agree_reader [OF a] have k: "\<not> loaded_bit b0" "\<not> wlock_bit b0" "wk = rx_wo c" "wk = None \<longrightarrow> wake_bit b0" by simp_all
  from t k(1,2) have "tstep (bind (compare_exchange_weak (word_of b0) (word_of ?b) ?k) (read_cont n c)) s q s'"
    by (simp add: r_lock_def)
  from step_exchange_weak [OF this v] show ?thesis
  proof (elim disjE conjE)
    assume st: "b = b0" "q = bind (?k (Inr (word_of b))) (read_cont n c)" "steps_to s s' ?b x y []"
    from a k st(1,2) show ?thesis
      by - (cases p rule: t_kinds;
          rule rx_goesI [of _ _ "if wake_bit b0 then RClear m wk b0 c else RClone m (the wk) b0 c", OF _ st(3)];
          auto simp: waker_clear_if_def r_keep_def agree_defs)
  next
    assume st: "q = bind (?k (Inl (word_of b))) (read_cont n c)" "steps_to s s' b x y []"
    from a k st(1) show ?thesis
      by - (cases p rule: t_kinds; rule rx_goesI [of _ _ "r_turn m wk b c", OF _ st(2)];
          auto simp: r_turn_code r_turn_knows agree_defs dest: r_turn_insists)
  qed
qed

lemma rx_RClear [rx_steps]:
  assumes a: "agree b x y (log s) p (RClear m wk b0 c)" and v: "view s b x y"
    and t: "tstep (rcode n (RClear m wk b0 c)) s q s'"
  shows "rx_goes n q s' p"
proof -
  from agree_reader [OF a] obtain u where y: "y = Some u" by auto
  from step_waker_clear [OF t [unfolded rcode.simps] v [unfolded y]]
  have st: "q = rcode n (RDrop u m wk b0 c)" "steps_to s s' b x None []" by simp_all
  from a show ?thesis by - (cases p rule: t_kinds; rule rx_goesI [OF st]; auto simp: y agree_defs)
qed

lemma rx_RDrop [rx_steps]:
  assumes a: "agree b x y (log s) p (RDrop u m wk b0 c)" and v: "view s b x y"
    and t: "tstep (rcode n (RDrop u m wk b0 c)) s q s'"
  shows "rx_goes n q s' p"
proof -
  from step_emit [OF t [unfolded rcode.simps] v]
  have st: "q = bind (r_keep m wk (word_of b0)) (read_cont n c)" "steps_to s s' b x y [WakerDropped u]" by simp_all
  from a show ?thesis
    by - (cases p rule: t_kinds;
        rule rx_goesI [of _ _ "case wk of None \<Rightarrow> RLook m c | Some w \<Rightarrow> RClone m w b0 c", OF _ st(2)];
        auto simp: st(1) r_keep_def agree_defs split: option.split)
qed

lemma rx_RClone [rx_steps]:
  assumes a: "agree b x y (log s) p (RClone m w b0 c)" and v: "view s b x y"
    and t: "tstep (rcode n (RClone m w b0 c)) s q s'"
  shows "rx_goes n q s' p"
proof -
  from step_emit [OF t [unfolded rcode.simps waker_store_two] v]
  have st: "q = rcode n (RPut m w b0 c)" "steps_to s s' b x y [WakerCloned w]" by simp_all
  from a show ?thesis by - (cases p rule: t_kinds; rule rx_goesI [OF st]; auto simp: agree_defs)
qed

lemma rx_RPut [rx_steps]:
  assumes a: "agree b x y (log s) p (RPut m w b0 c)" and v: "view s b x y"
    and t: "tstep (rcode n (RPut m w b0 c)) s q s'"
  shows "rx_goes n q s' p"
proof -
  from agree_reader [OF a] have y: "y = None" by simp
  from step_waker_put [OF t [unfolded rcode.simps] v [unfolded y]]
  have st: "q = rcode n (RRelease m w b0 c)" "steps_to s s' b x (Some w) []" by simp_all
  from a show ?thesis by - (cases p rule: t_kinds; rule rx_goesI [OF st]; auto simp: y agree_defs)
qed

lemma rx_RRelease [rx_steps]:
  assumes a: "agree b x y (log s) p (RRelease m w b0 c)" and v: "view s b x y"
    and t: "tstep (rcode n (RRelease m w b0 c)) s q s'"
  shows "rx_goes n q s' p"
proof -
  let ?b = "Bits False True True True" and ?b' = "Bits False False False True"
  let ?k = "\<lambda>r. case r of Inr _ \<Rightarrow> Ret Pending | Inl _ \<Rightarrow> waker_clear (r_again m)"
  from agree_reader [OF a] have k: "y = Some w" "rx_wo c = Some w" "\<not> loaded_bit b0" "\<not> wlock_bit b0" "\<not> rlock_bit b0"
    by simp_all
  with t have "tstep (bind (compare_exchange (word_of ?b) (word_of ?b') ?k) (read_cont n c)) s q s'"
    by (simp add: r_release_def)
  from step_exchange [OF this v] show ?thesis
  proof (elim disjE conjE)
    assume st: "b = ?b" "q = bind (?k (Inr (word_of b))) (read_cont n c)" "steps_to s s' ?b' x y []"
    from a k st(1,2) show ?thesis
      by - (cases p rule: t_kinds;
          rule rx_goesI [of _ _ "r_pending c", OF _ st(3)]; auto simp: r_done_code agree_defs)
  next
    assume st: "b \<noteq> ?b" "q = bind (?k (Inl (word_of b))) (read_cont n c)" "steps_to s s' b x y []"
    from st(1) agree_owned [OF a] have "loaded_bit b" by (cases b) auto
    with a k st(2) show ?thesis
      by - (cases p rule: t_kinds; rule rx_goesI [of _ _ "RUnput m c", OF _ st(3)]; auto simp: agree_defs)
  qed
qed

lemma rx_RUnput [rx_steps]:
  assumes a: "agree b x y (log s) p (RUnput m c)" and v: "view s b x y"
    and t: "tstep (rcode n (RUnput m c)) s q s'"
  shows "rx_goes n q s' p"
proof -
  from agree_reader [OF a] obtain u where y: "y = Some u" by auto
  from step_waker_clear [OF t [unfolded rcode.simps] v [unfolded y]]
  have st: "q = rcode n (RUndrop u m c)" "steps_to s s' b x None []" by simp_all
  from a show ?thesis by - (cases p rule: t_kinds; rule rx_goesI [OF st]; auto simp: y agree_defs)
qed

lemma rx_RUndrop [rx_steps]:
  assumes a: "agree b x y (log s) p (RUndrop u m c)" and v: "view s b x y"
    and t: "tstep (rcode n (RUndrop u m c)) s q s'"
  shows "rx_goes n q s' p"
proof -
  from step_emit [OF t [unfolded rcode.simps] v]
  have st: "q = rcode n (RAgain m c)" "steps_to s s' b x y [WakerDropped u]" by simp_all
  from a show ?thesis by - (cases p rule: t_kinds; rule rx_goesI [OF st]; auto simp: agree_defs)
qed

lemma rx_RAgain [rx_steps]:
  assumes a: "agree b x y (log s) p (RAgain m c)" and v: "view s b x y"
    and t: "tstep (rcode n (RAgain m c)) s q s'"
  shows "rx_goes n q s' p"
proof -
  let ?b = "Bits (loaded_bit b) False False False"
  from agree_reader [OF a] have y: "y = None" by simp
  from a have l: "loaded_bit b" by (simp add: agree_defs)
  from step_and [OF t [unfolded rcode.simps r_again_def] v, of ?b]
  have st: "q = rcode n (r_turn m None ?b c)" "steps_to s s' ?b x y []" by (simp_all add: r_turn_code)
  from a l show ?thesis
    by - (cases p rule: t_kinds; rule rx_goesI [OF st]; auto simp: y r_turn_knows agree_defs)
qed

lemma rx_RLook [rx_steps]:
  assumes a: "agree b x y (log s) p (RLook m c)" and v: "view s b x y"
    and t: "tstep (rcode n (RLook m c)) s q s'"
  shows "rx_goes n q s' p"
proof -
  let ?b = "Bits (loaded_bit b) False False False"
  from agree_reader [OF a] have y: "y = None" and c: "rx_wo c = None" by simp_all
  from step_and [OF t [unfolded rcode.simps r_look_def] v, of ?b]
  have st: "q = rcode n (if loaded_bit b then r_turn m None ?b c else r_none c)" "steps_to s s' ?b x y []"
    by (simp_all add: r_turn_code r_done_code)
  from a show ?thesis
    by - (cases p rule: t_kinds;
        rule rx_goesI [OF st]; auto simp: y c r_turn_knows agree_defs dest: r_turn_insists)
qed

lemma rx_RHang [rx_steps]: "tstep (rcode n (RHang got)) s q s' \<Longrightarrow> rx_goes n q s' p"
  by auto

lemma rx_step:
  assumes "agree b x y (log s) p r" and "view s b x y" and "tstep (rcode n r) s q s'"
  shows "rx_goes n q s' p"
  using assms by - (cases r; hypsubst; (rule rx_steps; assumption))

subsection \<open>Every interleaving\<close>

lemma tcode_moves:
  assumes "t_knows p y"
  shows "thread_step (tcode n p) False s \<noteq> None \<or> (\<exists>acc l. p = TIdle [] acc l) \<or> (\<exists>h acc. p = THang h acc)"
proof (cases p)
  case (TIdle ops acc l)
  show ?thesis
  proof (cases ops)
    case (Cons op ops')
    with TIdle show ?thesis
      by (cases op) (simp_all add: tx_run_try tx_run_send chan_write_def load_state_def access_def
          del: tx_run.simps)
  qed (use TIdle in simp)
next
  case (TBack b rw c)
  with assms show ?thesis by (simp add: w_back_def access_defs)
qed (auto simp: w_stored_def write_slow_pieces w_unlock_def w_release_def chan_flush_def f_lock_def
    f_release_def f_again_def waker_put_def access_defs)

lemma rcode_moves:
  "thread_step (rcode n r) False s \<noteq> None \<or> (\<exists>got l. r = RIdle [] got l) \<or> (\<exists>got. r = RHang got)"
proof (cases r)
  case (RIdle ops got l)
  show ?thesis
  proof (cases ops)
    case (Cons op ops')
    with RIdle show ?thesis
      by (cases op) (simp_all add: rx_run_poll rx_run_try chan_read_def load_state_def access_def
          del: rx_run.simps)
  qed (use RIdle in simp)
qed (auto simp: r_read_def r_take_def r_finish_def r_lock_def r_release_def r_again_def r_look_def
    waker_put_def access_defs)

definition stream_threads ::
  "nat \<Rightarrow> ('v, 'w) tx_op list \<Rightarrow> 'w rx_op list \<Rightarrow> ('v, 'w) sthread list" where
  "stream_threads n ops ops' = [tx_run n ops tx_end [] None, rx_run n ops' rx_end [] None]"

text \<open>A call that was left pending has had its waker called, or its waker is stored and its time not come.\<close>

definition woken_or_stored :: "('v, 'w) chan \<Rightarrow> ('v, 'w) achan \<Rightarrow> 'w option \<Rightarrow> bool \<Rightarrow> bool" where
  "woken_or_stored s a l full =
     (case l of None \<Rightarrow> True
      | Some w \<Rightarrow> w \<in> set (wakes (log s)) \<or> waiting a = Some w \<and> (content a \<noteq> None \<longleftrightarrow> full))"

definition stream_ok :: "(('v, 'w) chan, ('v, 'w) stream_end) config \<Rightarrow> bool" where
  "stream_ok d =
     (freed (fst d) = 0 \<and>
      list_all (\<lambda>q. thread_step q False (fst d) \<noteq> None \<or> q = Hang \<or> (\<exists>e. q = Ret e)) (snd d) \<and>
      (\<forall>acc l got l'. snd d = [Ret (TxEnd acc l), Ret (RxEnd got l')] \<longrightarrow>
         (\<exists>a. at_rest (fst d) a \<and> active a \<and> acc = got @ list_of (content a) \<and>
            woken_or_stored (fst d) a l True \<and> woken_or_stored (fst d) a l' False)))"

lemma agree_idle:
  assumes "agree b x y (log s) (TIdle ops acc l) (RIdle ops' got l')" and "view s b x y"
  shows "\<exists>a. at_rest s a \<and> active a \<and> acc = got @ list_of (content a) \<and> woken_or_stored s a l True \<and>
    woken_or_stored s a l' False"
proof -
  let ?a = "\<lparr>active = True, content = x, waiting = y\<rparr>"
  from assms have "word_of b = state_word ?a"
    by (cases b) (auto simp: agree_defs word_of.simps state_word_def)
  with assms have "at_rest s ?a" by (auto simp: at_rest_def view_def agree_defs balanced_def)
  moreover have "acc = got @ list_of x" "woken_or_stored s ?a l True" "woken_or_stored s ?a l' False"
    using assms(1) by (auto simp: agree_defs woken_or_stored_def split: option.splits)
  ultimately show ?thesis by (intro exI [of _ ?a]) simp
qed

lemma stream_reach:
  assumes "reach (new_channel, stream_threads n ops ops') d"
  shows "\<exists>p r b x y. snd d = [tcode n p, rcode n r] \<and> view (fst d) b x y \<and> agree b x y (log (fst d)) p r"
  using assms
proof (induction rule: reach.induct)
  case start
  have "view new_channel (Bits False False False False) None None"
    by (simp add: view_def new_channel_def word_of_active)
  then show ?case
    by (intro exI [of _ "TIdle ops [] None"] exI [of _ "RIdle ops' [] None"])
      (force simp: stream_threads_def agree_defs new_channel_def)
next
  case (step d e)
  then obtain p r b x y where d: "snd d = [tcode n p, rcode n r]" and v: "view (fst d) b x y"
    and a: "agree b x y (log (fst d)) p r" by blast
  from step(2) show ?case
  proof cases
    case (thread i ps s q s')
    with d consider "i = 0" "tstep (tcode n p) s q s'" | "i = 1" "tstep (rcode n r) s q s'"
      by (auto simp: less_Suc_eq)
    then show ?thesis
    proof cases
      case 1
      with tx_step [of b x y s p r n q s'] a v thread d show ?thesis unfolding tx_goes_def by fastforce
    next
      case 2
      with rx_step [of b x y s p r n q s'] a v thread d show ?thesis unfolding rx_goes_def by fastforce
    qed
  qed
qed

text \<open>C1. A \<open>Sender\<close> and a \<open>Receiver\<close> of a channel on two threads, in any interleaving and whatever
  spurious failures: the sender calls \<open>try_send\<close>, and polls the futures of \<open>send\<close>, any number of
  times, the receiver calls \<open>poll_next\<close> and \<open>try_recv\<close> any number of times.  Nothing panics, the
  channel is not released, and neither thread waits for the other inside a call.  When both are done, the channel is at rest, the values that were accepted are those
  that were received, in the same order, followed by the one that is in the channel; and if the
  last call of a side was left pending, its waker has been called, or is stored in the channel
  which has no value for the receiver, or still has the value of the sender.\<close>

theorem stream_sound:
  fixes ops :: "('v, 'w) tx_op list"
  assumes "reach (new_channel, stream_threads n ops ops') d"
  shows "stream_ok d"
proof -
  from stream_reach [OF assms] obtain p r b x y where d: "snd d = [tcode n p, rcode n r]"
    and v: "view (fst d) b x y" and a: "agree b x y (log (fst d)) p r" by blast
  have t: "(\<exists>acc l. p = TIdle [] acc l) \<or> (\<exists>h acc. p = THang h acc)"
    if "thread_step (tcode n p) False (fst d) = None"
    using tcode_moves agree_knows [OF a] that by blast
  have r: "(\<exists>got l. r = RIdle [] got l) \<or> (\<exists>got. r = RHang got)"
    if "thread_step (rcode n r) False (fst d) = None"
    using rcode_moves that by blast
  have "\<exists>a. at_rest (fst d) a \<and> active a \<and> acc = got @ list_of (content a) \<and>
      woken_or_stored (fst d) a l True \<and> woken_or_stored (fst d) a l' False"
    if e: "tcode n p = Ret (TxEnd acc l)" "rcode n r = Ret (RxEnd got l')" for acc l got l'
  proof -
    from t e(1) have "p = TIdle [] acc l" by auto
    moreover from r e(2) have "r = RIdle [] got l'" by auto
    ultimately show ?thesis using agree_idle a v by blast
  qed
  moreover have "freed (fst d) = 0" using v by (simp add: view_def)
  moreover have "thread_step (tcode n p) False (fst d) \<noteq> None \<or> tcode n p = Hang \<or> (\<exists>e. tcode n p = Ret e)"
    using t by (cases "thread_step (tcode n p) False (fst d) = None") auto
  moreover have "thread_step (rcode n r) False (fst d) \<noteq> None \<or> rcode n r = Hang \<or> (\<exists>e. rcode n r = Ret e)"
    using r by (cases "thread_step (rcode n r) False (fst d) = None") auto
  ultimately show ?thesis unfolding stream_ok_def d by simp
qed

theorem stream_sound_witness:
  "stream_ok (new_channel :: (nat, nat) chan, stream_threads 4 [TrySend 7, SendPolls 8 5 [6]] [PollNext 1, TryRecv])"
  by (rule stream_sound [OF reach.start])

end
