(* ===== verification/SharedLender.thy ===== *)
theory SharedLender
  imports ChannelSpec ThreadBlock
begin

unbundle bit_operations_syntax

text \<open>
  \<open>suspend-core/src/shared.rs\<close>: the counted allocation \<open>SharedInner\<close>, its owner \<open>Lender\<close>, the
  borrows \<open>Shared\<close>, and the futures \<open>Collect\<close> and \<open>CollectInto\<close> that wait for the borrows to
  end.  One \<open>Act\<close> stands for each atomic access of the counter, each use of the waker's
  memory and each call of a waker; the retry loops take the number of turns they may use.
  The counter is a machine word of 64 bits; \<open>+\<close> and \<open>-\<close> on it panic on overflow where the
  code uses Rust's operators (as in a build with overflow checks) and wrap in \<open>fetch_add\<close>
  and \<open>fetch_sub\<close>.
\<close>

subsection \<open>SharedInner\<close>

text \<open>
  The waker is a \<open>MaybeUninit\<close>: \<open>None\<close> is memory that was never written, or whose value
  has been moved out or dropped; reading it again is undefined behaviour.
\<close>

record ('t, 'w) shared_inner =
  count :: usize
  s_waker :: "'w option"
  s_value :: 't
  s_freed :: nat
  s_log :: "('t, 'w) event list"

type_synonym ('t, 'w, 'r) sprog = "(('t, 'w) shared_inner, 'r) prog"

definition MAX_REFCOUNT :: usize where
  "MAX_REFCOUNT = 0x7FFFFFFFFFFFFFFF"

definition shared_inner_new :: "'t \<Rightarrow> ('t, 'w) shared_inner" where
  "shared_inner_new v = \<lparr>count = 3, s_waker = None, s_value = v, s_freed = 0, s_log = []\<rparr>"

definition s_access ::
  "(('t, 'w) shared_inner \<Rightarrow> ('t, 'w) shared_inner) \<Rightarrow>
   (('t, 'w) shared_inner \<Rightarrow> ('t, 'w, 'r) sprog) \<Rightarrow> ('t, 'w, 'r) sprog" where
  "s_access u k = Act u (\<lambda>s. if s_freed s = 0 then k s else Panic ''use after free'')"

definition s_load :: "(usize \<Rightarrow> ('t, 'w, 'r) sprog) \<Rightarrow> ('t, 'w, 'r) sprog" where
  "s_load k = s_access (\<lambda>s. s) (\<lambda>s. k (count s))"

definition s_swap :: "usize \<Rightarrow> (usize \<Rightarrow> ('t, 'w, 'r) sprog) \<Rightarrow> ('t, 'w, 'r) sprog" where
  "s_swap c k = s_access (\<lambda>s. s\<lparr>count := c\<rparr>) (\<lambda>s. k (count s))"

definition s_fetch_add :: "usize \<Rightarrow> (usize \<Rightarrow> ('t, 'w, 'r) sprog) \<Rightarrow> ('t, 'w, 'r) sprog" where
  "s_fetch_add d k = s_access (\<lambda>s. s\<lparr>count := count s + d\<rparr>) (\<lambda>s. k (count s))"

definition s_fetch_sub :: "usize \<Rightarrow> (usize \<Rightarrow> ('t, 'w, 'r) sprog) \<Rightarrow> ('t, 'w, 'r) sprog" where
  "s_fetch_sub d k = s_access (\<lambda>s. s\<lparr>count := count s - d\<rparr>) (\<lambda>s. k (count s))"

definition s_compare_exchange ::
  "usize \<Rightarrow> usize \<Rightarrow> (usize + usize \<Rightarrow> ('t, 'w, 'r) sprog) \<Rightarrow> ('t, 'w, 'r) sprog" where
  "s_compare_exchange old new k =
     s_access (\<lambda>s. if count s = old then s\<lparr>count := new\<rparr> else s)
       (\<lambda>s. k (if count s = old then Inr (count s) else Inl (count s)))"

definition s_compare_exchange_weak ::
  "usize \<Rightarrow> usize \<Rightarrow> (usize + usize \<Rightarrow> ('t, 'w, 'r) sprog) \<Rightarrow> ('t, 'w, 'r) sprog" where
  "s_compare_exchange_weak old new k =
     Pick (\<lambda>spurious.
       if spurious then s_access (\<lambda>s. s) (\<lambda>s. k (Inl (count s)))
       else s_compare_exchange old new k)"

definition s_emit :: "('t, 'w) event \<Rightarrow> ('t, 'w, 'r) sprog \<Rightarrow> ('t, 'w, 'r) sprog" where
  "s_emit e k = Act (\<lambda>s. s\<lparr>s_log := s_log s @ [e]\<rparr>) (\<lambda>s. k)"

text \<open>\<open>a - b\<close> and \<open>a + b\<close> of Rust's \<open>usize\<close>\<close>

definition checked_sub :: "usize \<Rightarrow> usize \<Rightarrow> (usize \<Rightarrow> ('t, 'w, 'r) sprog) \<Rightarrow> ('t, 'w, 'r) sprog" where
  "checked_sub a b k = (if a < b then Panic ''attempt to subtract with overflow'' else k (a - b))"

definition checked_add :: "usize \<Rightarrow> usize \<Rightarrow> (usize \<Rightarrow> ('t, 'w, 'r) sprog) \<Rightarrow> ('t, 'w, 'r) sprog" where
  "checked_add a b k = (if a + b < a then Panic ''attempt to add with overflow'' else k (a + b))"

definition clear_waker :: "('t, 'w, 'r) sprog \<Rightarrow> ('t, 'w, 'r) sprog" where
  "clear_waker k = s_access (\<lambda>s. s\<lparr>s_waker := None\<rparr>) (\<lambda>s. case s_waker s of
       None \<Rightarrow> Panic ''uninitialized memory'' | Some w \<Rightarrow> s_emit (WakerDropped w) k)"

text \<open>The store overwrites what is there without dropping it.\<close>

definition store_waker :: "'w \<Rightarrow> ('t, 'w, 'r) sprog \<Rightarrow> ('t, 'w, 'r) sprog" where
  "store_waker w k = s_emit (WakerCloned w) (s_access (\<lambda>s. s\<lparr>s_waker := Some w\<rparr>) (\<lambda>s. k))"

definition wake_waker :: "('t, 'w, 'r) sprog \<Rightarrow> ('t, 'w, 'r) sprog" where
  "wake_waker k = s_access (\<lambda>s. s\<lparr>s_waker := None\<rparr>) (\<lambda>s. case s_waker s of
       None \<Rightarrow> Panic ''uninitialized memory'' | Some w \<Rightarrow> s_emit (Woken w) k)"

definition s_wake_by_ref :: "'w \<Rightarrow> ('t, 'w, 'r) sprog \<Rightarrow> ('t, 'w, 'r) sprog" where
  "s_wake_by_ref w k = s_emit (WokenByRef w) k"

text \<open>\<open>slf.dealloc()\<close> drops the value with the box; the memory of the waker is left alone.\<close>

definition s_dealloc :: "('t, 'w, 'r) sprog \<Rightarrow> ('t, 'w, 'r) sprog" where
  "s_dealloc k = Act (\<lambda>s. s\<lparr>s_freed := s_freed s + 1, s_log := s_log s @ [ValueDropped (s_value s)]\<rparr>)
     (\<lambda>s. if s_freed s \<noteq> 0 then Panic ''double free'' else k)"

text \<open>\<open>into_box().into_inner()\<close> moves the value out of the box.\<close>

definition s_into_inner :: "('t \<Rightarrow> ('t, 'w, 'r) sprog) \<Rightarrow> ('t, 'w, 'r) sprog" where
  "s_into_inner k = Act (\<lambda>s. s\<lparr>s_freed := s_freed s + 1\<rparr>)
     (\<lambda>s. if s_freed s \<noteq> 0 then Panic ''double free'' else k (s_value s))"

lemmas s_access_defs = s_access_def s_load_def s_swap_def s_fetch_add_def s_fetch_sub_def
  s_compare_exchange_def s_compare_exchange_weak_def s_emit_def checked_sub_def checked_add_def
  clear_waker_def store_waker_def wake_waker_def s_wake_by_ref_def s_dealloc_def s_into_inner_def

subsection \<open>The operations of SharedInner\<close>

definition borrow_count_of :: "usize \<Rightarrow> usize" where
  "borrow_count_of c = (let h = c div 2 in if h < 1 then 0 else h - 1)"

definition inner_borrow_count :: "('t, 'w, usize) sprog" where
  "inner_borrow_count = s_load (\<lambda>c. Ret (borrow_count_of c))"

definition inc_count_ref :: "('t, 'w, 'r) sprog \<Rightarrow> ('t, 'w, 'r) sprog" where
  "inc_count_ref k = s_fetch_add 2 (\<lambda>old.
     if old > MAX_REFCOUNT then Panic ''Exceeded max ref count'' else k)"

fun dec_count_ref :: "nat \<Rightarrow> ('t, 'w, bool) sprog" where
  "dec_count_ref 0 = Hang"
| "dec_count_ref (Suc n) =
     s_fetch_sub 2 (\<lambda>old. checked_sub old 2 (\<lambda>c.
       if c = 0 then Ret True
       else if c = 1 then
         wake_waker (s_compare_exchange 1 2 (\<lambda>r. case r of
             Inr _ \<Rightarrow> Ret False
           | Inl _ \<Rightarrow> dec_count_ref n))
       else Ret False))"

definition inner_try_collect :: "bool \<Rightarrow> ('t, 'w, bool) sprog" where
  "inner_try_collect pending =
     s_load (\<lambda>c.
       if pending \<and> c = 2 then
         s_swap 3 (\<lambda>found. if found = 2 then Ret True else Panic ''assert_eq'')
       else if \<not> pending \<and> c = 3 then Ret True
       else Ret False)"

definition start_poll :: "'w \<Rightarrow> ('t, 'w, unit poll) sprog" where
  "start_poll w =
     s_load (\<lambda>c.
       if c = 3 then Ret (Ready ())
       else store_waker w
         (s_fetch_sub 2 (\<lambda>old. checked_sub old 2 (\<lambda>c.
            if c = 1 then
              clear_waker (s_swap 3 (\<lambda>c.
                if c = 1 then Ret (Ready ()) else Panic ''Invalid shared state''))
            else Ret Pending))))"

fun resume_loop :: "nat \<Rightarrow> 'w \<Rightarrow> usize \<Rightarrow> ('t, 'w, unit poll) sprog" where
  "resume_loop 0 w c = Hang"
| "resume_loop (Suc n) w c =
     (if c = 2 then Ret (Ready ())
      else if c = 1 then s_wake_by_ref w (Ret Pending)
      else checked_add c 2 (\<lambda>c2.
        s_compare_exchange_weak c c2 (\<lambda>r. case r of
            Inr _ \<Rightarrow>
              clear_waker (store_waker w
                (s_fetch_sub 2 (\<lambda>old. checked_sub old 2 (\<lambda>c.
                   if c = 2 then clear_waker (resume_loop n w c) else resume_loop n w c))))
          | Inl c \<Rightarrow> resume_loop n w c)))"

definition resume_poll :: "nat \<Rightarrow> 'w \<Rightarrow> ('t, 'w, unit poll) sprog" where
  "resume_poll n w = s_load (\<lambda>c. resume_loop n w c)"

fun cancel_loop :: "nat \<Rightarrow> bool \<Rightarrow> usize \<Rightarrow> ('t, 'w, bool) sprog" where
  "cancel_loop 0 reset c = Hang"
| "cancel_loop (Suc n) reset c =
     (if c = 2 then
        (if reset
         then s_swap 3 (\<lambda>found. if found = 2 then Ret True else Panic ''assert_eq'')
         else Ret True)
      else if c = 1 then
        s_compare_exchange_weak 1 (if reset then 5 else 2) (\<lambda>r. case r of
            Inr _ \<Rightarrow> Ret (\<not> reset)
          | Inl c \<Rightarrow> cancel_loop n reset c)
      else checked_add c 2 (\<lambda>c2.
        s_compare_exchange_weak c c2 (\<lambda>r. case r of
            Inr _ \<Rightarrow> clear_waker (Ret False)
          | Inl c \<Rightarrow> cancel_loop n reset c)))"

definition cancel_poll :: "nat \<Rightarrow> bool \<Rightarrow> ('t, 'w, bool) sprog" where
  "cancel_poll n reset = s_load (\<lambda>c. cancel_loop n reset c)"

definition drop_lender :: "nat \<Rightarrow> bool \<Rightarrow> ('t, 'w, unit) sprog" where
  "drop_lender n pending =
     (let drop_count = s_fetch_sub 3 (\<lambda>old. if old = 3 then s_dealloc (Ret ()) else Ret ()) in
      if pending
      then bind (cancel_poll n False) (\<lambda>l. if l then s_dealloc (Ret ()) else drop_count)
      else drop_count)"

declare dec_count_ref.simps(2) [simp del] resume_loop.simps(2) [simp del]
  cancel_loop.simps(2) [simp del]

subsection \<open>Lender\<close>

text \<open>There is one allocation; the handle has the flag \<open>pending\<close>.\<close>

record lender =
  pending :: bool

definition lender_new :: "'t \<Rightarrow> lender \<times> ('t, 'w) shared_inner" where
  "lender_new v = (\<lparr>pending = False\<rparr>, shared_inner_new v)"

definition lender_try_collect :: "lender \<Rightarrow> ('t, 'w, lender \<times> bool) sprog" where
  "lender_try_collect l =
     bind (inner_try_collect (pending l)) (\<lambda>b.
       if b then Ret (l\<lparr>pending := False\<rparr>, True) else Ret (l, False))"

text \<open>A reference to the value is the value that is read through it.\<close>

definition lender_get_mut_unchecked :: "lender \<Rightarrow> ('t, 'w, 't) sprog" where
  "lender_get_mut_unchecked l = s_access (\<lambda>s. s) (\<lambda>s. Ret (s_value s))"

definition lender_get_mut :: "lender \<Rightarrow> ('t, 'w, lender \<times> 't option) sprog" where
  "lender_get_mut l =
     bind (lender_try_collect l) (\<lambda>(l, b).
       if b then bind (lender_get_mut_unchecked l) (\<lambda>v. Ret (l, Some v)) else Ret (l, None))"

definition lender_as_ref :: "lender \<Rightarrow> ('t, 'w, 't) sprog" where
  "lender_as_ref l = s_access (\<lambda>s. s) (\<lambda>s. Ret (s_value s))"

definition lender_to_owned :: "lender \<Rightarrow> ('t, 'w, 't) sprog" where
  "lender_to_owned l = lender_as_ref l"

definition lender_drop :: "nat \<Rightarrow> lender \<Rightarrow> ('t, 'w, unit) sprog" where
  "lender_drop n l = drop_lender n (pending l)"

text \<open>\<open>self\<close> is still there when the value has been moved out of its box, and is dropped.\<close>

definition lender_into_inner :: "nat \<Rightarrow> lender \<Rightarrow> ('t, 'w, 't) sprog" where
  "lender_into_inner n l = s_into_inner (\<lambda>v. bind (lender_drop n l) (\<lambda>_. Ret v))"

definition lender_borrow_count :: "lender \<Rightarrow> ('t, 'w, usize) sprog" where
  "lender_borrow_count l = inner_borrow_count"

definition lender_poll_collect :: "nat \<Rightarrow> lender \<Rightarrow> 'w \<Rightarrow> ('t, 'w, lender \<times> unit poll) sprog" where
  "lender_poll_collect n l w =
     bind (if pending l then resume_poll n w else start_poll w)
       (\<lambda>result. Ret (l\<lparr>pending := \<not> is_ready result\<rparr>, result))"

definition lender_cancel_collect :: "nat \<Rightarrow> lender \<Rightarrow> ('t, 'w, unit) sprog" where
  "lender_cancel_collect n l = (if pending l then bind (cancel_poll n True) (\<lambda>_. Ret ()) else Ret ())"

subsection \<open>Shared and SharedRef\<close>

datatype shared = SharedPtr
datatype shared_ref = SharedRefPtr

definition shared_new :: "('t, 'w, shared) sprog" where
  "shared_new = inc_count_ref (Ret SharedPtr)"

definition lender_borrow :: "lender \<Rightarrow> ('t, 'w, shared) sprog" where
  "lender_borrow l = shared_new"

definition lender_borrow_ref :: "lender \<Rightarrow> shared_ref" where
  "lender_borrow_ref l = SharedRefPtr"

definition shared_borrow_count :: "shared \<Rightarrow> ('t, 'w, usize) sprog" where
  "shared_borrow_count h = inner_borrow_count"

definition shared_borrow_ref :: "shared \<Rightarrow> shared_ref" where
  "shared_borrow_ref h = SharedRefPtr"

definition shared_deref :: "shared \<Rightarrow> ('t, 'w, 't) sprog" where
  "shared_deref h = s_access (\<lambda>s. s) (\<lambda>s. Ret (s_value s))"

definition shared_clone :: "shared \<Rightarrow> ('t, 'w, shared) sprog" where
  "shared_clone h = shared_new"

definition shared_drop :: "nat \<Rightarrow> shared \<Rightarrow> ('t, 'w, unit) sprog" where
  "shared_drop n h = bind (dec_count_ref n) (\<lambda>l. if l then s_dealloc (Ret ()) else Ret ())"

definition shared_ref_borrow_count :: "shared_ref \<Rightarrow> ('t, 'w, usize) sprog" where
  "shared_ref_borrow_count r = inner_borrow_count"

definition shared_ref_into_shared :: "shared_ref \<Rightarrow> ('t, 'w, shared) sprog" where
  "shared_ref_into_shared r = shared_new"

definition shared_ref_deref :: "shared_ref \<Rightarrow> ('t, 'w, 't) sprog" where
  "shared_ref_deref r = s_access (\<lambda>s. s) (\<lambda>s. Ret (s_value s))"

subsection \<open>Collect and CollectInto\<close>

text \<open>
  The field of the future: \<open>None\<close> once it has resolved.  \<open>Ok\<close> gives the value and the lender
  as it is then, \<open>Err\<close> the lender.  \<open>park\<close> is the park of the calling thread's listener.
\<close>

type_synonym collect = "lender option"

definition lender_collect :: "lender \<Rightarrow> collect" where
  "lender_collect l = Some l"

definition collect_resolve :: "collect \<Rightarrow> ('t, 'w, lender + (lender \<times> 't)) sprog" where
  "collect_resolve c =
     (case c of
        None \<Rightarrow> Panic ''Cannot call Collect::resolve() after polling''
      | Some l \<Rightarrow> bind (lender_try_collect l) (\<lambda>(l, b).
          if b then bind (lender_get_mut_unchecked l) (\<lambda>v. Ret (Inr (l, v))) else Ret (Inl l)))"

definition collect_wait ::
  "nat \<Rightarrow> 'w \<Rightarrow> ('t, 'w, lock_error + park_result) sprog \<Rightarrow> collect \<Rightarrow>
   ('t, 'w, lender + (lender \<times> 't)) sprog" where
  "collect_wait n w park c =
     (case c of
        None \<Rightarrow> Panic ''Cannot call Collect::wait() after polling''
      | Some l \<Rightarrow> bind (lender_try_collect l) (\<lambda>(l, b).
          if b then bind (lender_get_mut_unchecked l) (\<lambda>v. Ret (Inr (l, v)))
          else bind (block_on_poll n (\<lambda>l. lender_poll_collect n l w) park l) (\<lambda>(l, p). case p of
              Ready _ \<Rightarrow> bind (lender_get_mut_unchecked l) (\<lambda>v. Ret (Inr (l, v)))
            | Pending \<Rightarrow> Ret (Inl l))))"

definition collect_drop :: "nat \<Rightarrow> collect \<Rightarrow> ('t, 'w, unit) sprog" where
  "collect_drop n c = (case c of None \<Rightarrow> Ret () | Some l \<Rightarrow> lender_cancel_collect n l)"

definition collect_poll ::
  "nat \<Rightarrow> collect \<Rightarrow> 'w \<Rightarrow> ('t, 'w, collect \<times> (lender \<times> 't) poll) sprog" where
  "collect_poll n c w =
     (case c of
        None \<Rightarrow> Ret (None, Pending)
      | Some l \<Rightarrow> bind (lender_poll_collect n l w) (\<lambda>(l, p). case p of
            Ready _ \<Rightarrow> bind (lender_get_mut_unchecked l) (\<lambda>v. Ret (None, Ready (l, v)))
          | Pending \<Rightarrow> Ret (Some l, Pending)))"

definition collect_is_terminated :: "collect \<Rightarrow> bool" where
  "collect_is_terminated c = (c = None)"

definition lender_collect_into :: "lender \<Rightarrow> collect" where
  "lender_collect_into l = Some l"

definition collect_into_resolve :: "nat \<Rightarrow> collect \<Rightarrow> ('t, 'w, lender + 't) sprog" where
  "collect_into_resolve n c =
     (case c of
        None \<Rightarrow> Panic ''Cannot call CollectInto::resolve() after polling''
      | Some l \<Rightarrow> bind (lender_try_collect l) (\<lambda>(l, b).
          if b then bind (lender_into_inner n l) (\<lambda>v. Ret (Inr v)) else Ret (Inl l)))"

definition collect_into_wait ::
  "nat \<Rightarrow> 'w \<Rightarrow> ('t, 'w, lock_error + park_result) sprog \<Rightarrow> collect \<Rightarrow>
   ('t, 'w, lender + 't) sprog" where
  "collect_into_wait n w park c =
     (case c of
        None \<Rightarrow> Panic ''Cannot call CollectInto::wait() after polling''
      | Some l \<Rightarrow> bind (lender_try_collect l) (\<lambda>(l, b).
          if b then bind (lender_into_inner n l) (\<lambda>v. Ret (Inr v))
          else bind (block_on_poll n (\<lambda>l. lender_poll_collect n l w) park l) (\<lambda>(l, p). case p of
              Ready _ \<Rightarrow> bind (lender_into_inner n l) (\<lambda>v. Ret (Inr v))
            | Pending \<Rightarrow> Ret (Inl l))))"

definition collect_into_poll ::
  "nat \<Rightarrow> collect \<Rightarrow> 'w \<Rightarrow> ('t, 'w, collect \<times> 't poll) sprog" where
  "collect_into_poll n c w =
     (case c of
        None \<Rightarrow> Ret (None, Pending)
      | Some l \<Rightarrow> bind (lender_poll_collect n l w) (\<lambda>(l, p). case p of
            Ready _ \<Rightarrow> bind (lender_into_inner n l) (\<lambda>v. Ret (None, Ready v))
          | Pending \<Rightarrow> Ret (Some l, Pending)))"

definition collect_into_is_terminated :: "collect \<Rightarrow> bool" where
  "collect_into_is_terminated c = (c = None)"

text \<open>A \<open>CollectInto\<close> that is dropped drops the lender it still has.\<close>

definition collect_into_drop :: "nat \<Rightarrow> collect \<Rightarrow> ('t, 'w, unit) sprog" where
  "collect_into_drop n c = (case c of None \<Rightarrow> Ret () | Some l \<Rightarrow> lender_drop n l)"

lemmas inner_defs = inner_borrow_count_def inc_count_ref_def dec_count_ref.simps(2)
  inner_try_collect_def start_poll_def resume_loop.simps(2) resume_poll_def
  cancel_loop.simps(2) cancel_poll_def drop_lender_def

lemmas lender_defs = lender_try_collect_def lender_get_mut_unchecked_def lender_get_mut_def
  lender_as_ref_def lender_to_owned_def lender_drop_def lender_into_inner_def
  lender_borrow_count_def lender_poll_collect_def lender_cancel_collect_def shared_new_def
  lender_borrow_def shared_borrow_count_def shared_deref_def shared_clone_def shared_drop_def
  collect_resolve_def collect_drop_def collect_poll_def

end
