(* ===== verification/Refcount.thy ===== *)
theory Refcount
  imports Prelude
begin

text \<open>
  Counted allocations: the interface between a reference count and the threads that hold
  references.  A thread is at a place, which has the code it has still to run, the weight of
  the references it holds, a bound on what it can come to hold, and whether it is the one that
  has to release the allocation.  Where every step keeps the books, no interleaving releases
  the allocation early, twice or never.
\<close>

abbreviation sum_of :: "('p \<Rightarrow> nat) \<Rightarrow> 'p list \<Rightarrow> nat" where
  "sum_of f ps \<equiv> sum_list (map f ps)"

declare sum_list_eq_0_iff [simp del]

lemma sum_of_update:
  "i < length ps \<Longrightarrow> sum_of f (ps[i := p]) + f (ps ! i) = sum_of f ps + f p"
proof (induction ps arbitrary: i)
  case (Cons q ps)
  then show ?case by (cases i) (auto simp: ac_simps)
qed simp

lemma sum_of_le: "i < length ps \<Longrightarrow> f (ps ! i) \<le> sum_of f ps"
  by (metis elem_le_sum_list length_map nth_map)

lemma sum_of_others:
  "i < length ps \<Longrightarrow> sum_of f ps = f (ps ! i) + sum_of f (take i ps @ drop (Suc i) ps)"
  by (subst id_take_nth_drop [of i ps]) simp_all

lemma sum_of_mono: "(\<And>p. f p \<le> g p) \<Longrightarrow> sum_of f ps \<le> sum_of g ps"
  by (rule sum_list_mono)

text \<open>What one step of a thread does to the count, to its place and to the allocation.\<close>

definition count_step ::
  "('s \<Rightarrow> nat) \<Rightarrow> ('s \<Rightarrow> nat) \<Rightarrow> ('p \<Rightarrow> nat) \<Rightarrow> ('p \<Rightarrow> nat) \<Rightarrow> ('p \<Rightarrow> nat) \<Rightarrow>
   'p \<Rightarrow> 's \<Rightarrow> 'p \<Rightarrow> 's \<Rightarrow> bool" where
  "count_step cnt released weight reserve releasing p s p' s' =
     (cnt s' + weight p = cnt s + weight p' \<and> reserve p' \<le> reserve p \<and> (cnt s = 0 \<longrightarrow> cnt s' = 0) \<and>
      released s' + releasing p' =
        released s + releasing p + (if cnt s \<noteq> 0 \<and> cnt s' = 0 then 1 else 0))"

text \<open>No thread has panicked, and the allocation is released, once, when every thread is done.\<close>

definition released_when_done :: "('s \<Rightarrow> nat) \<Rightarrow> ('s, unit) config \<Rightarrow> bool" where
  "released_when_done released d =
     ((\<forall>p \<in> set (snd d). \<forall>m. p \<noteq> Panic m) \<and> released (fst d) \<le> 1 \<and>
      (released (fst d) = 1 \<longleftrightarrow> (\<forall>p \<in> set (snd d). p = Ret ())))"

locale counted_threads =
  fixes cnt :: "'s \<Rightarrow> nat" and released :: "'s \<Rightarrow> nat" and code :: "'p \<Rightarrow> ('s, unit) prog"
    and weight :: "'p \<Rightarrow> nat" and reserve :: "'p \<Rightarrow> nat" and releasing :: "'p \<Rightarrow> nat"
    and valid :: "'p \<Rightarrow> bool" and bound :: nat
  assumes code_step: "valid p \<Longrightarrow> tstep (code p) s q s' \<Longrightarrow> released s = 0 \<Longrightarrow>
      cnt s = weight p + sum_of weight others \<Longrightarrow> sum_of reserve (p # others) < bound \<Longrightarrow>
      (releasing p = 0 \<longleftrightarrow> cnt s \<noteq> 0) \<Longrightarrow>
      \<exists>p'. valid p' \<and> q = code p' \<and> count_step cnt released weight reserve releasing p s p' s'"
    and code_done: "valid p \<Longrightarrow> code p = Ret () \<longleftrightarrow> weight p + releasing p = 0"
    and code_calm: "valid p \<Longrightarrow> code p \<noteq> Panic m"
begin

definition counted :: "'s \<Rightarrow> 'p list \<Rightarrow> bool" where
  "counted s ps = (list_all valid ps \<and> cnt s = sum_of weight ps \<and> sum_of reserve ps < bound \<and>
     released s + sum_of releasing ps = (if cnt s = 0 then 1 else 0))"

lemma counted_step:
  assumes c: "counted s ps" and i: "i < length ps" and t: "tstep (code (ps ! i)) s q s'"
  shows "\<exists>ps'. (map code ps)[i := q] = map code ps' \<and> counted s' ps'"
proof -
  let ?p = "ps ! i" and ?others = "take i ps @ drop (Suc i) ps"
  from c i have v: "valid ?p" by (simp add: counted_def list_all_length)
  from c have w: "cnt s = sum_of weight ps" and b: "sum_of reserve ps < bound"
    and r: "released s + sum_of releasing ps = (if cnt s = 0 then 1 else 0)"
    by (simp_all add: counted_def)
  note le = sum_of_le [OF i, of weight] sum_of_le [OF i, of releasing]
  have "code ?p \<noteq> Ret ()" using t by auto
  then have mv: "0 < weight ?p + releasing ?p" by (simp add: code_done [OF v])
  have z: "releasing ?p = 0 \<longleftrightarrow> cnt s \<noteq> 0"
  proof (cases "cnt s = 0")
    case True
    with w le(1) mv show ?thesis by linarith
  next
    case False
    with r le(2) have "releasing ?p = 0" by (simp only: if_False add_is_0)
    with False show ?thesis by simp
  qed
  have f: "released s = 0"
  proof (cases "cnt s = 0")
    case True
    with z r le(2) have "0 < releasing ?p" "released s + sum_of releasing ps = 1" by simp_all
    with le(2) show ?thesis by linarith
  qed (use r in simp)
  have "\<exists>p'. valid p' \<and> q = code p' \<and> count_step cnt released weight reserve releasing ?p s p' s'"
    using b sum_of_others [OF i, of weight] sum_of_others [OF i, of reserve] w z
    by (intro code_step [OF v t f, of ?others]) simp_all
  then obtain p' where v': "valid p'" and q: "q = code p'"
    and st: "count_step cnt released weight reserve releasing ?p s p' s'" by blast
  from c v' have "list_all valid (ps[i := p'])"
    by (auto simp: counted_def list_all_iff dest!: set_update_subset_insert [THEN subsetD])
  then have "counted s' (ps[i := p'])"
    using st w b r sum_of_update [OF i, of weight p'] sum_of_update [OF i, of reserve p']
      sum_of_update [OF i, of releasing p']
    by (auto simp: counted_def count_step_def split: if_splits)
  then show ?thesis by (intro exI [of _ "ps[i := p']"]) (simp add: q map_update)
qed

lemma counted_reach:
  assumes "reach (s, map code ps) d" and "counted s ps"
  shows "\<exists>qs. snd d = map code qs \<and> counted (fst d) qs"
  using assms(1)
proof (induction rule: reach.induct)
  case start
  with assms(2) show ?case by auto
next
  case (step d e)
  then obtain qs where d: "snd d = map code qs" "counted (fst d) qs" by blast
  from step(2) show ?case
  proof cases
    case (thread i ts t p' t')
    with d counted_step [of t qs i p' t'] show ?thesis by auto
  qed
qed

lemma all_done: "list_all valid ps \<Longrightarrow> (\<forall>p \<in> set ps. code p = Ret ()) \<longleftrightarrow> sum_of weight ps = 0 \<and> sum_of releasing ps = 0"
  by (auto simp: code_done sum_list_eq_0_iff list_all_iff)

theorem safe:
  assumes "reach (s, map code ps) d" and "counted s ps"
  shows "released_when_done released d"
proof -
  from counted_reach [OF assms] obtain qs where
    qs: "snd d = map code qs" "counted (fst d) qs" by blast
  then have v: "list_all valid qs" and r: "released (fst d) + sum_of releasing qs = (if cnt (fst d) = 0 then 1 else 0)"
    "cnt (fst d) = sum_of weight qs" by (simp_all add: counted_def)
  have "released (fst d) = 1 \<longleftrightarrow> sum_of weight qs = 0 \<and> sum_of releasing qs = 0"
  proof (cases "cnt (fst d) = 0")
    case True
    with r have "released (fst d) + sum_of releasing qs = 1" "sum_of weight qs = 0"
      by simp_all
    then show ?thesis by (intro iffI) linarith+
  next
    case False
    with r have "released (fst d) = 0" "sum_of weight qs \<noteq> 0" by simp_all
    then show ?thesis by simp
  qed
  with r v all_done [OF v] show ?thesis
    by (auto simp: released_when_done_def qs(1) code_calm list_all_iff split: if_splits)
qed

end

end
