(* ===== verification/SharedCount.thy ===== *)
theory SharedCount
  imports SharedLender Refcount
begin

text \<open>
  The reference count of \<open>SharedInner\<close> under concurrency: any number of threads that clone,
  read and drop borrows, beside the owner dropping its \<open>Lender\<close>, in any interleaving.  A
  thread is described by what it has still to do and the number of borrows it holds; the
  counter is twice the borrows of all threads, and three more while the lender is there.  The
  books are kept by the interface \<open>counted_threads\<close>, interpreted here.
\<close>

datatype share_op = CloneShare | DropShare | ReadShare

text \<open>A thread with \<open>h\<close> borrows follows its script and drops at the end what it still holds.\<close>

fun client :: "share_op list \<Rightarrow> nat \<Rightarrow> ('t, 'w, unit) sprog" where
  "client [] 0 = Ret ()"
| "client [] (Suc h) = bind (shared_drop 1 SharedPtr) (\<lambda>_. client [] h)"
| "client (x # xs) 0 = Ret ()"
| "client (CloneShare # xs) (Suc h) = bind (shared_clone SharedPtr) (\<lambda>_. client xs (Suc (Suc h)))"
| "client (DropShare # xs) (Suc h) = bind (shared_drop 1 SharedPtr) (\<lambda>_. client xs h)"
| "client (ReadShare # xs) (Suc h) = bind (shared_deref SharedPtr) (\<lambda>_. client xs (Suc h))"

lemma client_0 [simp]: "client xs 0 = Ret ()"
  by (cases xs) simp_all

definition owner_thread :: "('t, 'w, unit) sprog" where
  "owner_thread = lender_drop 1 \<lparr>pending = False\<rparr>"

datatype place = At "share_op list" nat | Releasing | Owner

primrec code :: "place \<Rightarrow> ('t, 'w, unit) sprog" where
  "code (At xs h) = client xs h"
| "code Releasing = s_dealloc (Ret ())"
| "code Owner = owner_thread"

primrec weight :: "place \<Rightarrow> nat" where
  "weight (At xs h) = 2 * h" | "weight Releasing = 0" | "weight Owner = 3"

primrec releasing :: "place \<Rightarrow> nat" where
  "releasing (At xs h) = 0" | "releasing Releasing = 1" | "releasing Owner = 0"

text \<open>How many borrows a thread can come to hold; twice this is at least its weight.\<close>

primrec reserve :: "place \<Rightarrow> nat" where
  "reserve (At xs h) = h + length xs" | "reserve Releasing = 0" | "reserve Owner = 2"

lemma weight_reserve: "sum_of weight ps \<le> 2 * sum_of reserve ps"
proof (induction ps)
  case (Cons p ps)
  then show ?case by (cases p) simp_all
qed simp

lemma weight_not_1: "sum_of weight ps \<noteq> 1"
proof (induction ps)
  case (Cons p ps)
  then show ?case by (cases p) (simp_all, presburger)
qed simp

subsection \<open>One step\<close>

lemma unat_minus_small:
  fixes c d :: usize
  assumes "unat d \<le> unat c"
  shows "unat (c - d) = unat c - unat d"
  using assms by (simp add: unat_sub word_le_nat_alt)

lemma unat_plus_small:
  fixes c d :: usize
  assumes "unat c + unat d < 2 ^ 64"
  shows "unat (c + d) = unat c + unat d"
  using assms by (subst unat_add_lem [symmetric]) simp_all

lemma unat_eq_numeral:
  fixes c :: usize
  shows "unat c = 0 \<longleftrightarrow> c = 0" "unat c = 1 \<longleftrightarrow> c = 1" "unat c = 2 \<longleftrightarrow> c = 2" "unat c = 3 \<longleftrightarrow> c = 3"
  by (simp_all add: word_unat_eq_iff)

lemma drop_code:
  "bind (shared_drop 1 SharedPtr) f = Act (\<lambda>s. s\<lparr>count := count s - 2\<rparr>) (\<lambda>s.
     if s_freed s \<noteq> 0 then Panic ''use after free''
     else if count s < 2 then Panic ''attempt to subtract with overflow''
     else if count s = 2 then bind (s_dealloc (Ret ())) f
     else if count s = 3 then bind (bind (wake_waker (s_compare_exchange 1 2 (\<lambda>r. case r of
             Inr _ \<Rightarrow> Ret False
           | Inl _ \<Rightarrow> dec_count_ref 0)))  (\<lambda>l. if l then s_dealloc (Ret ()) else Ret ())) f
     else f ())"
  by (auto simp: shared_drop_def dec_count_ref.simps(2) s_fetch_sub_def s_access_def checked_sub_def fun_eq_iff diff_eq_eq)

lemma clone_code:
  "bind (shared_clone SharedPtr) f = Act (\<lambda>s. s\<lparr>count := count s + 2\<rparr>) (\<lambda>s.
     if s_freed s \<noteq> 0 then Panic ''use after free''
     else if count s > MAX_REFCOUNT then Panic ''Exceeded max ref count'' else f SharedPtr)"
  by (auto simp: shared_clone_def shared_new_def inc_count_ref_def s_fetch_add_def s_access_def fun_eq_iff)

lemma read_code:
  "bind (shared_deref SharedPtr) f = Act (\<lambda>s. s) (\<lambda>s.
     if s_freed s \<noteq> 0 then Panic ''use after free'' else f (s_value s))"
  by (auto simp: shared_deref_def s_access_def fun_eq_iff)

lemma owner_code:
  "owner_thread = Act (\<lambda>s. s\<lparr>count := count s - 3\<rparr>) (\<lambda>s.
     if s_freed s \<noteq> 0 then Panic ''use after free''
     else if count s = 3 then s_dealloc (Ret ()) else Ret ())"
  by (auto simp: owner_thread_def lender_drop_def drop_lender_def s_fetch_sub_def s_access_def fun_eq_iff)


lemma dealloc_bind_Ret: "bind (s_dealloc (Ret ())) (\<lambda>_. Ret ()) = s_dealloc (Ret ())"
  by (auto simp: s_dealloc_def fun_eq_iff)

lemma word_small: fixes c :: usize shows "c < 2 \<longleftrightarrow> unat c < 2" "MAX_REFCOUNT < c \<longleftrightarrow> 2 ^ 63 - 1 < unat c"
  by (simp_all add: word_less_nat_alt MAX_REFCOUNT_def)

lemma drop_step:
  assumes "tstep (bind (shared_drop 1 SharedPtr) (\<lambda>_. client xs g)) s q s'"
    and "s_freed s = 0" and "unat (count s) = 2 * Suc g + r" and "r \<noteq> 1"
  shows "q = code (if count s = 2 then Releasing else At xs g) \<and> s' = s\<lparr>count := count s - 2\<rparr> \<and>
    (count s = 2 \<longrightarrow> g = 0) \<and> unat (count s') + 2 = unat (count s)"
proof -
  from assms(3,4) have n: "unat (count s) \<noteq> 3" "\<not> unat (count s) < 2" "unat (count s) = 2 \<longrightarrow> g = 0"
    by arith+
  then have "count s \<noteq> 3" "\<not> count s < 2" "count s = 2 \<Longrightarrow> g = 0"
    by (simp_all add: word_small unat_eq_numeral [symmetric])
  with assms(1,2) n(2) show ?thesis
    unfolding drop_code by (auto simp: dealloc_bind_Ret unat_minus_small)
qed

lemma clone_step:
  assumes "tstep (bind (shared_clone SharedPtr) (\<lambda>_. client xs h)) s q s'"
    and "s_freed s = 0" and "unat (count s) < 2 ^ 63 - 2"
  shows "q = client xs h \<and> s' = s\<lparr>count := count s + 2\<rparr> \<and> unat (count s') = unat (count s) + 2"
  using assms unfolding clone_code by (auto simp: word_small unat_plus_small)

lemma read_step:
  assumes "tstep (bind (shared_deref SharedPtr) (\<lambda>_. client xs h)) s q s'" and "s_freed s = 0"
  shows "q = client xs h \<and> s' = s"
  using assms unfolding read_code by auto

lemma owner_step:
  assumes "tstep owner_thread s q s'" and "s_freed s = 0" and "3 \<le> unat (count s)"
  shows "q = code (if count s = 3 then Releasing else At [] 0) \<and> s' = s\<lparr>count := count s - 3\<rparr> \<and>
    unat (count s') + 3 = unat (count s)"
  using assms unfolding owner_code by (auto simp: unat_minus_small)

lemma releasing_step:
  assumes "tstep (s_dealloc (Ret ())) s q s'" and "s_freed s = 0"
  shows "q = code (At [] 0) \<and> s_freed s' = 1 \<and> count s' = count s"
  using assms by (auto simp: s_dealloc_def)

abbreviation shared_step :: "place \<Rightarrow> ('t, 'w) shared_inner \<Rightarrow> place \<Rightarrow> ('t, 'w) shared_inner \<Rightarrow> bool" where
  "shared_step \<equiv> count_step (\<lambda>s. unat (count s)) s_freed weight reserve releasing"

lemma code_step:
  assumes t: "tstep (code p) s q s'" and f: "s_freed s = 0"
    and u: "unat (count s) = weight p + sum_of weight others"
    and b: "sum_of reserve (p # others) < 2 ^ 61 + 2"
    and r: "releasing p = 0 \<longleftrightarrow> unat (count s) \<noteq> 0"
  shows "\<exists>p'. q = code p' \<and> shared_step p s p' s'"
proof (cases p)
  case (At xs h)
  then obtain g where h: "h = Suc g" using t by (cases h) auto
  have drop: "\<exists>p'. q = code p' \<and> shared_step p s p' s'"
    if "tstep (bind (shared_drop 1 SharedPtr) (\<lambda>_. client ys g)) s q s'"
      and "length ys \<le> length xs" for ys
    using drop_step [OF that(1) f _ weight_not_1 [of others]] u that(2) At h unat_eq_numeral(3) [of "count s"]
    by (intro exI [of _ "if count s = 2 then Releasing else At ys g"])
       (auto simp: count_step_def f simp del: sum_list_eq_0_iff)
  show ?thesis
  proof (cases xs)
    case Nil
    with t At h drop show ?thesis by simp
  next
    case (Cons x ys)
    show ?thesis
    proof (cases x)
      case CloneShare
      from u b weight_reserve [of "p # others"] have "unat (count s) < 2 ^ 63 - 2" by simp
      with clone_step [OF _ f this, of ys "Suc (Suc g)" q s'] t At h Cons CloneShare r
      show ?thesis by (intro exI [of _ "At ys (Suc (Suc g))"]) (auto simp: count_step_def)
    next
      case DropShare
      with t At h drop Cons show ?thesis by simp
    next
      case ReadShare
      with read_step [OF _ f, of ys "Suc g" q s'] t At h Cons r
      show ?thesis by (intro exI [of _ "At ys (Suc g)"]) (auto simp: count_step_def)
    qed
  qed
next
  case Releasing
  with releasing_step [OF _ f] t r show ?thesis
    by (intro exI [of _ "At [] 0"]) (auto simp: count_step_def f)
next
  case Owner
  with u have "3 \<le> unat (count s)" by simp
  from t Owner have "tstep owner_thread s q s'" by simp
  from owner_step [OF this f \<open>3 \<le> unat (count s)\<close>] have o:
    "q = code (if count s = 3 then Releasing else At [] 0)" "s' = s\<lparr>count := count s - 3\<rparr>"
    "unat (count s') + 3 = unat (count s)" by blast+
  moreover have "unat (count s') = 0 \<longleftrightarrow> count s = 3" using o(3) unat_eq_numeral(4) [of "count s"] by linarith
  ultimately show ?thesis
    by (intro exI [of _ "if count s = 3 then Releasing else At [] 0"]) (auto simp: count_step_def Owner f)
qed

subsection \<open>Every interleaving\<close>

lemma client_Suc: "\<exists>u k. client xs (Suc h) = Act u k"
proof (cases xs)
  case (Cons x ys)
  then show ?thesis by (cases x) (auto simp: drop_code [unfolded One_nat_def] clone_code read_code)
qed (auto simp: drop_code [unfolded One_nat_def])

lemma code_forms:
  fixes m :: string
  shows "(code p :: ('t, 'w, unit) sprog) \<noteq> Panic m"
    and "(code p :: ('t, 'w, unit) sprog) = Ret () \<longleftrightarrow> weight p + releasing p = 0"
proof -
  have "(code p :: ('t, 'w, unit) sprog) \<noteq> Panic m \<and>
      ((code p :: ('t, 'w, unit) sprog) = Ret () \<longleftrightarrow> weight p + releasing p = 0)"
  proof (cases p)
    case (At xs h)
    show ?thesis
    proof (cases h)
      case (Suc g)
      obtain u k where "(client xs (Suc g) :: ('t, 'w, unit) sprog) = Act u k" using client_Suc by blast
      with At Suc show ?thesis by simp
    qed (simp add: At)
  qed (simp_all add: s_dealloc_def owner_code)
  then show "(code p :: ('t, 'w, unit) sprog) \<noteq> Panic m"
    and "(code p :: ('t, 'w, unit) sprog) = Ret () \<longleftrightarrow> weight p + releasing p = 0"
    by simp_all
qed

interpretation shr: counted_threads "\<lambda>s :: ('t, 'w) shared_inner. unat (count s)" s_freed code weight
    reserve releasing "\<lambda>_. True" "2 ^ 61 + 2"
  by unfold_locales (simp add: code_step, simp_all only: code_forms not_False_eq_True)

text \<open>The threads at the start: the owner, and clients that hold some borrows.\<close>

definition lent :: "'t \<Rightarrow> (share_op list \<times> nat) list \<Rightarrow> ('t, 'w) shared_inner" where
  "lent v cs = (shared_inner_new v)\<lparr>count := 3 + of_nat (2 * sum_list (map snd cs))\<rparr>"

definition lent_threads :: "(share_op list \<times> nat) list \<Rightarrow> ('t, 'w, unit) sprog list" where
  "lent_threads cs = owner_thread # map (\<lambda>(xs, h). client xs h) cs"

lemma lent_counted:
  assumes "sum_list (map (\<lambda>(xs, h). h + length xs) cs) < 2 ^ 61"
  shows "shr.counted (lent v cs :: ('t, 'w) shared_inner) (Owner # map (\<lambda>(xs, h). At xs h) cs)"
proof -
  let ?ps = "map (\<lambda>(xs, h). At xs h) cs"
  have m: "sum_of weight ?ps = 2 * sum_list (map snd cs)" "sum_of releasing ?ps = 0"
    "sum_of reserve ?ps = sum_list (map (\<lambda>(xs, h). h + length xs) cs)"
    by (induction cs) auto
  have "sum_list (map snd cs) \<le> sum_list (map (\<lambda>(xs, h). h + length xs) cs)"
    by (rule sum_list_mono) auto
  with assms have "sum_list (map snd cs) < 2 ^ 61" by linarith
  then have "unat (of_nat (3 + 2 * sum_list (map snd cs)) :: usize) = 3 + 2 * sum_list (map snd cs)"
    unfolding unat_of_nat by simp
  then have u: "unat (3 + of_nat (2 * sum_list (map snd cs)) :: usize) = 3 + 2 * sum_list (map snd cs)"
    by simp
  then have "unat (count (lent v cs :: ('t, 'w) shared_inner)) = 3 + 2 * sum_list (map snd cs)"
    by (simp add: lent_def)
  with m assms show ?thesis
    unfolding shr.counted_def by (simp add: lent_def shared_inner_new_def list_all_iff)
qed

definition count_safe :: "(('t, 'w) shared_inner, unit) config \<Rightarrow> bool" where
  "count_safe d = released_when_done s_freed d"

lemma lent_threads_code: "lent_threads cs = map code (Owner # map (\<lambda>(xs, h). At xs h) cs)"
  by (auto simp: lent_threads_def)

text \<open>C4. A lender drops its end while any number of other threads clone, read and drop borrows
  of the value, each starting with borrows of its own, in any interleaving, as long as fewer
  than \<open>2 ^ 61\<close> borrows can come to exist: no thread panics or touches the allocation after
  its release, and the allocation is released exactly when the last thread is done.\<close>

theorem shared_count_safe:
  assumes "sum_list (map (\<lambda>(xs, h). h + length xs) cs) < 2 ^ 61"
    and "reach (lent v cs, lent_threads cs) d"
  shows "count_safe d"
  unfolding count_safe_def
  using assms(2) unfolding lent_threads_code by (rule shr.safe [OF _ lent_counted [OF assms(1)]])

theorem shared_count_safe_witness:
  "count_safe (lent (7 :: nat) [([CloneShare, ReadShare], 1), ([DropShare], 2)] :: (nat, nat) shared_inner,
     lent_threads [([CloneShare, ReadShare], 1), ([DropShare], 2)])"
  by (rule shared_count_safe [OF _ reach.start]) simp

end
