(* ===== verification/SharedRace.thy ===== *)
theory SharedRace
  imports SharedLender Explore
begin

text \<open>
  A lender that waits for its borrows, against a borrow that is dropped at the same time.
  Every interleaving is explored; the faults are shown by a schedule or by a single run.
\<close>

lemma lazy_s_access:
  "s_access u k = s_access u k" "s_load k2 = s_load k2" "s_swap x k2 = s_swap x k2"
  "s_fetch_add x k2 = s_fetch_add x k2" "s_fetch_sub x k2 = s_fetch_sub x k2"
  "s_compare_exchange x y k4 = s_compare_exchange x y k4"
  "s_compare_exchange_weak x y k4 = s_compare_exchange_weak x y k4" "s_emit e k3 = s_emit e k3"
  "x = x' \<Longrightarrow> y = y' \<Longrightarrow> checked_sub x y k2 = checked_sub x' y' k2"
  "x = x' \<Longrightarrow> y = y' \<Longrightarrow> checked_add x y k2 = checked_add x' y' k2"
  "clear_waker k3 = clear_waker k3" "store_waker w k3 = store_waker w k3"
  "wake_waker k3 = wake_waker k3" "s_wake_by_ref w k3 = s_wake_by_ref w k3"
  "s_dealloc k3 = s_dealloc k3" "s_into_inner k5 = s_into_inner k5" "inc_count_ref k3 = inc_count_ref k3"
  by simp_all

lemmas s_numeral_loops = explore_numeral
  dec_count_ref.simps(2) [of "pred_numeral k" for k, folded numeral_eq_Suc]
  resume_loop.simps(2) [of "pred_numeral k" for k, folded numeral_eq_Suc]
  cancel_loop.simps(2) [of "pred_numeral k" for k, folded numeral_eq_Suc]

lemmas s_race_defs = inner_defs lender_defs s_access_defs s_numeral_loops shared_inner_new_def
  MAX_REFCOUNT_def

datatype lend_end = Waited bool "unit poll" | Cancelled | Dropped

type_synonym ('t, 'w) lend_race = "(('t, 'w) shared_inner, lend_end) config"

text \<open>The allocation with one borrow: not waited for, and waited for with the waker \<open>w\<close>.\<close>

definition lent_once :: "'t \<Rightarrow> ('t, 'w) shared_inner" where
  "lent_once v = (shared_inner_new v)\<lparr>count := 5\<rparr>"

definition lent_twice :: "'t \<Rightarrow> ('t, 'w) shared_inner" where
  "lent_twice v = (shared_inner_new v)\<lparr>count := 7\<rparr>"

definition awaited :: "'t \<Rightarrow> 'w \<Rightarrow> ('t, 'w) shared_inner" where
  "awaited v w = (shared_inner_new v)\<lparr>count := 3, s_waker := Some w, s_log := [WakerCloned w]\<rparr>"

definition l_poll :: "bool \<Rightarrow> 'w \<Rightarrow> (('t, 'w) shared_inner, lend_end) prog" where
  "l_poll b w = bind (lender_poll_collect 3 \<lparr>pending = b\<rparr> w) (\<lambda>(l, p). Ret (Waited (pending l) p))"

definition l_drop_share :: "(('t, 'w) shared_inner, lend_end) prog" where
  "l_drop_share = bind (shared_drop 3 SharedPtr) (\<lambda>_. Ret Dropped)"

definition l_cancel :: "(('t, 'w) shared_inner, lend_end) prog" where
  "l_cancel = bind (collect_drop 3 (Some \<lparr>pending = True\<rparr>)) (\<lambda>_. Ret Cancelled)"

definition l_drop_lender :: "bool \<Rightarrow> (('t, 'w) shared_inner, lend_end) prog" where
  "l_drop_lender b = bind (lender_drop 3 \<lparr>pending = b\<rparr>) (\<lambda>_. Ret Cancelled)"

lemmas lend_thread_defs = lent_once_def lent_twice_def awaited_def l_poll_def l_drop_share_def
  l_cancel_def l_drop_lender_def

definition lend_calm :: "('t, 'w) lend_race \<Rightarrow> bool" where
  "lend_calm c = (list_all (\<lambda>p. \<not> panicked p) (snd c) \<and> s_freed (fst c) = 0)"

subsection \<open>Waiting while the last borrows are dropped\<close>

text \<open>What a first poll comes to: it is ready, or the waker has been called.\<close>

definition wait_ok :: "'w \<Rightarrow> ('t, 'w) lend_race \<Rightarrow> bool" where
  "wait_ok w c =
     (lend_calm c \<and>
      (case snd c of
         Ret (Waited b p) # ps \<Rightarrow>
           list_all (\<lambda>q. q = Ret Dropped) ps \<longrightarrow>
             balanced (s_log (fst c)) (s_waker (fst c)) \<and> s_waker (fst c) = None \<and>
             (if p = Ready () then \<not> b \<and> count (fst c) = 3
              else b \<and> count (fst c) = 2 \<and> wakes (s_log (fst c)) = [w])
       | _ \<Rightarrow> True))"

lemma wait_explored: "explore 40 (wait_ok w) (lent_once v, [l_poll False w, l_drop_share])"
  by (simp add: s_race_defs lend_thread_defs wait_ok_def lend_calm_def balanced_def
      cong: lazy_prog lazy_s_access)

lemma wait_twice_explored:
  "explore 40 (wait_ok w) (lent_twice v, [l_poll False w, l_drop_share, l_drop_share])"
  by (simp add: s_race_defs lend_thread_defs wait_ok_def lend_calm_def balanced_def
      cong: lazy_prog lazy_s_access)

definition cancel_ok :: "'w \<Rightarrow> ('t, 'w) lend_race \<Rightarrow> bool" where
  "cancel_ok w c =
     (lend_calm c \<and>
      (snd c = [Ret Cancelled, Ret Dropped] \<longrightarrow>
         count (fst c) = 3 \<and> s_waker (fst c) = None \<and> balanced (s_log (fst c)) None))"

lemma cancel_explored: "explore 40 (cancel_ok w) (awaited v w, [l_cancel, l_drop_share])"
  by (simp add: s_race_defs lend_thread_defs cancel_ok_def lend_calm_def balanced_def
      cong: lazy_prog lazy_s_access)

text \<open>A first poll of a collection while the two borrows of the value are dropped by two other
  threads, in any interleaving: nothing panics or is released, and when all are done the poll
  was ready, with the counter back at 3, or it is pending, its waker has been called once and
  the counter is 2 for the next poll; every waker that was cloned has been used up.\<close>

lemma wait_safe:
  assumes "reach (lent_twice v, [l_poll False w, l_drop_share, l_drop_share]) d"
  shows "wait_ok w d"
  by (rule explore_reach [OF wait_twice_explored assms])

text \<open>C24. A collection that waits for its last borrow is cancelled while that borrow is dropped,
  in any interleaving with up to three turns of the loops: nothing panics or is released, and
  when both are done the counter is 3 again, and the stored waker has been called or dropped,
  not both.\<close>

theorem cancel_safe:
  assumes "reach (awaited v w, [l_cancel, l_drop_share]) d"
  shows "cancel_ok w d"
  by (rule explore_reach [OF cancel_explored assms])

theorem cancel_safe_witness:
  "cancel_ok (5 :: nat) (awaited (7 :: nat) 5, [l_cancel, l_drop_share])"
  by (rule cancel_safe [OF reach.start])

subsection \<open>What goes wrong\<close>

text \<open>
  A second poll raises the count while it replaces the waker.  When the last borrow goes then,
  it sees a count of 3 and tells nobody, and the poll leaves the count at 1, which every later
  poll takes for a borrow in the middle of its drop.
\<close>

lemma repoll_misses_last_drop:
  "\<exists>d. reach (awaited (v :: 't) (w :: 'w), [l_poll True u, l_drop_share]) d \<and>
     snd d = [Ret (Waited True Pending), Ret Dropped] \<and> count (fst d) = 1 \<and>
     s_waker (fst d) = Some u"
proof -
  have "\<exists>d. sched [(0, False), (0, False), (1, False), (0, False), (0, False), (0, False), (0, False),
       (0, False), (0, False)]
      (awaited v w :: ('t, 'w) shared_inner, [l_poll True u, l_drop_share]) = Some d \<and>
     snd d = [Ret (Waited True Pending), Ret Dropped] \<and> count (fst d) = 1 \<and>
     s_waker (fst d) = Some u"
    by (simp add: s_race_defs lend_thread_defs cong: lazy_prog lazy_s_access)
  then show ?thesis using sched_reach by blast
qed

lemma count_1_never_ready:
  assumes "count s = 1" and "s_freed s = 0"
  shows "\<exists>s'. run (lender_poll_collect 1 \<lparr>pending = True\<rparr> w) os s =
     (Returned (\<lparr>pending = True\<rparr>, Pending), s') \<and> count s' = 1 \<and> s_freed s' = 0"
  using assms by (simp add: run_def inner_defs lender_defs s_access_defs)

text \<open>
  The lender is dropped while the last borrow notifies it: \<open>cancel_poll\<close> hands the allocation to
  the borrow, and says that it is the last reference.
\<close>

lemma pending_drop_double_release:
  "\<exists>d m. reach (awaited (v :: 't) (w :: 'w), [l_drop_lender True, l_drop_share]) d \<and>
     snd d = [Ret Cancelled, Panic m] \<and> s_freed (fst d) = 1"
proof -
  have "\<exists>d m. sched [(1, False), (0, False), (0, False), (0, False), (1, False)]
      (awaited v w :: ('t, 'w) shared_inner, [l_drop_lender True, l_drop_share]) = Some d \<and>
     snd d = [Ret Cancelled, Panic m] \<and> s_freed (fst d) = 1"
    by (simp add: s_race_defs lend_thread_defs cong: lazy_prog lazy_s_access)
  then show ?thesis using sched_reach by blast
qed

text \<open>A cancelled collection leaves \<open>pending\<close> set, and the next poll drops a waker that is gone.\<close>

lemma poll_after_cancel_panics:
  "\<exists>m s. run (bind (lender_poll_collect 2 \<lparr>pending = False\<rparr> w) (\<lambda>(l, _).
       bind (collect_drop 2 (Some l)) (\<lambda>_. lender_poll_collect 2 l w)))
     [] (lent_once (v :: 't) :: ('t, 'w) shared_inner) = (Panicked m, s)"
  by (simp add: s_race_defs lend_thread_defs run_def cong: lazy_prog lazy_s_access)

text \<open>
  A collection that becomes ready after waiting leaves the count at 2 and clears \<open>pending\<close>: the
  value cannot be reached by \<open>get_mut\<close> any more, and is never released.
\<close>

lemma collected_lender_is_stuck:
  "\<exists>s. run (bind (lender_poll_collect 2 \<lparr>pending = False\<rparr> w) (\<lambda>(l, _). bind (shared_drop 2 SharedPtr) (\<lambda>_.
       bind (lender_poll_collect 2 l w) (\<lambda>(l, p). bind (lender_get_mut l) (\<lambda>(l, m).
       bind (lender_drop 2 l) (\<lambda>_. Ret (p, m)))))))
     [] (lent_once (v :: 't) :: ('t, 'w) shared_inner) = (Returned (Ready (), None), s) \<and> s_freed s = 0"
  by (simp add: s_race_defs lend_thread_defs run_def cong: lazy_prog lazy_s_access)

text \<open>\<open>into_inner\<close> drops the lender after the box is gone, whatever the state.\<close>

lemma into_inner_use_after_free:
  assumes "s_freed s = 0"
  shows "\<exists>s'. run (lender_into_inner 1 \<lparr>pending = b\<rparr>) os s = (Panicked ''use after free'', s')"
  using assms by (cases b) (simp_all add: run_def inner_defs lender_defs s_access_defs)

end
