(* ===== verification/ThreadPool.thy ===== *)
theory ThreadPool
  imports Prelude "HOL-Library.Multiset"
begin

text \<open>
  \<open>suspend-exec/src/threadpool.rs\<close>.  The state behind the mutex is a record, and each stretch
  of code that holds the mutex is one function on it: \<open>run_boxed\<close>, the top of the loop of
  \<open>run_thread\<close>, the return from a task, the return from a wait, and \<open>start_drain\<close>.  A worker
  is what it does between two such stretches.  A step of the pool is one stretch, so that the
  steps may follow each other in any order; a wait on the condition variable may end at any
  time, as the standard library allows.  Counters are natural numbers, and a decrement of 0
  is the panic of Rust's overflow check.
\<close>

subsection \<open>Configuration\<close>

record pool_config =
  idle_timeout :: "nat option"
  min_count :: nat
  max_count :: "nat option"
  thread_name :: "string option"

definition config_idle_timeout :: "nat option \<Rightarrow> pool_config \<Rightarrow> pool_config" where
  "config_idle_timeout t c = c\<lparr>idle_timeout := t\<rparr>"

definition config_max_count :: "nat option \<Rightarrow> pool_config \<Rightarrow> pool_config" where
  "config_max_count n c = c\<lparr>max_count := n\<rparr>"

definition config_min_count :: "nat \<Rightarrow> pool_config \<Rightarrow> pool_config" where
  "config_min_count n c = c\<lparr>min_count := n\<rparr>"

definition config_thread_name :: "string option \<Rightarrow> pool_config \<Rightarrow> pool_config" where
  "config_thread_name n c = c\<lparr>thread_name := n\<rparr>"

text \<open>\<open>num_cpus::get()\<close> is the argument.\<close>

definition config_default :: "nat \<Rightarrow> pool_config" where
  "config_default num_cpus =
     \<lparr>idle_timeout = Some 500, min_count = num_cpus, max_count = None, thread_name = None\<rparr>"

subsection \<open>The state and its sections\<close>

datatype phase = Active | Drain | Shutdown

record 'k pool_state =
  idle_count :: nat
  panic_count :: nat
  thread_count :: nat
  queue :: "'k list"
  phase :: phase

datatype 'k worker =
    Starting
  | Waiting
  | Running 'k
  | Exited bool

text \<open>\<open>c -= 1\<close>\<close>

definition decrement :: "nat \<Rightarrow> nat option" where
  "decrement n = (if n = 0 then None else Some (n - 1))"

definition may_spawn :: "pool_config \<Rightarrow> 'k pool_state \<Rightarrow> bool" where
  "may_spawn c s =
     ((idle_count s = 0 \<or> idle_count s * 5 < length (queue s)) \<and>
      (thread_count s = 0 \<or> (case max_count c of None \<Rightarrow> True | Some m \<Rightarrow> thread_count s < m)))"

text \<open>The new state and whether a thread was started.\<close>

definition maybe_spawn :: "pool_config \<Rightarrow> 'k pool_state \<Rightarrow> 'k pool_state \<times> bool" where
  "maybe_spawn c s =
     (if may_spawn c s
      then (s\<lparr>idle_count := idle_count s + 1, thread_count := thread_count s + 1\<rparr>, True)
      else (s, False))"

definition run_boxed :: "pool_config \<Rightarrow> 'k \<Rightarrow> 'k pool_state \<Rightarrow> 'k pool_state \<times> bool" where
  "run_boxed c k s = maybe_spawn c (s\<lparr>queue := queue s @ [k]\<rparr>)"

text \<open>The end of \<open>run_thread\<close>, behind the loop.\<close>

definition worker_exit :: "bool \<Rightarrow> 'k pool_state \<Rightarrow> ('k pool_state \<times> 'k worker) option" where
  "worker_exit p s =
     (case (decrement (idle_count s), decrement (thread_count s)) of
        (Some i, Some t) \<Rightarrow> Some (s\<lparr>idle_count := i, thread_count := t\<rparr>, Exited p)
      | _ \<Rightarrow> None)"

text \<open>
  From the top of the loop until the mutex is released, then the new thread if there is one.
  \<open>None\<close> is the panic of an overflow.
\<close>

definition worker_loop ::
  "pool_config \<Rightarrow> 'k pool_state \<Rightarrow> ('k pool_state \<times> 'k worker \<times> bool) option" where
  "worker_loop c s =
     (if phase s = Shutdown then map_option (\<lambda>(s, w). (s, w, False)) (worker_exit False s)
      else (case queue s of
          k # ks \<Rightarrow>
            (case decrement (idle_count s) of
               None \<Rightarrow> None
             | Some i \<Rightarrow> (case maybe_spawn c (s\<lparr>queue := ks, idle_count := i\<rparr>) of
                 (s, b) \<Rightarrow> Some (s, Running k, b)))
        | [] \<Rightarrow>
            if phase s = Drain then map_option (\<lambda>(s, w). (s, w, False)) (worker_exit False s)
            else Some (s, Waiting, False)))"

text \<open>After the task: \<open>p\<close> tells whether it panicked.\<close>

definition worker_returns ::
  "pool_config \<Rightarrow> bool \<Rightarrow> 'k pool_state \<Rightarrow> ('k pool_state \<times> 'k worker \<times> bool) option" where
  "worker_returns c p s =
     (let s = s\<lparr>idle_count := idle_count s + 1\<rparr> in
      if p then map_option (\<lambda>(s, w). (s, w, False))
        (worker_exit True (s\<lparr>panic_count := panic_count s + 1\<rparr>))
      else worker_loop c s)"

text \<open>After the wait: \<open>timed_out\<close> is the result of \<open>wait_timeout\<close>, false for a plain \<open>wait\<close>.\<close>

definition worker_wakes ::
  "pool_config \<Rightarrow> bool \<Rightarrow> 'k pool_state \<Rightarrow> ('k pool_state \<times> 'k worker \<times> bool) option" where
  "worker_wakes c timed_out s =
     (if idle_timeout c \<noteq> None \<and> timed_out \<and> thread_count s > min_count c
      then map_option (\<lambda>(s, w). (s, w, False)) (worker_exit False s)
      else worker_loop c s)"

definition start_drain :: "bool \<Rightarrow> 'k pool_state \<Rightarrow> 'k pool_state" where
  "start_drain shutdown s = s\<lparr>phase := (if shutdown then Shutdown else Drain)\<rparr>"

definition pool_state_new :: "'k pool_state" where
  "pool_state_new = \<lparr>idle_count = 0, panic_count = 0, thread_count = 0, queue = [], phase = Active\<rparr>"

text \<open>\<open>new\<close> starts \<open>min_count\<close> threads before it gives the mutex back.\<close>

fun pre_start :: "nat \<Rightarrow> 'k pool_state \<times> 'k worker list \<Rightarrow> 'k pool_state \<times> 'k worker list" where
  "pre_start 0 x = x"
| "pre_start (Suc n) (s, ws) =
     pre_start n (s\<lparr>idle_count := idle_count s + 1, thread_count := thread_count s + 1\<rparr>, ws @ [Starting])"

definition pool_new :: "pool_config \<Rightarrow> 'k pool_state \<times> 'k worker list" where
  "pool_new c = pre_start (min_count c) (pool_state_new, [])"

text \<open>The name of the thread with index \<open>i\<close>.\<close>

definition DEFAULT_THREAD_NAME :: string where
  "DEFAULT_THREAD_NAME = ''threadpool''"

fun digits :: "nat \<Rightarrow> string" where
  "digits n = (if n < 10 then [char_of (48 + n)] else digits (n div 10) @ [char_of (48 + n mod 10)])"

definition build_thread :: "pool_config \<Rightarrow> nat \<Rightarrow> string \<times> nat" where
  "build_thread c ti =
     (let base_name = (case thread_name c of None \<Rightarrow> DEFAULT_THREAD_NAME | Some n \<Rightarrow> n) in
      (base_name @ ''-'' @ digits ti, ti + 1))"

subsection \<open>Steps\<close>

text \<open>
  The pool with its workers, the tasks that were given to it, those whose run is over, and
  whether a counter has overflowed.
\<close>

record 'k pool =
  pstate :: "'k pool_state"
  workers :: "'k worker list"
  submitted :: "'k list"
  finished :: "'k list"
  overflowed :: bool

definition pool_start :: "pool_config \<Rightarrow> 'k pool" where
  "pool_start c = (case pool_new c of (s, ws) \<Rightarrow>
     \<lparr>pstate = s, workers = ws, submitted = [], finished = [], overflowed = False\<rparr>)"

definition started :: "bool \<Rightarrow> 'k worker list" where
  "started b = (if b then [Starting] else [])"

definition after_section ::
  "nat \<Rightarrow> ('k pool_state \<times> 'k worker \<times> bool) option \<Rightarrow> 'k pool \<Rightarrow> 'k pool" where
  "after_section i r x =
     (case r of
        None \<Rightarrow> x\<lparr>overflowed := True\<rparr>
      | Some (s, w, b) \<Rightarrow> x\<lparr>pstate := s, workers := (workers x)[i := w] @ started b\<rparr>)"

definition submit :: "pool_config \<Rightarrow> 'k \<Rightarrow> 'k pool \<Rightarrow> 'k pool" where
  "submit c k x = (case run_boxed c k (pstate x) of (s, b) \<Rightarrow>
     x\<lparr>pstate := s, workers := workers x @ started b, submitted := submitted x @ [k]\<rparr>)"

text \<open>Tasks are given, and the drain is started, by the owner of a pool that is still there.\<close>

inductive pool_step :: "pool_config \<Rightarrow> 'k pool \<Rightarrow> 'k pool \<Rightarrow> bool" for c where
  submit: "phase (pstate x) = Active \<Longrightarrow> pool_step c x (submit c k x)"
| begins: "i < length (workers x) \<Longrightarrow> workers x ! i = Starting \<Longrightarrow>
    pool_step c x (after_section i (worker_loop c (pstate x)) x)"
| returns: "i < length (workers x) \<Longrightarrow> workers x ! i = Running k \<Longrightarrow>
    pool_step c x (after_section i (worker_returns c p (pstate x)) (x\<lparr>finished := finished x @ [k]\<rparr>))"
| wakes: "i < length (workers x) \<Longrightarrow> workers x ! i = Waiting \<Longrightarrow>
    pool_step c x (after_section i (worker_wakes c t (pstate x)) x)"
| drain: "phase (pstate x) = Active \<Longrightarrow> pool_step c x (x\<lparr>pstate := start_drain sh (pstate x)\<rparr>)"

inductive pool_reach :: "pool_config \<Rightarrow> 'k pool \<Rightarrow> bool" for c where
  start: "pool_reach c (pool_start c)"
| step: "pool_reach c x \<Longrightarrow> pool_step c x y \<Longrightarrow> pool_reach c y"

lemmas section_defs = worker_loop_def worker_returns_def worker_wakes_def worker_exit_def
  maybe_spawn_def decrement_def run_boxed_def

subsection \<open>Counting the workers\<close>

primrec alive :: "'k worker \<Rightarrow> nat" where
  "alive Starting = 1" | "alive Waiting = 1" | "alive (Running k) = 1" | "alive (Exited p) = 0"

primrec idle :: "'k worker \<Rightarrow> nat" where
  "idle Starting = 1" | "idle Waiting = 1" | "idle (Running k) = 0" | "idle (Exited p) = 0"

primrec panics :: "'k worker \<Rightarrow> nat" where
  "panics Starting = 0" | "panics Waiting = 0" | "panics (Running k) = 0" | "panics (Exited p) = of_bool p"

primrec at_work :: "'k worker \<Rightarrow> 'k multiset" where
  "at_work Starting = {#}" | "at_work Waiting = {#}" | "at_work (Running k) = {#k#}" | "at_work (Exited p) = {#}"

abbreviation over :: "('k worker \<Rightarrow> 'a :: comm_monoid_add) \<Rightarrow> 'k worker list \<Rightarrow> 'a" where
  "over f ws \<equiv> sum_list (map f ws)"

lemma over_update:
  fixes f :: "'k worker \<Rightarrow> 'a :: cancel_comm_monoid_add"
  shows "i < length ws \<Longrightarrow> over f (ws[i := w]) + f (ws ! i) = over f ws + f w"
proof (induction ws arbitrary: i)
  case (Cons v ws)
  then show ?case by (cases i) (auto simp: ac_simps)
qed simp

definition thread_bound :: "pool_config \<Rightarrow> nat \<Rightarrow> bool" where
  "thread_bound c n = (case max_count c of None \<Rightarrow> True | Some m \<Rightarrow> n \<le> max (max m 1) (min_count c))"

definition pool_inv :: "pool_config \<Rightarrow> 'k pool \<Rightarrow> bool" where
  "pool_inv c x =
     (thread_count (pstate x) = over alive (workers x) \<and>
      idle_count (pstate x) = over idle (workers x) \<and>
      panic_count (pstate x) = over panics (workers x) \<and>
      thread_bound c (thread_count (pstate x)) \<and>
      mset (submitted x) = mset (finished x) + mset (queue (pstate x)) + over at_work (workers x) \<and>
      \<not> overflowed x)"

lemma over_started [simp]:
  "over alive (started b) = of_bool b" "over idle (started b) = of_bool b"
  "over panics (started b) = 0" "over at_work (started b) = {#}"
  by (simp_all add: started_def)

text \<open>
  What a section does for a worker that counts as idle when it begins: the counters move with
  the worker and with the thread that is started, and the task it takes comes off the queue.
\<close>

definition section_ok :: "pool_config \<Rightarrow> 'k pool_state \<Rightarrow> 'k pool_state \<times> 'k worker \<times> bool \<Rightarrow> bool" where
  "section_ok c s r = (case r of (s', w, b) \<Rightarrow>
     thread_count s' + 1 = thread_count s + alive w + of_bool b \<and>
     idle_count s' + 1 = idle_count s + idle w + of_bool b \<and>
     panic_count s' = panic_count s + panics w \<and>
     (thread_bound c (thread_count s) \<longrightarrow> thread_bound c (thread_count s')) \<and>
     mset (queue s) = mset (queue s') + at_work w)"

lemma worker_exit_ok:
  assumes "0 < idle_count s" and "0 < thread_count s"
  shows "\<exists>s' w. worker_exit p s = Some (s', w) \<and> w = Exited p \<and> thread_count s' + 1 = thread_count s \<and>
    idle_count s' + 1 = idle_count s \<and> panic_count s' = panic_count s \<and> queue s' = queue s"
  using assms by (auto simp: section_defs)

lemma thread_bound_less: "thread_bound c n \<Longrightarrow> m \<le> n \<Longrightarrow> thread_bound c m"
  by (auto simp: thread_bound_def split: option.splits)

lemma worker_exit_section:
  assumes "0 < idle_count s" and "0 < thread_count s"
  shows "\<exists>r. map_option (\<lambda>(s, w). (s, w, False)) (worker_exit False s) = Some r \<and> section_ok c s r"
proof -
  from worker_exit_ok [OF assms, of False] obtain s' where "worker_exit False s = Some (s', Exited False)"
    "thread_count s' + 1 = thread_count s" "idle_count s' + 1 = idle_count s"
    "panic_count s' = panic_count s" "queue s' = queue s" by blast
  then show ?thesis
    by (intro exI [of _ "(s', Exited False, False)"]) (auto simp: section_ok_def elim: thread_bound_less)
qed

lemma maybe_spawn_ok:
  "case maybe_spawn c s of (s', b) \<Rightarrow> thread_count s' = thread_count s + of_bool b \<and>
     idle_count s' = idle_count s + of_bool b \<and> panic_count s' = panic_count s \<and>
     (thread_bound c (thread_count s) \<longrightarrow> thread_bound c (thread_count s')) \<and> queue s' = queue s"
  by (auto simp: maybe_spawn_def may_spawn_def thread_bound_def split: option.splits)

lemma worker_loop_ok:
  assumes "0 < idle_count s" and "0 < thread_count s"
  shows "\<exists>r. worker_loop c s = Some r \<and> section_ok c s r"
proof (cases "phase s = Shutdown")
  case True
  with worker_exit_section [OF assms] show ?thesis by (simp add: worker_loop_def)
next
  case False
  show ?thesis
  proof (cases "queue s")
    case Nil
    with False worker_exit_section [OF assms] show ?thesis
      by (cases "phase s = Drain") (auto simp: worker_loop_def section_ok_def)
  next
    case (Cons k ks)
    let ?t = "s\<lparr>queue := ks, idle_count := idle_count s - 1\<rparr>"
    from assms(1) Cons False have "worker_loop c s =
        (case maybe_spawn c ?t of (s', b) \<Rightarrow> Some (s', Running k, b))"
      by (simp add: worker_loop_def decrement_def)
    moreover obtain s' b where "maybe_spawn c ?t = (s', b)" by fastforce
    ultimately show ?thesis
      using maybe_spawn_ok [of ?t c] Cons assms
      by (intro exI [of _ "(s', Running k, b)"]) (auto simp: section_ok_def)
  qed
qed

lemma worker_wakes_ok:
  assumes "0 < idle_count s" and "0 < thread_count s"
  shows "\<exists>r. worker_wakes c t s = Some r \<and> section_ok c s r"
  using worker_exit_section [OF assms] worker_loop_ok [OF assms] by (simp add: worker_wakes_def)

lemma worker_returns_ok:
  assumes "0 < thread_count s"
  shows "\<exists>r. worker_returns c p s = Some r \<and> section_ok c (s\<lparr>idle_count := idle_count s + 1\<rparr>) r"
proof (cases p)
  case True
  let ?t = "s\<lparr>idle_count := idle_count s + 1, panic_count := panic_count s + 1\<rparr>"
  from worker_exit_ok [of ?t True] assms obtain s' where "worker_exit True ?t = Some (s', Exited True)"
    "thread_count s' + 1 = thread_count s" "idle_count s' + 1 = idle_count ?t"
    "panic_count s' = panic_count s + 1" "queue s' = queue s" by auto
  with True show ?thesis
    by (intro exI [of _ "(s', Exited True, False)"])
       (auto simp: worker_returns_def section_ok_def elim: thread_bound_less)
next
  case False
  with worker_loop_ok [of "s\<lparr>idle_count := idle_count s + 1\<rparr>"] assms show ?thesis
    by (simp add: worker_returns_def)
qed

lemma pre_start_counts:
  "pre_start n (s, ws) = (s\<lparr>idle_count := idle_count s + n, thread_count := thread_count s + n\<rparr>,
     ws @ replicate n Starting)"
  by (induction n arbitrary: s ws) (simp_all add: replicate_append_same)

lemma pool_inv_start: "pool_inv c (pool_start c)"
proof -
  have "over at_work (replicate n Starting) = {#}" for n by (induction n) simp_all
  then show ?thesis
    by (auto simp: pool_inv_def pool_start_def pool_new_def pre_start_counts pool_state_new_def
        thread_bound_def sum_list_replicate split: option.splits)
qed

text \<open>A section of the worker \<open>i\<close>, which is idle (\<open>u = 0\<close>) or comes back from a task.\<close>

lemma after_section_inv:
  assumes "pool_inv c x" and i: "i < length (workers x)" and a: "alive (workers x ! i) = 1"
    and r: "section_ok c (s\<lparr>idle_count := idle_count s + 1 - idle (workers x ! i)\<rparr>) r" and s: "s = pstate x"
    and p: "panics (workers x ! i) = 0"
    and y: "y = x\<lparr>finished := finished x @ ks\<rparr>" and k: "at_work (workers x ! i) = mset ks"
  shows "pool_inv c (after_section i (Some r) y)"
proof -
  obtain s' w b where rr: "r = (s', w, b)" by (cases r)
  note up = over_update [OF i, where w = w]
  have "thread_count s' = over alive ((workers x)[i := w] @ started b)"
    using r assms(1) up [of alive] a by (simp add: rr section_ok_def pool_inv_def s)
  moreover have "idle_count s' = over idle ((workers x)[i := w] @ started b)"
  proof -
    have "idle (workers x ! i) \<le> 1" by (cases "workers x ! i") simp_all
    moreover from r have "idle_count s' + 1 = idle_count s + 1 - idle (workers x ! i) + idle w + of_bool b"
      by (simp add: rr section_ok_def)
    moreover from assms(1) have "idle_count s = over idle (workers x)" by (simp add: pool_inv_def s)
    ultimately have "idle_count s' = over idle ((workers x)[i := w]) + of_bool b"
      using up [of idle] by linarith
    then show ?thesis by simp
  qed
  moreover have "panic_count s' = over panics ((workers x)[i := w] @ started b)"
    using r assms(1) up [of panics] p by (simp add: rr section_ok_def pool_inv_def s)
  moreover have "thread_bound c (thread_count s')"
  proof -
    from assms(1) have "thread_bound c (thread_count s)" by (auto simp: pool_inv_def s)
    with r show ?thesis by (simp add: rr section_ok_def)
  qed
  moreover have "mset (submitted x) = mset (finished x @ ks) + mset (queue s') +
      over at_work ((workers x)[i := w] @ started b)"
    using r assms(1) up [of at_work] k by (simp add: rr section_ok_def pool_inv_def s ac_simps)
  ultimately show ?thesis
    using assms(1) by (simp add: after_section_def rr y pool_inv_def)
qed

lemma over_ge: "i < length ws \<Longrightarrow> (f (ws ! i) :: nat) \<le> over f ws"
  by (metis elem_le_sum_list length_map nth_map)

lemma submit_inv:
  assumes "pool_inv c x"
  shows "pool_inv c (submit c k x)"
proof -
  obtain s' b where m: "maybe_spawn c (pstate x\<lparr>queue := queue (pstate x) @ [k]\<rparr>) = (s', b)" by fastforce
  from assms maybe_spawn_ok [of "pstate x\<lparr>queue := queue (pstate x) @ [k]\<rparr>" c] m show ?thesis
    by (auto simp: submit_def run_boxed_def pool_inv_def)
qed

lemma worker_section_inv:
  assumes "pool_inv c x" and i: "i < length (workers x)"
    and a: "alive (workers x ! i) = 1" "idle (workers x ! i) = 1" "panics (workers x ! i) = 0"
      "at_work (workers x ! i) = {#}"
    and f: "\<And>s. 0 < idle_count s \<Longrightarrow> 0 < thread_count s \<Longrightarrow> \<exists>r. f s = Some r \<and> section_ok c s r"
  shows "pool_inv c (after_section i (f (pstate x)) x)"
proof -
  from over_ge [OF i, of alive] over_ge [OF i, of idle] a assms(1)
  have "0 < idle_count (pstate x)" "0 < thread_count (pstate x)" by (simp_all add: pool_inv_def)
  from f [OF this] obtain r where r: "f (pstate x) = Some r" "section_ok c (pstate x) r" by blast
  have "pool_inv c (after_section i (Some r) x)"
    by (rule after_section_inv [OF assms(1) i a(1) _ refl a(3), where ks = "[]"]) (simp_all add: a r)
  with r(1) show ?thesis by simp
qed

lemma pool_step_inv: "pool_step c x y \<Longrightarrow> pool_inv c x \<Longrightarrow> pool_inv c y"
proof (induction rule: pool_step.induct)
  case (submit x k)
  from submit(2) show ?case by (rule submit_inv)
next
  case (begins i x)
  then show ?case by (intro worker_section_inv worker_loop_ok) simp_all
next
  case (returns i x k p)
  from over_ge [OF returns(1), of alive] returns have "0 < thread_count (pstate x)"
    by (simp add: pool_inv_def)
  from worker_returns_ok [OF this] obtain r where r: "worker_returns c p (pstate x) = Some r"
    "section_ok c (pstate x\<lparr>idle_count := idle_count (pstate x) + 1\<rparr>) r" by blast
  have "pool_inv c (after_section i (Some r) (x\<lparr>finished := finished x @ [k]\<rparr>))"
    by (rule after_section_inv [OF returns(3) returns(1) _ _ refl]) (use returns r in simp_all)
  with r(1) show ?case by simp
next
  case (wakes i x t)
  then show ?case by (intro worker_section_inv worker_wakes_ok) simp_all
next
  case (drain x sh)
  then show ?case by (auto simp: pool_inv_def start_drain_def)
qed

lemma pool_reach_inv: "pool_reach c x \<Longrightarrow> pool_inv c x"
  by (induction rule: pool_reach.induct) (auto intro: pool_inv_start pool_step_inv)

text \<open>C37. In every reachable state of a thread pool the three counters are the number of worker
  threads, of those that are not running a task, and of those that ended in a panic; none of
  their decrements overflows.\<close>

theorem pool_counts:
  assumes "pool_reach c x"
  shows "thread_count (pstate x) = over alive (workers x) \<and>
    idle_count (pstate x) = over idle (workers x) \<and>
    panic_count (pstate x) = over panics (workers x) \<and> \<not> overflowed x"
  using pool_reach_inv [OF assms] by (simp add: pool_inv_def)

definition two_threads :: pool_config where
  "two_threads = \<lparr>idle_timeout = None, min_count = 2, max_count = Some 4, thread_name = None\<rparr>"

lemma pool_start_active: "phase (pstate (pool_start c)) = Active"
  by (simp add: pool_start_def pool_new_def pre_start_counts pool_state_new_def)

lemmas two_threads_active = pool_start_active [of two_threads]

theorem pool_counts_witness:
  "thread_count (pstate (pool_start two_threads :: nat pool)) = 2 \<and>
   over idle (workers (pool_start two_threads :: nat pool)) = 2"
  using pool_counts [OF pool_reach.start, of two_threads]
  by (auto simp: pool_start_def pool_new_def two_threads_def pre_start_counts pool_state_new_def)



text \<open>C10. No task is lost or run twice: in every reachable state the tasks given to the pool are,
  with multiplicity, those whose run is over, those in the queue and those being run.\<close>

theorem pool_tasks_conserved:
  assumes "pool_reach c x"
  shows "mset (submitted x) = mset (finished x) + mset (queue (pstate x)) + over at_work (workers x)"
  using pool_reach_inv [OF assms] by (simp add: pool_inv_def)

theorem pool_tasks_conserved_witness:
  "mset (queue (pstate (submit two_threads (7 :: nat) (pool_start two_threads)))) = {#7#}"
  using pool_tasks_conserved [OF pool_reach.step [OF pool_reach.start pool_step.submit], of two_threads 7]
  by (simp add: two_threads_active submit_def pool_start_def pool_new_def two_threads_def pre_start_counts
      run_boxed_def maybe_spawn_def may_spawn_def pool_state_new_def)

subsection \<open>No task is left behind\<close>

text \<open>
  A worker leaves the queue alone only when it has timed out or its task has panicked, or the
  pool shuts down.
\<close>

definition unforced :: "pool_config \<Rightarrow> 'k pool \<Rightarrow> bool" where
  "unforced c x = (idle_timeout c = None \<and> panic_count (pstate x) = 0 \<and> phase (pstate x) \<noteq> Shutdown)"

definition attended :: "pool_config \<Rightarrow> 'k pool \<Rightarrow> bool" where
  "attended c x = (unforced c x \<and> queue (pstate x) \<noteq> [] \<longrightarrow> 0 < thread_count (pstate x))"

lemma maybe_spawn_fields:
  "maybe_spawn c s = (s', b) \<Longrightarrow> phase s' = phase s \<and> queue s' = queue s \<and> panic_count s' = panic_count s \<and>
     thread_count s \<le> thread_count s' \<and> (idle_count s = 0 \<longrightarrow> 0 < thread_count s')"
  by (auto simp: maybe_spawn_def may_spawn_def split: if_splits)

lemma worker_loop_attends:
  assumes "worker_loop c s = Some (s', w, b)" and "phase s \<noteq> Shutdown" and "0 < thread_count s"
  shows "phase s' = phase s \<and> panic_count s' = panic_count s \<and> (queue s' \<noteq> [] \<longrightarrow> 0 < thread_count s')"
proof (cases "queue s")
  case Nil
  with assms show ?thesis by (auto simp: section_defs split: if_splits)
next
  case (Cons k ks)
  with assms(1,2) obtain i where
    "maybe_spawn c (s\<lparr>queue := ks, idle_count := i\<rparr>) = (s', b)"
    by (auto simp: worker_loop_def split: option.splits prod.splits)
  from maybe_spawn_fields [OF this] assms(3) show ?thesis by simp
qed

lemma worker_loop_phase: "worker_loop c s = Some (s', w, b) \<Longrightarrow> phase s' = phase s \<and> panic_count s' = panic_count s"
  by (auto simp: worker_loop_def worker_exit_def maybe_spawn_def split: if_splits option.splits list.splits)

lemma section_attended:
  assumes r: "f (pstate x) = Some (s', w, b)" and y: "pstate y = pstate x"
    and fr: "phase s' = phase (pstate x)" "panic_count (pstate x) \<le> panic_count s'"
    and at: "unforced c x \<Longrightarrow> panic_count s' = 0 \<Longrightarrow> queue s' \<noteq> [] \<Longrightarrow> 0 < thread_count s'"
  shows "attended c (after_section i (f (pstate x)) y)"
  using assms by (auto simp: attended_def unforced_def after_section_def)

lemma pool_step_attended:
  assumes "pool_step c x y" and "pool_inv c x" and "attended c x"
  shows "attended c y"
  using assms(1)
proof cases
  case (submit k)
  obtain s' b where m: "maybe_spawn c (pstate x\<lparr>queue := queue (pstate x) @ [k]\<rparr>) = (s', b)" by fastforce
  have "over idle (workers x) \<le> over alive (workers x)"
  proof (rule sum_list_mono)
    fix w :: "'a worker" show "idle w \<le> alive w" by (cases w) simp_all
  qed
  moreover from assms(2) have "thread_count (pstate x) = over alive (workers x)"
    "idle_count (pstate x) = over idle (workers x)" by (simp_all add: pool_inv_def)
  ultimately have "thread_count (pstate x) = 0 \<Longrightarrow> idle_count (pstate x) = 0"
    by linarith
  with maybe_spawn_fields [OF m] m submit(1) show ?thesis
    by (cases "thread_count (pstate x) = 0") (auto simp: attended_def unforced_def submit_def run_boxed_def)
next
  case (begins i)
  from over_ge [OF begins(2), of alive] over_ge [OF begins(2), of idle] begins assms(2)
  have p: "0 < idle_count (pstate x)" "0 < thread_count (pstate x)" by (auto simp: pool_inv_def)
  from worker_loop_ok [OF p, of c] obtain s' w b where
    r: "worker_loop c (pstate x) = Some (s', w, b)" by fastforce
  show ?thesis unfolding begins(1)
    by (rule section_attended [where f = "worker_loop c", OF r])
       (use worker_loop_phase [OF r] worker_loop_attends [OF r _ p(2)] in \<open>auto simp: unforced_def\<close>)
next
  case (returns i k p)
  from over_ge [OF returns(2), of alive] returns assms(2) have pos: "0 < thread_count (pstate x)"
    by (auto simp: pool_inv_def)
  from worker_returns_ok [OF pos, of c p] obtain s' w b where
    r: "worker_returns c p (pstate x) = Some (s', w, b)" by fastforce
  show ?thesis unfolding returns(1)
  proof (rule section_attended [where f = "worker_returns c p", OF r])
    show "phase s' = phase (pstate x)" "panic_count (pstate x) \<le> panic_count s'"
      using r worker_loop_phase [of c _ s' w b]
      by (auto simp: worker_returns_def worker_exit_def Let_def split: if_splits option.splits)
    assume "unforced c x" "panic_count s' = 0" "queue s' \<noteq> []"
    with r worker_loop_attends [of c _ s' w b] pos show "0 < thread_count s'"
      by (auto simp: worker_returns_def worker_exit_def unforced_def Let_def split: if_splits option.splits)
  qed simp
next
  case (wakes i t)
  from over_ge [OF wakes(2), of alive] over_ge [OF wakes(2), of idle] wakes assms(2)
  have p: "0 < idle_count (pstate x)" "0 < thread_count (pstate x)" by (auto simp: pool_inv_def)
  from worker_wakes_ok [OF p, of c t] obtain s' w b where
    r: "worker_wakes c t (pstate x) = Some (s', w, b)" by fastforce
  show ?thesis unfolding wakes(1)
  proof (rule section_attended [where f = "worker_wakes c t", OF r])
    show "phase s' = phase (pstate x)" "panic_count (pstate x) \<le> panic_count s'"
      using r worker_loop_phase [of c _ s' w b]
      by (auto simp: worker_wakes_def worker_exit_def split: if_splits option.splits)
    assume "unforced c x" "panic_count s' = 0" "queue s' \<noteq> []"
    with r worker_loop_attends [of c _ s' w b] p show "0 < thread_count s'"
      by (auto simp: worker_wakes_def unforced_def)
  qed simp
next
  case (drain sh)
  with assms(3) show ?thesis by (auto simp: attended_def unforced_def start_drain_def)
qed

lemma pool_reach_attended: "pool_reach c x \<Longrightarrow> attended c x"
proof (induction rule: pool_reach.induct)
  case start
  show ?case by (simp add: attended_def pool_start_def pool_new_def pre_start_counts pool_state_new_def)
next
  case (step x y)
  then show ?case by (blast intro: pool_step_attended pool_reach_inv)
qed

lemma no_work_alive:
  assumes "over alive ws = 0"
  shows "over at_work ws = {#}"
proof -
  have "at_work w = {#}" if "w \<in> set ws" for w
  proof -
    from that assms have "alive w = 0" by simp
    then show ?thesis by (cases w) simp_all
  qed
  moreover have "over at_work vs = {#}" if "\<forall>w \<in> set vs. at_work w = {#}" for vs :: "'a worker list"
    using that by (induction vs) simp_all
  ultimately show ?thesis by blast
qed

lemma queued_attended:
  assumes "pool_reach c x" and "idle_timeout c = None" and "panic_count (pstate x) = 0"
    and "phase (pstate x) \<noteq> Shutdown" and "queue (pstate x) \<noteq> []"
  shows "0 < over alive (workers x)"
  using pool_reach_inv [OF assms(1)] pool_reach_attended [OF assms(1)] assms(2-5)
  by (auto simp: attended_def unforced_def pool_inv_def)

lemma drained_all_run:
  assumes "pool_reach c x" and "over alive (workers x) = 0"
    and "idle_timeout c = None" and "panic_count (pstate x) = 0" and "phase (pstate x) \<noteq> Shutdown"
  shows "mset (finished x) = mset (submitted x)"
proof -
  have "queue (pstate x) = []"
    using queued_attended [OF assms(1,3-5)] assms(2) by (metis less_numeral_extra(3))
  with pool_reach_inv [OF assms(1)] no_work_alive [OF assms(2)] show ?thesis by (simp add: pool_inv_def)
qed



subsection \<open>Tasks that stay in the queue\<close>

text \<open>
  A worker whose wait times out leaves without a look at the queue, and a worker whose task
  panics leaves too: the task that was queued meanwhile has nobody to run it.
\<close>

definition lazy_config :: pool_config where
  "lazy_config = \<lparr>idle_timeout = Some 500, min_count = 0, max_count = None, thread_name = None\<rparr>"

definition single_config :: pool_config where
  "single_config = \<lparr>idle_timeout = None, min_count = 0, max_count = Some 1, thread_name = None\<rparr>"

lemmas pool_eval = pool_start_def pool_new_def pool_state_new_def lazy_config_def single_config_def
  submit_def after_section_def section_defs may_spawn_def started_def

definition stranded :: "'k pool \<Rightarrow> bool" where
  "stranded x = (phase (pstate x) = Active \<and> queue (pstate x) \<noteq> [] \<and> list_all (\<lambda>w. alive w = 0) (workers x))"

lemma timeout_strands_task: "\<exists>x. pool_reach lazy_config x \<and> stranded (x :: 'k pool)"
proof -
  fix j k :: 'k
  let ?a = "submit lazy_config j (pool_start lazy_config)"
  let ?b = "after_section 0 (worker_loop lazy_config (pstate ?a)) ?a"
  let ?c = "after_section 1 (worker_loop lazy_config (pstate ?b)) ?b"
  let ?d = "after_section 0 (worker_returns lazy_config True (pstate ?c)) (?c\<lparr>finished := finished ?c @ [j]\<rparr>)"
  let ?e = "submit lazy_config k ?d"
  let ?f = "after_section 1 (worker_wakes lazy_config True (pstate ?e)) ?e"
  have "pool_reach lazy_config ?a"
    by (rule pool_reach.step [OF pool_reach.start]) (rule pool_step.submit, simp add: pool_eval)
  then have "pool_reach lazy_config ?b"
    by (rule pool_reach.step) (rule pool_step.begins; simp add: pool_eval)
  then have "pool_reach lazy_config ?c"
    by (rule pool_reach.step) (rule pool_step.begins; simp add: pool_eval)
  then have "pool_reach lazy_config ?d"
    by (rule pool_reach.step) (rule pool_step.returns; simp add: pool_eval)
  then have "pool_reach lazy_config ?e"
    by (rule pool_reach.step) (rule pool_step.submit, simp add: pool_eval)
  then have "pool_reach lazy_config ?f"
    by (rule pool_reach.step) (rule pool_step.wakes; simp add: pool_eval)
  moreover have "stranded ?f" by (simp add: pool_eval stranded_def)
  ultimately show ?thesis by blast
qed

lemma panic_strands_task: "\<exists>x. pool_reach single_config x \<and> stranded (x :: 'k pool)"
proof -
  fix j k :: 'k
  let ?a = "submit single_config j (pool_start single_config)"
  let ?b = "submit single_config k ?a"
  let ?c = "after_section 0 (worker_loop single_config (pstate ?b)) ?b"
  let ?d = "after_section 0 (worker_returns single_config True (pstate ?c)) (?c\<lparr>finished := finished ?c @ [j]\<rparr>)"
  have "pool_reach single_config ?a"
    by (rule pool_reach.step [OF pool_reach.start]) (rule pool_step.submit, simp add: pool_eval)
  then have "pool_reach single_config ?b"
    by (rule pool_reach.step) (rule pool_step.submit, simp add: pool_eval)
  then have "pool_reach single_config ?c"
    by (rule pool_reach.step) (rule pool_step.begins; simp add: pool_eval)
  then have "pool_reach single_config ?d"
    by (rule pool_reach.step) (rule pool_step.returns; simp add: pool_eval)
  moreover have "stranded ?d" by (simp add: pool_eval stranded_def)
  ultimately show ?thesis by blast
qed

subsection \<open>Thread names\<close>

text \<open>The value that a string of digits denotes.\<close>

definition denotes :: "string \<Rightarrow> nat" where
  "denotes ds = foldl (\<lambda>n d. 10 * n + (of_char d - 48)) 0 ds"

lemma denotes_digits: "denotes (digits n) = n"
  unfolding denotes_def by (induction n rule: digits.induct) (subst digits.simps, simp)

declare digits.simps [simp del]

text \<open>The worker threads of a pool have different names: the name with index \<open>i\<close> determines
  \<open>i\<close>, and each call of \<open>build_thread\<close> uses the next index.\<close>

lemma thread_names_distinct:
  "(fst (build_thread c i) = fst (build_thread c j)) = (i = j) \<and> snd (build_thread c i) = i + 1"
proof -
  have "digits i = digits j \<longleftrightarrow> i = j" using denotes_digits [of i] denotes_digits [of j] by metis
  then show ?thesis by (simp add: build_thread_def Let_def)
qed

end
