(* ===== verification/AsyncStream.thy ===== *)
theory AsyncStream
  imports CoreTypes
begin

text \<open>
  \<open>suspend-channel/src/async_stream.rs\<close>.  The thread-local \<open>CHANNEL\<close> is a pointer into the
  stack frames of the calls of \<open>stream_poll\<close> in progress: the frames are a list, the pointer
  is an index or null.  A generator, the future that an \<open>async\<close> block is compiled to, is the
  list of what it has still to do at its await points; it may forward another stream and so
  nest one \<open>stream_poll\<close> in another.  A panic is \<open>Inl\<close> of its message and of the state that
  is left once it has unwound the frames.
\<close>

subsection \<open>The channel of the running poll\<close>

record 'v tls =
  channel :: "nat option"
  frames :: "'v option list"

type_synonym ('v, 'a) fallible = "(string \<times> 'v tls) + 'a"

definition stream_enter :: "'v tls \<Rightarrow> 'v tls" where
  "stream_enter s = s\<lparr>frames := frames s @ [None], channel := Some (length (frames s))\<rparr>"

definition stream_leave :: "nat option \<Rightarrow> 'v tls \<Rightarrow> 'v option \<times> 'v tls" where
  "stream_leave prev s = (last (frames s), s\<lparr>frames := butlast (frames s), channel := prev\<rparr>)"

definition stream_poll ::
  "('v tls \<Rightarrow> ('v, 'v tls \<times> 'r) fallible) \<Rightarrow> 'v tls \<Rightarrow> ('v, 'v tls \<times> 'v option \<times> 'r) fallible" where
  "stream_poll poll s =
     (case poll (stream_enter s) of
        Inl (m, s') \<Rightarrow> Inl (m, s'\<lparr>frames := butlast (frames s')\<rparr>)
      | Inr (s', r) \<Rightarrow> (case stream_leave (channel s) s' of (item, s'') \<Rightarrow> Inr (s'', item, r)))"

definition stream_send :: "'v \<Rightarrow> 'v tls \<Rightarrow> ('v, 'v tls) fallible" where
  "stream_send v s =
     (let s' = s\<lparr>channel := None\<rparr> in
      case channel s of
        None \<Rightarrow> Inl (''Invalid async_stream usage: no active channel'', s')
      | Some p \<Rightarrow>
          (let s'' = s'\<lparr>frames := (frames s)[p := Some v]\<rparr> in
           if frames s ! p \<noteq> None then Inl (''Invalid async_stream usage: channel filled'', s'')
           else Inr s''))"

definition stream_flush :: "'v tls \<Rightarrow> bool" where
  "stream_flush s = (channel s \<noteq> None)"

subsection \<open>The future of a send\<close>

record stream_flush_fut =
  first :: bool

definition scope_send :: "'v \<Rightarrow> 'v tls \<Rightarrow> ('v, 'v tls \<times> stream_flush_fut) fallible" where
  "scope_send v s = (case stream_send v s of Inl m \<Rightarrow> Inl m | Inr s' \<Rightarrow> Inr (s', \<lparr>first = True\<rparr>))"

definition async_flush_poll :: "stream_flush_fut \<Rightarrow> 'v tls \<Rightarrow> stream_flush_fut \<times> unit poll" where
  "async_flush_poll f s =
     (if first f \<or> \<not> stream_flush s then (f\<lparr>first := False\<rparr>, Pending) else (f, Ready ()))"

subsection \<open>Generators\<close>

text \<open>
  \<open>Send v g\<close> is \<open>send!(v); g\<close>, \<open>Flushing f g\<close> the same once the value is out and its future
  awaited, \<open>Sleep g\<close> an await of something else that is pending once, \<open>Forward h g\<close> a loop
  that sends on what the stream of the generator \<open>h\<close> yields, \<open>Fail e\<close> the end of a
  \<open>try_stream!\<close> block in an error, and \<open>Crash\<close> a panic of the block itself.
\<close>

datatype 'v gen =
    Finish
  | Fail 'v
  | Crash
  | Send 'v "'v gen"
  | Flushing stream_flush_fut "'v gen"
  | Sleep "'v gen"
  | Forward "'v gen" "'v gen"

text \<open>\<open>send(v).await\<close> up to the first poll of the future.\<close>

definition send_await :: "'v \<Rightarrow> 'v gen \<Rightarrow> 'v tls \<Rightarrow> ('v, 'v tls \<times> 'v gen \<times> unit poll) fallible" where
  "send_await v g s =
     (case scope_send v s of
        Inl m \<Rightarrow> Inl m
      | Inr (s', f) \<Rightarrow> (case async_flush_poll f s' of (f', p) \<Rightarrow> Inr (s', Flushing f' g, p)))"

text \<open>
  One poll of the future of a generator.  When the inner stream of \<open>Forward\<close> completes it goes
  on with what follows; an item that came with the completion is sent first.
\<close>

fun gen_poll :: "'v gen \<Rightarrow> 'v tls \<Rightarrow> ('v, 'v tls \<times> 'v gen \<times> unit poll) fallible" where
  "gen_poll Finish s = Inr (s, Finish, Ready ())"
| "gen_poll (Fail e) s = (case stream_send e s of Inl m \<Rightarrow> Inl m | Inr s' \<Rightarrow> Inr (s', Finish, Ready ()))"
| "gen_poll Crash s = Inl (''panic'', s)"
| "gen_poll (Send v g) s = send_await v g s"
| "gen_poll (Flushing f g) s =
     (case async_flush_poll f s of
        (f', Pending) \<Rightarrow> Inr (s, Flushing f' g, Pending)
      | (f', Ready _) \<Rightarrow> gen_poll g s)"
| "gen_poll (Sleep g) s = Inr (s, g, Pending)"
| "gen_poll (Forward h g) s =
     (case gen_poll h (stream_enter s) of
        Inl (m, s1) \<Rightarrow> Inl (m, s1\<lparr>frames := butlast (frames s1)\<rparr>)
      | Inr (s1, h', p) \<Rightarrow>
          (case stream_leave (channel s) s1 of (item, s2) \<Rightarrow>
             case (item, p) of
               (Some v, Ready _) \<Rightarrow> send_await v (Forward Finish g) s2
             | (Some v, Pending) \<Rightarrow> send_await v (Forward h' g) s2
             | (None, Ready _) \<Rightarrow> gen_poll g s2
             | (None, Pending) \<Rightarrow> Inr (s2, Forward h' g, Pending)))"

text \<open>The values that a generator has still to yield.\<close>

primrec yields :: "'v gen \<Rightarrow> 'v list" where
  "yields Finish = []"
| "yields (Fail e) = [e]"
| "yields Crash = []"
| "yields (Send v g) = v # yields g"
| "yields (Flushing f g) = yields g"
| "yields (Sleep g) = yields g"
| "yields (Forward h g) = yields h @ yields g"

text \<open>\<open>make_stream(init)\<close> and \<open>try_stream_fn(init)\<close>: the body ends normally or in an error.\<close>

fun finish_with :: "'v gen \<Rightarrow> 'v gen \<Rightarrow> 'v gen" where
  "finish_with e Finish = e"
| "finish_with e (Fail x) = Fail x"
| "finish_with e Crash = Crash"
| "finish_with e (Send v g) = Send v (finish_with e g)"
| "finish_with e (Flushing f g) = Flushing f (finish_with e g)"
| "finish_with e (Sleep g) = Sleep (finish_with e g)"
| "finish_with e (Forward h g) = Forward h (finish_with e g)"

definition try_stream_fn :: "'t gen \<Rightarrow> ('e + unit) \<Rightarrow> ('e + 't) gen" where
  "try_stream_fn body result =
     finish_with (case result of Inl e \<Rightarrow> Fail (Inl e) | Inr _ \<Rightarrow> Finish) (map_gen Inr body)"

subsection \<open>AsyncStream\<close>

datatype 'v stream_state = Init "'v gen" | Polling "'v gen" | Complete

definition make_stream :: "'v gen \<Rightarrow> 'v stream_state" where
  "make_stream init = Init init"

definition stream_state_fmt :: "'v stream_state \<Rightarrow> string" where
  "stream_state_fmt st = (case st of Init _ \<Rightarrow> ''init'' | Polling _ \<Rightarrow> ''poll'' | Complete \<Rightarrow> ''complete'')"

definition poll_generator ::
  "'v gen \<Rightarrow> 'v tls \<Rightarrow> ('v, 'v tls \<times> 'v stream_state \<times> 'v option poll) fallible" where
  "poll_generator g s =
     (case stream_poll (gen_poll g) s of
        Inl m \<Rightarrow> Inl m
      | Inr (s', optval, g', result) \<Rightarrow>
          Inr (case result of
             Ready _ \<Rightarrow> (s', Complete, Ready optval)
           | Pending \<Rightarrow> (s', Polling g', if optval \<noteq> None then Ready optval else Pending)))"

definition stream_poll_next ::
  "'v stream_state \<Rightarrow> 'v tls \<Rightarrow> ('v, 'v tls \<times> 'v stream_state \<times> 'v option poll) fallible" where
  "stream_poll_next st s =
     (case st of
        Polling g \<Rightarrow> poll_generator g s
      | Init g \<Rightarrow> poll_generator g s
      | Complete \<Rightarrow> Inr (s, Complete, Ready None))"

definition stream_is_terminated :: "'v stream_state \<Rightarrow> bool" where
  "stream_is_terminated st = (case st of Complete \<Rightarrow> True | _ \<Rightarrow> False)"

lemmas stream_defs = stream_enter_def stream_leave_def stream_send_def stream_flush_def
  scope_send_def async_flush_poll_def send_await_def

subsection \<open>One poll of a generator\<close>

text \<open>The frame on top is empty and the pointer is at it.\<close>

definition ready_frame :: "'v tls \<Rightarrow> bool" where
  "ready_frame s = (\<exists>fs. frames s = fs @ [None] \<and> channel s = Some (length fs))"

text \<open>
  A generator between two polls: no \<open>Flushing\<close> with the flag \<open>first\<close> still set, which a
  generator is in only within a poll.
\<close>

primrec resumable :: "'v gen \<Rightarrow> bool" where
  "resumable Finish = True"
| "resumable (Fail e) = True"
| "resumable Crash = False"
| "resumable (Send v g) = resumable g"
| "resumable (Flushing f g) = (\<not> first f \<and> resumable g)"
| "resumable (Sleep g) = resumable g"
| "resumable (Forward h g) = (resumable h \<and> resumable g)"

text \<open>How many polls a generator takes at most.\<close>

primrec turns_left :: "'v gen \<Rightarrow> nat" where
  "turns_left Finish = 0"
| "turns_left (Fail e) = 1"
| "turns_left Crash = 0"
| "turns_left (Send v g) = 1 + turns_left g"
| "turns_left (Flushing f g) = turns_left g"
| "turns_left (Sleep g) = 1 + turns_left g"
| "turns_left (Forward h g) = turns_left h + turns_left g"

lemma gen_poll_Forward:
  "gen_poll (Forward h g) s =
     (case stream_poll (gen_poll h) s of
        Inl m \<Rightarrow> Inl m
      | Inr (s', item, h', p) \<Rightarrow>
          (case (item, p) of
             (Some v, Ready _) \<Rightarrow> send_await v (Forward Finish g) s'
           | (Some v, Pending) \<Rightarrow> send_await v (Forward h' g) s'
           | (None, Ready _) \<Rightarrow> gen_poll g s'
           | (None, Pending) \<Rightarrow> Inr (s', Forward h' g, Pending)))"
  by (simp add: stream_poll_def split: sum.splits prod.splits option.splits poll.splits)

text \<open>
  What a poll does on a ready frame: it leaves at most one item in the frame, and what has come
  out and what is still to come make up what was to come.
\<close>

definition polled :: "'v gen \<Rightarrow> 'v tls \<Rightarrow> 'v tls \<times> 'v gen \<times> unit poll \<Rightarrow> bool" where
  "polled g s r = (case r of (s', g', p) \<Rightarrow>
     (\<exists>item. s' = s\<lparr>channel := (if item = None then channel s else None),
           frames := butlast (frames s) @ [item]\<rparr> \<and>
        yields g = list_of item @ yields g' \<and> resumable g' \<and> turns_left g' \<le> turns_left g \<and>
        (p = Pending \<or> item \<noteq> None \<longrightarrow> turns_left g' < turns_left g) \<and>
        (p \<noteq> Pending \<longrightarrow> g' = Finish)))"

lemma polled_item:
  assumes "s' = s\<lparr>channel := None, frames := butlast (frames s) @ [Some v]\<rparr>" and "yields g = v # yields g'"
    and "resumable g'" and "turns_left g' < turns_left g" and "p \<noteq> Pending \<longrightarrow> g' = Finish"
  shows "polled g s (s', g', p)"
  using assms unfolding polled_def by (auto intro!: exI [of _ "Some v"])

lemma polled_nothing:
  assumes "ready_frame s" and "yields g = yields g'" and "resumable g'" and "turns_left g' < turns_left g"
  shows "polled g s (s, g', Pending)"
proof -
  from assms(1) obtain fs where "frames s = fs @ [None]" by (auto simp: ready_frame_def)
  then have "s\<lparr>channel := channel s, frames := butlast (frames s) @ [None]\<rparr> = s" by simp
  with assms show ?thesis by (simp add: polled_def exI [of _ "None :: 'v option"] list_of_def)
qed

lemma polled_mono:
  assumes "polled g s r" and "yields h = yields g" and "turns_left g \<le> turns_left h"
  shows "polled h s r"
proof -
  obtain s' g' p where r: "r = (s', g', p)" by (cases r)
  from assms(1) obtain item where
    "s' = s\<lparr>channel := (if item = None then channel s else None), frames := butlast (frames s) @ [item]\<rparr>"
    "yields g = list_of item @ yields g'" "resumable g'" "turns_left g' \<le> turns_left g"
    "p = Pending \<or> item \<noteq> None \<longrightarrow> turns_left g' < turns_left g" "p \<noteq> Pending \<longrightarrow> g' = Finish"
    unfolding polled_def r prod.case by blast
  with assms(2,3) show ?thesis unfolding polled_def r prod.case by (intro exI [of _ item]) auto
qed

lemma send_await_polled:
  assumes "ready_frame s" and "resumable g" and "turns_left g < turns_left h" and "yields h = v # yields g"
  shows "\<exists>r. send_await v g s = Inr r \<and> polled h s r"
  using assms by (auto simp: ready_frame_def stream_defs Let_def intro!: polled_item)

lemma stream_poll_ready:
  assumes "gen_poll g (stream_enter s) = Inr (s', g', p)"
    and "polled g (stream_enter s) (s', g', p)"
  shows "\<exists>item. stream_poll (gen_poll g) s = Inr (s, item, g', p) \<and> yields g = list_of item @ yields g' \<and>
    resumable g' \<and> turns_left g' \<le> turns_left g \<and>
    (p = Pending \<or> item \<noteq> None \<longrightarrow> turns_left g' < turns_left g) \<and> (p \<noteq> Pending \<longrightarrow> g' = Finish)"
  using assms by (auto simp: polled_def stream_poll_def stream_enter_def stream_leave_def)

lemma ready_frame_enter: "ready_frame (stream_enter s)"
  by (simp add: ready_frame_def stream_enter_def)

lemma gen_poll_ok:
  "resumable g \<Longrightarrow> ready_frame s \<Longrightarrow> \<exists>r. gen_poll g s = Inr r \<and> polled g s r"
proof (induction g arbitrary: s)
  case Finish
  then show ?case by (auto simp: polled_def ready_frame_def)
next
  case (Fail e)
  then show ?case by (auto simp: ready_frame_def stream_defs Let_def intro!: polled_item)
next
  case Crash
  then show ?case by simp
next
  case (Send v g)
  with send_await_polled [of s g "Send v g" v] show ?case by simp
next
  case (Flushing f g)
  then have "async_flush_poll f s = (f, Ready ())" by (auto simp: stream_defs ready_frame_def)
  with Flushing show ?case by (fastforce simp: polled_def)
next
  case (Sleep g)
  then show ?case by (auto simp: polled_def ready_frame_def)
next
  case (Forward h g)
  from Forward.IH(1) [of "stream_enter s"] Forward.prems(1) ready_frame_enter obtain s' h' p where
    "gen_poll h (stream_enter s) = Inr (s', h', p)" "polled h (stream_enter s) (s', h', p)" by fastforce
  from stream_poll_ready [OF this] obtain item where
    sp: "stream_poll (gen_poll h) s = Inr (s, item, h', p)" and y: "yields h = list_of item @ yields h'"
    and rs: "resumable h'" "turns_left h' \<le> turns_left h"
      "p = Pending \<or> item \<noteq> None \<longrightarrow> turns_left h' < turns_left h" "p \<noteq> Pending \<longrightarrow> h' = Finish" by blast
  from Forward.prems have g: "resumable g" and r: "ready_frame s" by simp_all
  show ?case
  proof (cases item)
    case (Some v)
    with sp rs(4) have "gen_poll (Forward h g) s = send_await v (Forward h' g) s"
      by (cases p) (simp_all add: gen_poll_Forward del: gen_poll.simps)
    with send_await_polled [OF r, of "Forward h' g" "Forward h g" v] rs y g Some show ?thesis by simp
  next
    case None
    show ?thesis
    proof (cases p)
      case Pending
      with sp None have "gen_poll (Forward h g) s = Inr (s, Forward h' g, Pending)"
        by (simp add: gen_poll_Forward del: gen_poll.simps)
      moreover have "polled (Forward h g) s (s, Forward h' g, Pending)"
        using None Pending rs y g by (intro polled_nothing r) simp_all
      ultimately show ?thesis by simp
    next
      case (Ready u)
      with sp None have "gen_poll (Forward h g) s = gen_poll g s"
        by (simp add: gen_poll_Forward del: gen_poll.simps)
      moreover from rs(4) y None Ready have "yields h = []" by simp
      moreover obtain r where "gen_poll g s = Inr r" "polled g s r" using Forward.IH(2) [OF g r] by blast
      ultimately show ?thesis using polled_mono [of g s r "Forward h g"] by simp
    qed
  qed
qed

subsection \<open>The stream of a generator\<close>

text \<open>\<open>n\<close> polls of a stream: the items, and whether the end was reached.\<close>

fun stream_collect ::
  "nat \<Rightarrow> 'v stream_state \<Rightarrow> 'v tls \<Rightarrow> ('v, 'v tls \<times> 'v stream_state \<times> 'v list \<times> bool) fallible" where
  "stream_collect 0 st s = Inr (s, st, [], False)"
| "stream_collect (Suc n) st s =
     (case stream_poll_next st s of
        Inl m \<Rightarrow> Inl m
      | Inr (s', st', Ready None) \<Rightarrow> Inr (s', st', [], True)
      | Inr (s', st', Ready (Some v)) \<Rightarrow>
          (case stream_collect n st' s' of Inl m \<Rightarrow> Inl m | Inr (s'', st'', vs, e) \<Rightarrow> Inr (s'', st'', v # vs, e))
      | Inr (s', st', Pending) \<Rightarrow> stream_collect n st' s')"

lemma stream_collect_complete: "stream_collect (Suc n) Complete s = Inr (s, Complete, [], True)"
  by (simp add: stream_poll_next_def)

lemma poll_generator_ok:
  assumes "resumable g"
  shows "\<exists>st p. poll_generator g s = Inr (s, st, p) \<and>
    (st = Complete \<and> (p = Ready None \<and> yields g = [] \<or> (\<exists>v. p = Ready (Some v) \<and> yields g = [v] \<and> 0 < turns_left g)) \<or>
     (\<exists>g' item. st = Polling g' \<and> p = (case item of None \<Rightarrow> Pending | Some v \<Rightarrow> Ready (Some v)) \<and>
        yields g = list_of item @ yields g' \<and> resumable g' \<and> turns_left g' < turns_left g))"
proof -
  from gen_poll_ok [OF assms ready_frame_enter, of s] obtain s' g' p where
    "gen_poll g (stream_enter s) = Inr (s', g', p)" "polled g (stream_enter s) (s', g', p)" by fastforce
  from stream_poll_ready [OF this] obtain item where
    r: "stream_poll (gen_poll g) s = Inr (s, item, g', p)" "yields g = list_of item @ yields g'"
      "resumable g'" "p = Pending \<or> item \<noteq> None \<longrightarrow> turns_left g' < turns_left g" "p \<noteq> Pending \<longrightarrow> g' = Finish"
    by blast
  then show ?thesis
    by (cases p; cases item) (auto simp: poll_generator_def intro: exI [of _ item])
qed

lemma stream_collect_ok:
  "resumable g \<Longrightarrow> turns_left g + 2 \<le> n \<Longrightarrow>
     stream_collect n (Polling g) s = Inr (s, Complete, yields g, True)"
proof (induction n arbitrary: g)
  case (Suc n)
  from Suc.prems(2) obtain m where n: "n = Suc m" by (cases n) auto
  from poll_generator_ok [OF Suc.prems(1), of s] show ?case
  proof (elim exE conjE disjE)
    fix st p g' item
    assume r: "poll_generator g s = Inr (s, st, p)" "st = Polling g'"
      "p = (case item of None \<Rightarrow> Pending | Some v \<Rightarrow> Ready (Some v))"
      "yields g = list_of item @ yields g'" "resumable g'" "turns_left g' < turns_left g"
    with Suc.prems(2) have "stream_collect n (Polling g') s = Inr (s, Complete, yields g', True)"
      by (intro Suc.IH) simp_all
    with r show ?thesis by (cases item) (simp_all add: stream_poll_next_def)
  qed (auto simp: stream_poll_next_def n)
qed simp

text \<open>C20. A stream made from a generator yields, over enough polls, exactly the values that the
  generator sends, in their order, including those of the streams that it forwards, then ends;
  and it leaves the thread-local channel as it found it, so that streams nest.\<close>

theorem stream_yields_all:
  assumes "resumable g" and "turns_left g + 2 \<le> n"
  shows "stream_collect n (make_stream g) s = Inr (s, Complete, yields g, True)"
proof -
  from assms(2) obtain m where "n = Suc m" by (cases n) auto
  with stream_collect_ok [OF assms, of s] show ?thesis
    by (simp add: make_stream_def stream_poll_next_def)
qed

theorem stream_yields_all_witness:
  "stream_collect 8 (make_stream (Send 1 (Forward (Sleep (Send 2 Finish)) (Send (3 :: nat) Finish))))
     \<lparr>channel = None, frames = []\<rparr> = Inr (\<lparr>channel = None, frames = []\<rparr>, Complete, [1, 2, 3], True)"
  using stream_yields_all [of "Send 1 (Forward (Sleep (Send 2 Finish)) (Send (3 :: nat) Finish))" 8
      "\<lparr>channel = None, frames = []\<rparr>"] by simp

text \<open>A second value sent before the stream is polled again panics, and the first one stays in
  the frame.\<close>

lemma send_twice_panics:
  assumes "stream_send v s = Inr s'"
  shows "stream_send w s' = Inl (''Invalid async_stream usage: no active channel'', s')"
  using assms by (auto simp: stream_send_def Let_def split: option.splits if_splits)

text \<open>
  A panic in the block leaves the pointer at the frame that it has unwound: a send that follows
  on the thread, through a scope that outlives the stream, writes to a dead stack frame.
\<close>

lemma panic_leaves_dangling_channel:
  "\<exists>s'. stream_poll_next (make_stream Crash) s = Inl (''panic'', s') \<and>
     channel s' = Some (length (frames s')) \<and> stream_flush s'"
  by (simp add: make_stream_def stream_poll_next_def poll_generator_def stream_poll_def stream_defs)

primrec plain :: "'v gen \<Rightarrow> bool" where
  "plain Finish = True"
| "plain (Fail e) = False"
| "plain Crash = False"
| "plain (Send v g) = plain g"
| "plain (Flushing f g) = False"
| "plain (Sleep g) = plain g"
| "plain (Forward h g) = (plain h \<and> plain g)"

lemma plain_map: "plain g \<Longrightarrow> plain (map_gen f g) \<and> yields (map_gen f g) = map f (yields g) \<and>
    turns_left (map_gen f g) = turns_left g"
  by (induction g) simp_all

lemma plain_resumable: "plain g \<Longrightarrow> resumable g"
  by (induction g) simp_all

lemma plain_finish_with:
  "plain g \<Longrightarrow> resumable e \<Longrightarrow> resumable (finish_with e g) \<and> yields (finish_with e g) = yields g @ yields e \<and>
     turns_left (finish_with e g) = turns_left g + turns_left e"
  by (induction e g rule: finish_with.induct) (auto simp: plain_resumable)

text \<open>C39. The stream of a \<open>try_stream!\<close> block yields the values of the block, each as an \<open>Ok\<close>, and
  then the error in which it ended, if any, as the last item.\<close>

theorem try_stream_yields:
  assumes "plain body" and "turns_left body + 3 \<le> n"
  shows "stream_collect n (make_stream (try_stream_fn body result)) s =
    Inr (s, Complete, map Inr (yields body) @ (case result of Inl e \<Rightarrow> [Inl e] | Inr _ \<Rightarrow> []), True)"
proof -
  have "resumable (try_stream_fn body result) \<and> turns_left (try_stream_fn body result) \<le> turns_left body + 1 \<and>
      yields (try_stream_fn body result) =
        map Inr (yields body) @ (case result of Inl e \<Rightarrow> [Inl e] | Inr _ \<Rightarrow> [])"
  proof -
    note m = plain_map [OF assms(1), of Inr]
    then have "plain (map_gen Inr body)" by blast
    note f = plain_finish_with [OF this, of "case result of Inl e \<Rightarrow> Fail (Inl e) | Inr _ \<Rightarrow> Finish"]
    from f m show ?thesis by (cases result) (auto simp: try_stream_fn_def)
  qed
  with stream_collect_ok [of "try_stream_fn body result" n s] assms(2) show ?thesis
    by (cases n) (simp_all add: make_stream_def stream_poll_next_def)
qed

theorem try_stream_yields_witness:
  "stream_collect 4 (make_stream (try_stream_fn (Send (1 :: nat) Finish) (Inl ''bad'')))
     \<lparr>channel = None, frames = []\<rparr> =
     Inr (\<lparr>channel = None, frames = []\<rparr>, Complete, [Inr 1, Inl ''bad''], True)"
  using try_stream_yields [of "Send (1 :: nat) Finish" 4 "Inl ''bad''" "\<lparr>channel = None, frames = []\<rparr>"]
  by simp

end
