(* ===== verification/ParkRules.thy ===== *)
theory ParkRules
  imports CoreTypes Explore
begin

text \<open>
  \<open>suspend-core/src/raw_park/mod.rs\<close>: the interface \<open>RawParker\<close> and what it promises.  A parker
  keeps whether it is acquired and at most one pending notification.  The locale states what
  each operation does when no other thread is in one; \<open>park_ok\<close> states what must hold at every
  moment while a thread parks and others notify it.
\<close>

text \<open>
  Calls of the interface in a row, and what they do to a parker that is a pair: acquired, and
  notified.  \<open>None\<close> is a call out of place: a release of what is not acquired, or a park with no
  notification pending, which waits for another thread.
\<close>

datatype park_op = Acquire | Release | Unpark | Park expiry

datatype park_reply = Locked "lock_error + unit" | IsNew bool | ParkEnded "lock_error + park_result"

fun token_step :: "park_op \<Rightarrow> bool \<times> bool \<Rightarrow> (park_reply \<times> bool \<times> bool) option" where
  "token_step Acquire (h, n) = Some (Locked (if h then Inl Contended else Inr ()), True, n)"
| "token_step Release (h, n) = (if h then Some (Locked (Inr ()), False, n) else None)"
| "token_step Unpark (h, n) = Some (IsNew (\<not> n), h, True)"
| "token_step (Park t) (h, n) = (if n then Some (ParkEnded (Inr Skipped), h, False) else None)"

fun token_run :: "park_op list \<Rightarrow> bool \<times> bool \<Rightarrow> (park_reply list \<times> bool \<times> bool) option" where
  "token_run [] x = Some ([], x)"
| "token_run (c # cs) x =
     (case token_step c x of
        None \<Rightarrow> None
      | Some (r, y) \<Rightarrow> (case token_run cs y of None \<Rightarrow> None | Some (rs, z) \<Rightarrow> Some (r # rs, z)))"

fun park_call ::
  "('s, lock_error + unit) prog \<Rightarrow> ('s, lock_error + unit) prog \<Rightarrow>
   (expiry \<Rightarrow> ('s, lock_error + park_result) prog) \<Rightarrow> ('s, bool) prog \<Rightarrow> park_op \<Rightarrow> ('s, park_reply) prog"
where
  "park_call acquire release park unpark Acquire = bind acquire (\<lambda>r. Ret (Locked r))"
| "park_call acquire release park unpark Release = bind release (\<lambda>r. Ret (Locked r))"
| "park_call acquire release park unpark Unpark = bind unpark (\<lambda>b. Ret (IsNew b))"
| "park_call acquire release park unpark (Park t) = bind (park t) (\<lambda>r. Ret (ParkEnded r))"

fun park_calls :: "(park_op \<Rightarrow> ('s, park_reply) prog) \<Rightarrow> park_op list \<Rightarrow> ('s, park_reply list) prog" where
  "park_calls call [] = Ret []"
| "park_calls call (c # cs) = bind (call c) (\<lambda>r. bind (park_calls call cs) (\<lambda>rs. Ret (r # rs)))"

locale raw_parker =
  fixes acquire :: "('s, lock_error + unit) prog" and release :: "('s, lock_error + unit) prog"
    and park :: "expiry \<Rightarrow> ('s, lock_error + park_result) prog" and unpark :: "('s, bool) prog"
    and held :: "'s \<Rightarrow> bool" and notified :: "'s \<Rightarrow> bool" and idle :: "'s \<Rightarrow> bool"
  assumes acquire_free: "idle s \<Longrightarrow> \<not> held s \<Longrightarrow>
      does acquire os s (\<lambda>r s'. r = Inr () \<and> held s' \<and> notified s' = notified s \<and> idle s')"
    and acquire_held: "idle s \<Longrightarrow> held s \<Longrightarrow> 
      does acquire os s (\<lambda>r s'. r = Inl Contended \<and> held s' \<and> notified s' = notified s \<and> idle s')"
    and release_held: "idle s \<Longrightarrow> held s \<Longrightarrow>
      does release os s (\<lambda>r s'. r = Inr () \<and> \<not> held s' \<and> notified s' = notified s \<and> idle s')"
    and unpark_sets: "idle s \<Longrightarrow>
      does unpark os s (\<lambda>r s'. r = (\<not> notified s) \<and> notified s' \<and> held s' = held s \<and> idle s')"
    and park_skips: "idle s \<Longrightarrow> notified s \<Longrightarrow>
      does (park t) os s (\<lambda>r s'. r = Inr Skipped \<and> \<not> notified s' \<and> held s' = held s \<and> idle s')"
begin

abbreviation call :: "park_op \<Rightarrow> ('s, park_reply) prog" where
  "call \<equiv> park_call acquire release park unpark"

lemma call_refines:
  assumes "token_step c (held s, notified s) = Some (r, x)" and "idle s"
  shows "does (call c) os s (\<lambda>r' s'. r' = r \<and> (held s', notified s') = x \<and> idle s')"
proof (cases c)
  case Acquire
  show ?thesis
  proof (cases "held s")
    case True
    with assms Acquire show ?thesis by (auto intro!: does_bind [OF acquire_held])
  next
    case False
    with assms Acquire show ?thesis by (auto intro!: does_bind [OF acquire_free])
  qed
next
  case Release
  with assms show ?thesis by (auto intro!: does_bind [OF release_held] split: if_splits)
next
  case Unpark
  with assms show ?thesis by (auto intro!: does_bind [OF unpark_sets])
next
  case (Park t)
  with assms show ?thesis by (auto intro!: does_bind [OF park_skips] split: if_splits)
qed

lemma calls_refine:
  "token_run cs (held s, notified s) = Some (rs, x) \<Longrightarrow> idle s \<Longrightarrow>
     does (park_calls call cs) os s (\<lambda>rs' s'. rs' = rs \<and> (held s', notified s') = x \<and> idle s')"
proof (induction cs arbitrary: s os rs)
  case (Cons c cs)
  from Cons.prems(1) obtain r y qs where c: "token_step c (held s, notified s) = Some (r, y)"
    and cs: "token_run cs y = Some (qs, x)" and rs: "rs = r # qs"
    by (auto split: option.splits)
  show ?case
    unfolding park_calls.simps
  proof (rule does_bind [OF call_refines [OF c Cons.prems(2)]])
    fix r' s' os'
    assume r: "r' = r \<and> (held s', notified s') = y \<and> idle s'"
    with cs have run: "token_run cs (held s', notified s') = Some (qs, x)" by simp
    show "does (bind (park_calls call cs) (\<lambda>rs. Ret (r' # rs))) os' s'
        (\<lambda>rs' s'. rs' = rs \<and> (held s', notified s') = x \<and> idle s')"
      by (rule does_bind [OF Cons.IH [OF run]]) (use r rs in auto)
  qed
qed simp

end

subsection \<open>A thread that parks and threads that notify it\<close>

datatype park_end = Parked "lock_error + park_result" | Notified bool

definition park_thread_code :: "('s, lock_error + park_result) prog \<Rightarrow> ('s, park_end) prog" where
  "park_thread_code p = bind p (\<lambda>r. Ret (Parked r))"

definition notify_thread_code :: "('s, bool) prog \<Rightarrow> ('s, park_end) prog" where
  "notify_thread_code p = bind p (\<lambda>r. Ret (Notified r))"

fun ended :: "('s, 'r) prog \<Rightarrow> bool" where
  "ended (Ret r) = True"
| "ended _ = False"

text \<open>What a thread that is done has added to the notifications and taken from them.\<close>

fun gave :: "('s, park_end) prog \<Rightarrow> nat" where
  "gave (Ret (Notified True)) = 1"
| "gave _ = 0"

fun took :: "('s, park_end) prog \<Rightarrow> nat" where
  "took (Ret (Parked (Inr Skipped))) = 1"
| "took (Ret (Parked (Inr Unparked))) = 1"
| "took _ = 0"

text \<open>
  No panic; the threads are stuck, if there is no spurious wakeup and no timeout, only when all are
  done (or the loop has used up its turns); and when all are done, the notifications that were
  new are those that were consumed and the one that may be pending.
\<close>

definition park_ok :: "('s \<Rightarrow> bool) \<Rightarrow> ('s, park_end) config \<Rightarrow> bool" where
  "park_ok notified c =
     (case snd c of
        [] \<Rightarrow> True
      | p # ps \<Rightarrow>
          list_all (\<lambda>q. \<not> panicked q) (p # ps) \<and>
          (list_all (\<lambda>q. thread_step q False (fst c) = None) (p # ps) \<longrightarrow>
             p = Hang \<or> list_all ended (p # ps)) \<and>
          (list_all ended (p # ps) \<longrightarrow>
             sum_list (map gave (p # ps)) = sum_list (map took (p # ps)) + of_bool (notified (fst c))))"

lemmas park_threads = park_ok_def park_thread_code_def notify_thread_code_def

subsection \<open>Times\<close>

text \<open>
  Durations are counted in nanoseconds here: \<open>as_secs\<close> and \<open>subsec_nanos\<close> of the standard
  library, and \<open>timespec\<close> of C with a \<open>time_t\<close> of 64 bits.  \<open>as_time_t\<close> is the cast \<open>as time_t\<close>
  of a \<open>u64\<close>, and \<open>as_u64\<close> the cast back.
\<close>

record timespec =
  tv_sec :: int
  tv_nsec :: int

definition as_secs :: "duration \<Rightarrow> 64 word" where
  "as_secs d = of_nat (d div 1000000000)"

definition subsec_nanos :: "duration \<Rightarrow> int" where
  "subsec_nanos d = int (d mod 1000000000)"

definition as_time_t :: "64 word \<Rightarrow> int" where
  "as_time_t w = sint w"

definition as_u64 :: "int \<Rightarrow> 64 word" where
  "as_u64 i = word_of_int i"

lemma as_u64_as_time_t [simp]: "as_u64 (as_time_t w) = w"
  by (simp add: as_u64_def as_time_t_def)

definition debug_assert :: "bool \<Rightarrow> ('s, 'r) prog \<Rightarrow> ('s, 'r) prog" where
  "debug_assert b k = (if b then k else Panic ''assertion failed'')"

end
