(* ===== verification/ParkRace.thy ===== *)
theory ParkRace
  imports ParkRules Refcount "HOL-Library.Multiset"
begin

text \<open>
  A thread that parks while any number of others notify it, for every parker: the interface
  between the code of a parker, cut at the places of its threads, and what its users rely on.
  The invariant of a parker sees the place of the thread that parks and the places of those
  that notify it, which are not told apart.
\<close>

declare sum_list_eq_0_iff [simp del]

lemma took_parked: "took (Ret (Parked (Inr r)) :: ('s, park_end) prog) = of_bool (r \<noteq> TimedOut)"
  by (cases r) simp_all

locale notified_park =
  fixes pcode :: "'p \<Rightarrow> ('s, park_end) prog" and ncode :: "'n \<Rightarrow> ('s, park_end) prog"
    and inv :: "'s \<Rightarrow> 'p \<Rightarrow> 'n multiset \<Rightarrow> bool" and notified :: "'s \<Rightarrow> bool"
    and taken :: "'p \<Rightarrow> nat" and given :: "'n \<Rightarrow> nat" and started :: "'n \<Rightarrow> bool"
  assumes parker_step: "inv s p N \<Longrightarrow> tstep (pcode p) s q s' \<Longrightarrow> \<exists>p'. q = pcode p' \<and> inv s' p' N \<and>
      taken p' + of_bool (notified s') = taken p + of_bool (notified s)"
    and notifier_step: "inv s p (add_mset n N) \<Longrightarrow> tstep (ncode n) s q s' \<Longrightarrow>
      \<exists>n'. q = ncode n' \<and> inv s' p (add_mset n' N) \<and> started n' \<and> given n \<le> given n' \<and>
        given n' + of_bool (notified s) = given n + of_bool (notified s') \<and>
        (started n \<or> 0 < given n' \<or> notified s)"
    and stuck: "inv s p N \<Longrightarrow> thread_step (pcode p) False s = None \<Longrightarrow>
      \<forall>n \<in># N. thread_step (ncode n) False s = None \<Longrightarrow>
      pcode p = Hang \<or> (\<forall>n \<in># N. ended (ncode n)) \<and> (ended (pcode p) \<or> taken p = 0 \<and> \<not> notified s)"
    and parker_end: "ended (pcode p) \<Longrightarrow> \<exists>r. pcode p = Ret (Parked r) \<and> took (pcode p) = taken p"
    and notifier_end: "ended (ncode n) \<Longrightarrow> started n \<and> (\<exists>b. ncode n = Ret (Notified b) \<and> given n = of_bool b)"
    and no_panic: "inv s p N \<Longrightarrow> \<not> panicked (pcode p)" "\<not> panicked (ncode n)"
begin

definition holds :: "'s \<Rightarrow> 'p \<Rightarrow> 'n list \<Rightarrow> bool" where
  "holds s p ns =
     (inv s p (mset ns) \<and> sum_of given ns = taken p + of_bool (notified s) \<and>
      (list_ex started ns \<longrightarrow> 0 < sum_of given ns))"

lemma holds_notifier:
  assumes "holds s p ns" and i: "i < length ns" and "tstep (ncode (ns ! i)) s q s'"
  shows "\<exists>n'. q = ncode n' \<and> holds s' p (ns[i := n'])"
proof -
  from assms(1) i have "inv s p (add_mset (ns ! i) (mset ns - {#ns ! i#}))" by (simp add: holds_def)
  from notifier_step [OF this assms(3)] obtain n' where n': "q = ncode n'"
    "inv s' p (mset (ns[i := n']))" "given n' + of_bool (notified s) = given (ns ! i) + of_bool (notified s')"
    "started (ns ! i) \<or> 0 < given n' \<or> notified s" "given (ns ! i) \<le> given n'"
    using i by (auto simp: mset_update)
  have g: "sum_of given (ns[i := n']) + given (ns ! i) = sum_of given ns + given n'"
    by (rule sum_of_update [OF i])
  have "0 < sum_of given ns" if "started (ns ! i)"
    using that assms(1) i by (auto simp: holds_def list_ex_length)
  then have "0 < given n' \<or> 0 < sum_of given ns" using n'(4) assms(1) by (auto simp: holds_def)
  moreover have "given n' \<le> sum_of given (ns[i := n'])" using i by (simp add: sum_of_others)
  ultimately have "0 < sum_of given (ns[i := n'])" using g n'(5) by linarith
  with n' g assms(1) show ?thesis by (intro exI [of _ n']) (auto simp: holds_def)
qed

lemma holds_reach:
  assumes "reach (s, pcode p # map ncode ns) d" and "holds s p ns"
  shows "\<exists>p' ns'. snd d = pcode p' # map ncode ns' \<and> holds (fst d) p' ns' \<and> length ns' = length ns"
  using assms(1)
proof (induction rule: reach.induct)
  case start
  with assms(2) show ?case by auto
next
  case (step d e)
  then obtain p' ns' where d: "snd d = pcode p' # map ncode ns'" "length ns' = length ns"
    and h: "holds (fst d) p' ns'" by blast
  from step(2) show ?case
  proof cases
    case (thread i ps t q t')
    show ?thesis
    proof (cases i)
      case 0
      with thread d h parker_step [of t p' _ q t'] show ?thesis by (fastforce simp: holds_def)
    next
      case (Suc j)
      with thread d have "j < length ns'" "tstep (ncode (ns' ! j)) t q t'" by simp_all
      with holds_notifier [of t p' ns' j q t'] thread h obtain n' where
        "q = ncode n'" "holds t' p' (ns'[j := n'])" by auto
      with thread d Suc show ?thesis
        by (intro exI [of _ p'] exI [of _ "ns'[j := n']"]) (simp add: map_update)
    qed
  qed
qed

lemma not_deadlocked:
  assumes h: "holds s p ns" and ns: "ns \<noteq> []"
    and "thread_step (pcode p) False s = None" "\<forall>n \<in> set ns. thread_step (ncode n) False s = None"
  shows "pcode p = Hang \<or> ended (pcode p) \<and> (\<forall>n \<in> set ns. ended (ncode n))"
proof -
  from h have "inv s p (mset ns)" by (simp add: holds_def)
  from stuck [OF this assms(3)] assms(4)
  have "pcode p = Hang \<or> (\<forall>n \<in> set ns. ended (ncode n)) \<and> (ended (pcode p) \<or> taken p = 0 \<and> \<not> notified s)"
    by simp
  moreover have "0 < taken p + of_bool (notified s)" if "\<forall>n \<in> set ns. ended (ncode n)"
    using that h notifier_end ns by (cases ns) (auto simp: holds_def)
  ultimately show ?thesis by auto
qed

lemma holds_park_ok:
  assumes h: "holds s p ns" and ns: "ns \<noteq> []"
  shows "park_ok notified (s, pcode p # map ncode ns)"
proof -
  have calm: "list_all (\<lambda>q. \<not> panicked q) (pcode p # map ncode ns)"
    using h no_panic by (auto simp: holds_def list_all_iff)
  have books: "sum_of gave (pcode p # map ncode ns) = sum_of took (pcode p # map ncode ns) + of_bool (notified s)"
    if e: "list_all ended (pcode p # map ncode ns)"
  proof -
    from e parker_end have "took (pcode p) = taken p" "gave (pcode p) = 0" by force+
    moreover have "gave (ncode n) = given n \<and> took (ncode n) = 0" if "n \<in> set ns" for n
      using e notifier_end [of n] that by (auto simp: list_all_iff of_bool_def split: if_splits)
    then have "sum_of (\<lambda>n. gave (ncode n)) ns = sum_of given ns" "sum_of (\<lambda>n. took (ncode n)) ns = 0"
      by (simp_all add: sum_list_eq_0_iff cong: map_cong)
    ultimately show ?thesis using h unfolding holds_def by (simp add: comp_def)
  qed
  show ?thesis
    using calm books not_deadlocked [OF h ns] by (auto simp: park_ok_def list_all_iff)
qed

lemma park_races:
  assumes "reach (s, pcode p # replicate k (ncode n)) c" and "0 < k" and "inv s p (replicate_mset k n)"
    and "given n = 0" "\<not> started n" "taken p = 0" "\<not> notified s"
  shows "park_ok notified c"
proof -
  have "holds s p (replicate k n)"
    using assms(3-) by (simp add: holds_def list_ex_iff sum_list_replicate)
  from holds_reach [of s p "replicate k n" c] this assms(1) obtain p' ns where
    "snd c = pcode p' # map ncode ns" "holds (fst c) p' ns" "length ns = k" by auto
  with holds_park_ok [of "fst c" p' ns] assms(2) show ?thesis by (cases c) auto
qed

end

end
