(* ===== verification/LockPark.thy ===== *)
theory LockPark
  imports ParkRace
begin

text \<open>
  A park over a mutex and a condition variable, for \<open>raw_park/default.rs\<close> and
  \<open>raw_park/pthread.rs\<close>: the places of a thread that notifies, and the invariant that both
  parkers keep.  A notifier that has found \<open>STATE_PARK\<close> locks the mutex, unlocks it, and signals.
  It is why no wakeup is lost: while the thread that parks is between its look at the word and
  its wait, it has the mutex, and a notifier that it has not seen is still before its lock.
\<close>

datatype lk_notifier = LkNotify | LkLock | LkUnlock | LkSignal | LkNotified bool

datatype lk_stage =
    Outside | Taking | Marking | LateIn | LateOut | Turning | Sleeping | Awake | Leaving

definition lk_holds :: "lk_stage \<Rightarrow> bool" where
  "lk_holds st = (st \<in> {Marking, LateIn, Turning, Awake, Leaving})"

definition lk_late :: "lk_stage \<Rightarrow> bool" where
  "lk_late st = (st \<in> {Taking, LateIn, LateOut})"

definition lk_parked :: "lk_stage \<Rightarrow> bool" where
  "lk_parked st = (st \<in> {LateIn, LateOut, Turning, Sleeping, Awake})"

definition lk_owed :: "lk_notifier multiset \<Rightarrow> nat" where
  "lk_owed N = count N LkLock + count N LkUnlock + count N LkSignal"

text \<open>\<open>f\<close> and \<open>u\<close>: \<open>STATE_PARK\<close> and \<open>STATE_UNPARK\<close> in the word; \<open>lk\<close>, \<open>w\<close> and \<open>sg\<close>: the mutex is
  locked, a thread waits, and a signal for it is pending.\<close>

definition lk_inv :: "lk_stage \<Rightarrow> bool \<Rightarrow> bool \<Rightarrow> bool \<Rightarrow> bool \<Rightarrow> bool \<Rightarrow> lk_notifier multiset \<Rightarrow> bool" where
  "lk_inv st f u lk w sg N =
     (lk = (lk_holds st \<or> 0 < count N LkUnlock) \<and> count N LkUnlock + of_bool (lk_holds st) \<le> 1 \<and>
      w = (st = Sleeping) \<and> (sg \<longrightarrow> w) \<and> (lk_parked st \<longrightarrow> f) \<and> (lk_late st \<longrightarrow> u) \<and>
      (st = Turning \<and> u \<longrightarrow> 0 < count N LkLock) \<and> (st = Sleeping \<and> u \<and> \<not> sg \<longrightarrow> 0 < lk_owed N))"

lemma lk_stages [simp]:
  "\<not> lk_holds Outside" "\<not> lk_holds Taking" "lk_holds Marking" "lk_holds LateIn" "\<not> lk_holds LateOut" "lk_holds Turning" "\<not> lk_holds Sleeping" "lk_holds Awake" "lk_holds Leaving"
  "\<not> lk_parked Outside" "\<not> lk_parked Taking" "\<not> lk_parked Marking" "lk_parked LateIn" "lk_parked LateOut" "lk_parked Turning" "lk_parked Sleeping" "lk_parked Awake" "\<not> lk_parked Leaving"
  "\<not> lk_late Outside" "lk_late Taking" "\<not> lk_late Marking" "lk_late LateIn" "lk_late LateOut" "\<not> lk_late Turning" "\<not> lk_late Sleeping" "\<not> lk_late Awake" "\<not> lk_late Leaving"
  by (simp_all add: lk_holds_def lk_parked_def lk_late_def)

lemma lk_owed_simps [simp]:
  "lk_owed (add_mset LkNotify N) = lk_owed N" "lk_owed (add_mset LkLock N) = Suc (lk_owed N)"
  "lk_owed (add_mset LkUnlock N) = Suc (lk_owed N)" "lk_owed (add_mset LkSignal N) = Suc (lk_owed N)"
  "lk_owed (add_mset (LkNotified b) N) = lk_owed N" "lk_owed {#} = 0" "lk_owed (replicate_mset k LkNotify) = 0"
  by (simp_all add: lk_owed_def)

lemma lk_owed_pos: "0 < lk_owed N \<longleftrightarrow> LkLock \<in># N \<or> LkUnlock \<in># N \<or> LkSignal \<in># N"
  by (auto simp: lk_owed_def)

declare count_greater_zero_iff [simp del]

lemmas lk_rules = lk_inv_def lk_owed_def

subsection \<open>The steps of a thread that notifies\<close>

lemma lk_notify:
  assumes "lk_inv st f u lk w sg (add_mset LkNotify N)"
  shows "u \<Longrightarrow> lk_inv st f u lk w sg (add_mset (LkNotified False) N)"
    and "\<not> u \<Longrightarrow> \<not> f \<Longrightarrow> lk_inv st f True lk w sg (add_mset (LkNotified True) N)"
    and "\<not> u \<Longrightarrow> f \<Longrightarrow> lk_inv st f True lk w sg (add_mset LkLock N)"
  using assms by (auto simp: lk_rules)

lemma lk_lock:
  "lk_inv st f u False w sg (add_mset LkLock N) \<Longrightarrow> lk_inv st f u True w sg (add_mset LkUnlock N)"
  by (auto simp: lk_rules)

lemma lk_unlock:
  "lk_inv st f u lk w sg (add_mset LkUnlock N) \<Longrightarrow> lk_inv st f u False w sg (add_mset LkSignal N)"
  by (auto simp: lk_rules split: if_splits)

lemma lk_signal:
  "lk_inv st f u lk w sg (add_mset LkSignal N) \<Longrightarrow> lk_inv st f u lk w (sg \<or> w) (add_mset (LkNotified True) N)"
  by (auto simp: lk_rules)

subsection \<open>The steps of the thread that parks\<close>

lemma lk_parker:
  "lk_inv Outside f True lk w sg N \<Longrightarrow> lk_inv Taking f True lk w sg N"
  "lk_inv Taking f u lk w sg N \<Longrightarrow> lk_inv Outside f False lk w sg N"
  "lk_inv Outside f u False w sg N \<Longrightarrow> lk_inv Marking f u True w sg N"
  "lk_inv Marking f True lk w sg N \<Longrightarrow> lk_inv LateIn True True lk w sg N"
  "lk_inv LateIn f u lk w sg N \<Longrightarrow> lk_inv LateOut f u False w sg N"
  "lk_inv LateOut f u lk w sg N \<Longrightarrow> lk_inv Outside f False lk w sg N"
  "lk_inv Marking f False lk w sg N \<Longrightarrow> lk_inv Turning True False lk w sg N"
  "lk_inv Turning f u lk w sg N \<Longrightarrow> lk_inv Sleeping f u False True False N"
  "lk_inv Turning f u lk w sg N \<Longrightarrow> lk_inv Awake f u lk w sg N"
  "lk_inv Sleeping f u False w sg N \<Longrightarrow> lk_inv Awake f u True False False N"
  "lk_inv Awake f False lk w sg N \<Longrightarrow> lk_inv Turning f False lk w sg N"
  "lk_inv Awake f u lk w sg N \<Longrightarrow> lk_inv Leaving False False lk w sg N"
  "lk_inv Leaving f u lk w sg N \<Longrightarrow> lk_inv Outside f u False w sg N"
  by (auto simp: lk_rules split: if_splits)

lemma lk_outside: "lk_inv Outside f u lk w sg N \<Longrightarrow> lk_owed N = 0 \<Longrightarrow> \<not> lk \<and> \<not> w \<and> \<not> sg"
  by (auto simp: lk_inv_def lk_owed_def)

lemma lk_flags:
  "lk_inv Taking f u lk w sg N \<Longrightarrow> u" "lk_inv Marking f u lk w sg N \<Longrightarrow> lk"
  "lk_inv LateIn f u lk w sg N \<Longrightarrow> f \<and> u \<and> lk" "lk_inv LateOut f u lk w sg N \<Longrightarrow> f \<and> u"
  "lk_inv Turning f u lk w sg N \<Longrightarrow> f \<and> lk" "lk_inv Sleeping f u lk w sg N \<Longrightarrow> f"
  "lk_inv Awake f u lk w sg N \<Longrightarrow> f \<and> lk"
  by (auto simp: lk_inv_def)

lemma lk_free: "lk_inv st f u lk w sg N \<Longrightarrow> lk \<Longrightarrow> lk_holds st \<or> LkUnlock \<in># N"
  by (simp add: lk_inv_def count_greater_zero_iff)

lemma lk_asleep: "lk_inv Sleeping f u lk w sg N \<Longrightarrow> u \<Longrightarrow> \<not> sg \<Longrightarrow> LkLock \<in># N \<or> LkUnlock \<in># N \<or> LkSignal \<in># N"
  by (simp add: lk_inv_def lk_owed_pos)

primrec lk_given :: "lk_notifier \<Rightarrow> nat" where
  "lk_given LkNotify = 0" | "lk_given LkLock = 1" | "lk_given LkUnlock = 1" | "lk_given LkSignal = 1"
| "lk_given (LkNotified b) = of_bool b"

end
