(* ===== verification/DefaultPark.thy ===== *)
theory DefaultPark
  imports LockPark
begin

unbundle bit_operations_syntax

text \<open>
  \<open>suspend-core/src/raw_park/default.rs\<close>: the parker over a \<open>Mutex\<close> and a \<open>Condvar\<close> of the
  standard library.  Both are memory that \<open>lock_init\<close> writes: \<open>d_gen\<close> counts how often, and 0
  is uninitialised memory.  A guard is the count at the time of its lock.  No code panics while
  it has the mutex, so the mutex is never poisoned.  A wait on the condition variable may end
  for no reason, and a wait with a timeout at any time, which are choices; the choice \<open>False\<close>
  is to be woken by a notification.  The loop of \<open>park\<close> has \<open>n\<close> turns.
\<close>

definition STATE_FREE_std :: usize where "STATE_FREE_std = 0"
definition STATE_INIT_std :: usize where "STATE_INIT_std = 1"
definition STATE_HELD_std :: usize where "STATE_HELD_std = 2"
definition STATE_PARK_std :: usize where "STATE_PARK_std = 4"
definition STATE_UNPARK_std :: usize where "STATE_UNPARK_std = 8"

lemmas std_state_defs = STATE_FREE_std_def STATE_INIT_std_def STATE_HELD_std_def
  STATE_PARK_std_def STATE_UNPARK_std_def

record std_parker =
  d_state :: usize
  d_gen :: nat
  d_locked :: bool
  d_waiting :: bool
  d_signal :: bool

definition std_park_new :: std_parker where
  "std_park_new = \<lparr>d_state = STATE_FREE_std, d_gen = 0, d_locked = False, d_waiting = False,
     d_signal = False\<rparr>"

type_synonym 'r dprog = "(std_parker, 'r) prog"

definition d_load :: "(usize \<Rightarrow> 'r dprog) \<Rightarrow> 'r dprog" where
  "d_load k = Act (\<lambda>s. s) (\<lambda>s. k (d_state s))"

definition d_swap :: "usize \<Rightarrow> (usize \<Rightarrow> 'r dprog) \<Rightarrow> 'r dprog" where
  "d_swap x k = Act (\<lambda>s. s\<lparr>d_state := x\<rparr>) (\<lambda>s. k (d_state s))"

definition d_fetch_or :: "usize \<Rightarrow> (usize \<Rightarrow> 'r dprog) \<Rightarrow> 'r dprog" where
  "d_fetch_or x k = Act (\<lambda>s. s\<lparr>d_state := d_state s OR x\<rparr>) (\<lambda>s. k (d_state s))"

definition d_fetch_and :: "usize \<Rightarrow> (usize \<Rightarrow> 'r dprog) \<Rightarrow> 'r dprog" where
  "d_fetch_and x k = Act (\<lambda>s. s\<lparr>d_state := d_state s AND x\<rparr>) (\<lambda>s. k (d_state s))"

subsection \<open>The mutex and the condition variable\<close>

definition lock_init :: "'r dprog \<Rightarrow> 'r dprog" where
  "lock_init k =
     Act (\<lambda>s. s\<lparr>d_gen := d_gen s + 1, d_locked := False, d_waiting := False, d_signal := False\<rparr>) (\<lambda>s. k)"

definition lock_acquire :: "(nat \<Rightarrow> 'r dprog) \<Rightarrow> 'r dprog" where
  "lock_acquire k =
     Wait (\<lambda>s. \<not> d_locked s)
       (Act (\<lambda>s. s\<lparr>d_locked := True\<rparr>)
         (\<lambda>s. if d_gen s = 0 then Panic ''uninitialized memory'' else k (d_gen s)))"

definition drop_guard :: "nat \<Rightarrow> 'r dprog \<Rightarrow> 'r dprog" where
  "drop_guard g k =
     Act (\<lambda>s. s\<lparr>d_locked := False\<rparr>)
       (\<lambda>s. if d_gen s \<noteq> g then Panic ''unlock of an overwritten mutex'' else k)"

definition notify_one :: "'r dprog \<Rightarrow> 'r dprog" where
  "notify_one k = Act (\<lambda>s. if d_waiting s then s\<lparr>d_signal := True\<rparr> else s)
     (\<lambda>s. if d_gen s = 0 then Panic ''uninitialized memory'' else k)"

text \<open>
  \<open>GuardImpl::wait\<close>: with a timeout, the first choice is whether it is over already, and the
  second, once the thread waits, whether it comes to its end.
\<close>

definition rewake :: "bool \<Rightarrow> 'r dprog \<Rightarrow> 'r dprog" where
  "rewake early k =
     Wait (\<lambda>s. \<not> d_locked s \<and> (early \<or> d_signal s))
       (Act (\<lambda>s. s\<lparr>d_locked := True, d_waiting := False, d_signal := False\<rparr>) (\<lambda>s. k))"

definition start_wait :: "nat \<Rightarrow> 'r dprog \<Rightarrow> 'r dprog" where
  "start_wait g k =
     Act (\<lambda>s. s\<lparr>d_locked := False, d_waiting := True, d_signal := False\<rparr>)
       (\<lambda>s. if d_gen s \<noteq> g then Panic ''unlock of an overwritten mutex'' else k)"

definition guard_wait :: "nat \<Rightarrow> instant option \<Rightarrow> (bool \<Rightarrow> 'r dprog) \<Rightarrow> 'r dprog" where
  "guard_wait g timeout k =
     (case timeout of
        Some exp \<Rightarrow>
          Pick (\<lambda>past.
            if past then k True
            else start_wait g (Pick (\<lambda>timed_out.
              if timed_out then rewake True (k True) else Pick (\<lambda>early. rewake early (k False)))))
      | None \<Rightarrow> start_wait g (Pick (\<lambda>early. rewake early (k False))))"

subsection \<open>RawParker for ParkImpl\<close>

definition std_acquire :: "(lock_error + unit) dprog" where
  "std_acquire = d_fetch_or STATE_HELD_std (\<lambda>found.
     if found AND STATE_HELD_std = 0 then Ret (Inr ()) else Ret (Inl Contended))"

definition std_release :: "(lock_error + unit) dprog" where
  "std_release = d_fetch_and (NOT STATE_HELD_std) (\<lambda>found.
     debug_assert (found AND STATE_HELD_std \<noteq> 0) (Ret (Inr ())))"

fun std_park_loop :: "nat \<Rightarrow> nat \<Rightarrow> instant option \<Rightarrow> (lock_error + park_result) dprog" where
  "std_park_loop 0 g timeout = Hang"
| "std_park_loop (Suc n) g timeout =
     guard_wait g timeout (\<lambda>timed_out.
       d_load (\<lambda>st.
         if timed_out \<or> st AND STATE_UNPARK_std \<noteq> 0 then
           d_swap (st AND NOT (STATE_PARK_std OR STATE_UNPARK_std)) (\<lambda>found.
             drop_guard g (Ret (Inr (if found AND STATE_UNPARK_std \<noteq> 0 then Unparked else TimedOut))))
         else std_park_loop n g timeout))"

text \<open>\<open>Some(InitGuard)\<close> holds the constructor and no guard: its drop does nothing.\<close>

definition std_park :: "nat \<Rightarrow> expiry \<Rightarrow> (lock_error + park_result) dprog" where
  "std_park n timeout =
     d_load (\<lambda>st.
       if st AND STATE_UNPARK_std \<noteq> 0 then
         d_swap (st AND NOT STATE_UNPARK_std) (\<lambda>found. debug_assert (found = st) (Ret (Inr Skipped)))
       else
         (let locked = lock_acquire (\<lambda>g.
                d_fetch_or STATE_PARK_std (\<lambda>old.
                  let st = old OR STATE_PARK_std in
                  if st AND STATE_UNPARK_std \<noteq> 0 then
                    drop_guard g (d_swap (st AND NOT STATE_UNPARK_std) (\<lambda>found.
                      debug_assert (found = st) (Ret (Inr Skipped))))
                  else std_park_loop n g (expiry_into_opt_instant timeout))) in
          if st AND STATE_INIT_std = 0 then lock_init locked else locked))"

definition std_unpark :: "bool dprog" where
  "std_unpark = d_fetch_or STATE_UNPARK_std (\<lambda>found.
     if found AND STATE_UNPARK_std = 0 then
       (if found AND STATE_PARK_std \<noteq> 0
        then lock_acquire (\<lambda>g. drop_guard g (notify_one (Ret True)))
        else Ret True)
     else Ret False)"

lemmas std_access_defs = d_load_def d_swap_def d_fetch_or_def d_fetch_and_def debug_assert_def
  lock_init_def lock_acquire_def drop_guard_def notify_one_def rewake_def start_wait_def guard_wait_def

lemmas std_park_defs = std_acquire_def std_release_def std_park_def std_unpark_def

declare std_park_loop.simps(2) [simp del]

subsection \<open>One thread at a time\<close>

lemmas std_loop_numeral = std_park_loop.simps(2) [of "pred_numeral k" for k, folded numeral_eq_Suc]

lemmas std_eval = std_access_defs std_park_defs std_state_defs std_park_new_def explore_numeral std_loop_numeral
  std_park_loop.simps(2)

lemma lazy_std:
  "d_load k1 = d_load k1" "d_swap x k1 = d_swap x k1" "d_fetch_or x k1 = d_fetch_or x k1"
  "lock_init k2 = lock_init k2" "lock_acquire k3 = lock_acquire k3" "drop_guard g k2 = drop_guard g k2"
  "notify_one k2 = notify_one k2" "rewake e k2 = rewake e k2" "start_wait g k2 = start_wait g k2"
  "guard_wait g t k4 = guard_wait g t k4"
  "m = m' \<Longrightarrow> g = g' \<Longrightarrow> std_park_loop m g t = std_park_loop m' g' t"
  by simp_all

definition std_notified :: "std_parker \<Rightarrow> bool" where
  "std_notified s = (d_state s AND STATE_UNPARK_std \<noteq> 0)"

definition std_held :: "std_parker \<Rightarrow> bool" where
  "std_held s = (d_state s AND STATE_HELD_std \<noteq> 0)"

definition std_idle :: "std_parker \<Rightarrow> bool" where
  "std_idle s = (\<not> d_locked s \<and> (d_state s AND STATE_PARK_std \<noteq> 0 \<longrightarrow> d_gen s \<noteq> 0))"

lemma std_flags:
  fixes x :: usize
  shows "x AND 1 = 0 \<longleftrightarrow> \<not> bit x 0" "x AND 2 = 0 \<longleftrightarrow> \<not> bit x 1" "x AND 4 = 0 \<longleftrightarrow> \<not> bit x 2"
    "x AND 8 = 0 \<longleftrightarrow> \<not> bit x 3"
  using bit_iff_and_push_bit_not_eq_0 [of x 0] bit_iff_and_push_bit_not_eq_0 [of x 1]
    bit_iff_and_push_bit_not_eq_0 [of x 2] bit_iff_and_push_bit_not_eq_0 [of x 3]
  by simp_all

lemmas std_rules = does_def std_park_defs std_state_defs std_access_defs std_flags std_held_def
  std_notified_def std_idle_def bit_simps

text \<open>The laws of the interface, whatever the turns of the loop.\<close>

interpretation std: raw_parker std_acquire std_release "std_park n" std_unpark std_held std_notified std_idle
  for n
proof (unfold_locales, goal_cases)
  case (1 s os)
  then show ?case by (auto simp: std_rules)
next
  case (2 s os)
  then show ?case by (auto simp: std_rules)
next
  case (3 s os)
  then show ?case by (auto simp: std_rules)
next
  case (4 s os)
  then show ?case by (auto simp: std_rules)
next
  case (5 s t os)
  then show ?case by (auto simp: std_rules)
qed


lemma std_park_new_flags: "std_held std_park_new = False" "std_notified std_park_new = False"
  by (simp_all add: std_park_new_def std_state_defs std_held_def std_notified_def)


subsection \<open>What goes wrong\<close>

text \<open>
  \<open>STATE_INIT\<close> is never set, so every park writes a new mutex: a thread that is still in
  \<open>unpark\<close> for the park before unlocks a mutex that it did not lock.
\<close>

definition park_twice :: "(std_parker, park_end) prog" where
  "park_twice = bind (std_park 2 (Expiry None)) (\<lambda>_. park_thread_code (std_park 2 (Expiry None)))"

lemma std_park_overwrites_mutex:
  "\<exists>c. reach (std_park_new, [park_twice, notify_thread_code std_unpark]) c \<and>
     snd c ! 1 = Panic ''unlock of an overwritten mutex''"
proof -
  have "\<exists>c. sched [(0, False), (0, False), (0, False), (0, False), (0, False), (1, False), (0, True),
       (0, False), (0, False), (0, False), (1, False), (0, False), (0, False), (1, False)]
      (std_park_new, [park_twice, notify_thread_code std_unpark]) = Some c \<and>
     snd c ! 1 = Panic ''unlock of an overwritten mutex''"
    by (simp add: park_twice_def std_eval park_threads cong: lazy_prog lazy_std)
  then show ?thesis using sched_reach by blast
qed

subsection \<open>A park against notifications\<close>

text \<open>The word with \<open>STATE_PARK\<close> and \<open>STATE_UNPARK\<close>.\<close>

definition sd_flags :: "bool \<Rightarrow> bool \<Rightarrow> usize" where
  "sd_flags p u = (if p then STATE_PARK_std else 0) OR (if u then STATE_UNPARK_std else 0)"

lemma sd_flags_simps [simp]:
  "sd_flags p u = sd_flags p' u' \<longleftrightarrow> p = p' \<and> u = u'"
  "sd_flags p u AND STATE_UNPARK_std = 0 \<longleftrightarrow> \<not> u" "sd_flags p u AND STATE_PARK_std = 0 \<longleftrightarrow> \<not> p"
  "sd_flags p u AND STATE_INIT_std = 0"
  "sd_flags p u OR STATE_UNPARK_std = sd_flags p True" "sd_flags p u OR STATE_PARK_std = sd_flags True u"
  "sd_flags p u AND NOT STATE_UNPARK_std = sd_flags p False"
  "sd_flags p u AND NOT (STATE_PARK_std OR STATE_UNPARK_std) = sd_flags False False"
  by (cases p; cases u; cases p'; cases u'; simp add: sd_flags_def std_state_defs)+

lemma sd_flags_free: "STATE_FREE_std = sd_flags False False"
  by (simp add: sd_flags_def std_state_defs)

declare bit.de_Morgan_disj [simp del]

lemma bind_std:
  "bind (d_load k) f = d_load (\<lambda>x. bind (k x) f)" "bind (d_swap y k) f = d_swap y (\<lambda>x. bind (k x) f)"
  "bind (d_fetch_or y k) f = d_fetch_or y (\<lambda>x. bind (k x) f)" "bind (lock_init p) f = lock_init (bind p f)"
  "bind (lock_acquire k') f = lock_acquire (\<lambda>x. bind (k' x) f)" "bind (drop_guard g p) f = drop_guard g (bind p f)"
  "bind (notify_one p) f = notify_one (bind p f)" "bind (rewake e p) f = rewake e (bind p f)"
  "bind (start_wait g p) f = start_wait g (bind p f)" "bind (debug_assert c p) f = debug_assert c (bind p f)"
  by (simp_all add: std_access_defs fun_eq_iff)

text \<open>The places of the thread that parks, and the code that it has still to run.\<close>

datatype sd_place =
    SdStart | SdTake | SdInit | SdLock | SdMark | SdLate | SdLateTake | SdTurn nat | SdAsleep nat
  | SdCheck nat bool | SdSwap | SdDrop park_result | SdDone park_result | SdHang

definition sd_take :: "usize \<Rightarrow> park_end dprog" where
  "sd_take st = d_swap (st AND NOT STATE_UNPARK_std) (\<lambda>found.
     debug_assert (found = st) (Ret (Parked (Inr Skipped))))"

definition sd_loop :: "nat \<Rightarrow> nat \<Rightarrow> instant option \<Rightarrow> park_end dprog" where
  "sd_loop m g i = bind (std_park_loop m g i) (\<lambda>r. Ret (Parked r))"

definition sd_mark :: "nat \<Rightarrow> instant option \<Rightarrow> nat \<Rightarrow> park_end dprog" where
  "sd_mark n i g = d_fetch_or STATE_PARK_std (\<lambda>old.
     if (old OR STATE_PARK_std) AND STATE_UNPARK_std \<noteq> 0 then drop_guard g (sd_take (old OR STATE_PARK_std))
     else sd_loop n g i)"

definition sd_swap :: "usize \<Rightarrow> park_end dprog" where
  "sd_swap st = d_swap st (\<lambda>found.
     drop_guard 1 (Ret (Parked (Inr (if found AND STATE_UNPARK_std \<noteq> 0 then Unparked else TimedOut)))))"

definition sd_check :: "nat \<Rightarrow> instant option \<Rightarrow> bool \<Rightarrow> park_end dprog" where
  "sd_check m i b = d_load (\<lambda>st.
     if b \<or> st AND STATE_UNPARK_std \<noteq> 0 then sd_swap (st AND NOT (STATE_PARK_std OR STATE_UNPARK_std))
     else sd_loop m 1 i)"

definition sd_sleep :: "nat \<Rightarrow> instant option \<Rightarrow> park_end dprog" where
  "sd_sleep m i = (case i of
       Some exp \<Rightarrow> Pick (\<lambda>timed_out.
         if timed_out then rewake True (sd_check m i True) else Pick (\<lambda>early. rewake early (sd_check m i False)))
     | None \<Rightarrow> Pick (\<lambda>early. rewake early (sd_check m i False)))"

definition sd_turn :: "nat \<Rightarrow> instant option \<Rightarrow> park_end dprog" where
  "sd_turn m i = (case i of
       Some exp \<Rightarrow> Pick (\<lambda>past. if past then sd_check m i True else start_wait 1 (sd_sleep m i))
     | None \<Rightarrow> start_wait 1 (sd_sleep m i))"

primrec sd_code :: "nat \<Rightarrow> expiry \<Rightarrow> sd_place \<Rightarrow> park_end dprog" where
  "sd_code n t SdStart = park_thread_code (std_park n t)"
| "sd_code n t SdTake = sd_take (sd_flags False True)"
| "sd_code n t SdInit = lock_init (lock_acquire (sd_mark n (expiry_into_opt_instant t)))"
| "sd_code n t SdLock = lock_acquire (sd_mark n (expiry_into_opt_instant t))"
| "sd_code n t SdMark = sd_mark n (expiry_into_opt_instant t) 1"
| "sd_code n t SdLate = drop_guard 1 (sd_take (sd_flags True True))"
| "sd_code n t SdLateTake = sd_take (sd_flags True True)"
| "sd_code n t (SdTurn m) = sd_turn m (expiry_into_opt_instant t)"
| "sd_code n t (SdAsleep m) = sd_sleep m (expiry_into_opt_instant t)"
| "sd_code n t (SdCheck m b) = sd_check m (expiry_into_opt_instant t) b"
| "sd_code n t SdSwap = sd_swap (sd_flags False False)"
| "sd_code n t (SdDrop r) = drop_guard 1 (Ret (Parked (Inr r)))"
| "sd_code n t (SdDone r) = Ret (Parked (Inr r))"
| "sd_code n t SdHang = Hang"

lemma sd_start_code:
  "sd_code n t SdStart = d_load (\<lambda>st.
     if st AND STATE_UNPARK_std \<noteq> 0 then sd_take st
     else if st AND STATE_INIT_std = 0 then lock_init (lock_acquire (sd_mark n (expiry_into_opt_instant t)))
     else lock_acquire (sd_mark n (expiry_into_opt_instant t)))"
  by (simp add: park_thread_code_def std_park_def bind_std sd_take_def sd_mark_def [abs_def] sd_loop_def Let_def
      if_distrib [of "\<lambda>p. bind p f" for f] cong: if_cong)

lemma sd_loop_code: "sd_loop m (Suc 0) i = (case m of 0 \<Rightarrow> Hang | Suc m \<Rightarrow> sd_turn m i)"
  by (cases m; cases i)
    (simp_all add: sd_loop_def sd_turn_def sd_sleep_def sd_check_def sd_swap_def std_park_loop.simps(2) guard_wait_def
      bind_std if_distrib [of "\<lambda>p. bind p f" for f] fun_eq_iff cong: if_cong)

definition sd_next :: "expiry \<Rightarrow> nat \<Rightarrow> sd_place" where
  "sd_next t m = (case m of 0 \<Rightarrow> SdHang | Suc m \<Rightarrow> SdTurn m)"

lemma sd_next_code: "sd_loop m (Suc 0) (expiry_into_opt_instant t) = sd_code n t (sd_next t m)"
  by (simp add: sd_loop_code sd_next_def split: nat.splits)

primrec sd_stage :: "sd_place \<Rightarrow> lk_stage" where
  "sd_stage SdStart = Outside" | "sd_stage SdTake = Taking" | "sd_stage SdInit = Outside" | "sd_stage SdLock = Outside"
| "sd_stage SdMark = Marking" | "sd_stage SdLate = LateIn" | "sd_stage SdLateTake = LateOut"
| "sd_stage (SdTurn m) = Turning" | "sd_stage (SdAsleep m) = Sleeping" | "sd_stage (SdCheck m b) = Awake"
| "sd_stage SdSwap = Awake" | "sd_stage (SdDrop r) = Leaving" | "sd_stage (SdDone r) = Outside" | "sd_stage SdHang = Turning"

definition sd_taken :: "sd_place \<Rightarrow> nat" where
  "sd_taken p = of_bool (\<exists>r. (p = SdDrop r \<or> p = SdDone r) \<and> r \<noteq> TimedOut)"

definition sd_early :: "sd_place \<Rightarrow> bool" where
  "sd_early p = (p \<in> {SdStart, SdTake, SdInit, SdLock, SdMark})"

definition sd_inv :: "std_parker \<Rightarrow> sd_place \<Rightarrow> lk_notifier multiset \<Rightarrow> bool" where
  "sd_inv s p N =
     (let f = d_state s AND STATE_PARK_std \<noteq> 0; u = d_state s AND STATE_UNPARK_std \<noteq> 0 in
        d_state s = sd_flags f u \<and> lk_inv (sd_stage p) f u (d_locked s) (d_waiting s) (d_signal s) N \<and>
        (f \<or> 0 < lk_owed N \<or> p = SdLock \<or> p = SdMark \<or> (\<exists>r. p = SdDrop r) \<longrightarrow> d_gen s = 1) \<and>
        (p = SdStart \<or> p = SdInit \<longrightarrow> d_gen s = 0) \<and> (sd_early p \<longrightarrow> \<not> f \<and> lk_owed N = 0))"

lemma sd_invE:
  assumes "sd_inv s p N"
  obtains f u where "d_state s = sd_flags f u" "lk_inv (sd_stage p) f u (d_locked s) (d_waiting s) (d_signal s) N"
    "f \<or> 0 < lk_owed N \<or> p = SdLock \<or> p = SdMark \<or> (\<exists>r. p = SdDrop r) \<Longrightarrow> d_gen s = 1"
    "p = SdStart \<or> p = SdInit \<Longrightarrow> d_gen s = 0" "sd_early p \<Longrightarrow> \<not> f \<and> lk_owed N = 0"
  using assms that unfolding sd_inv_def Let_def by blast

lemma sd_next_summary [simp]: "sd_stage (sd_next t m) = Turning" "sd_taken (sd_next t m) = 0"
  "sd_next t m \<noteq> SdStart" "sd_next t m \<noteq> SdInit" "\<not> sd_early (sd_next t m)"
  by (simp_all add: sd_next_def sd_taken_def sd_early_def split: nat.splits)

lemma sd_early_simps [simp]:
  "sd_early SdStart" "sd_early SdTake" "sd_early SdInit" "sd_early SdLock" "sd_early SdMark" "\<not> sd_early SdLate"
  "\<not> sd_early SdLateTake" "\<not> sd_early (SdTurn m)" "\<not> sd_early (SdAsleep m)" "\<not> sd_early (SdCheck m b)"
  "\<not> sd_early SdSwap" "\<not> sd_early (SdDrop r)" "\<not> sd_early (SdDone r)" "\<not> sd_early SdHang"
  by (simp_all add: sd_early_def)

lemma sd_taken_simps [simp]:
  "sd_taken SdStart = 0" "sd_taken SdTake = 0" "sd_taken SdInit = 0" "sd_taken SdLock = 0" "sd_taken SdMark = 0"
  "sd_taken SdLate = 0" "sd_taken SdLateTake = 0" "sd_taken (SdTurn m) = 0" "sd_taken (SdAsleep m) = 0"
  "sd_taken (SdCheck m b) = 0" "sd_taken SdSwap = 0" "sd_taken (SdDrop r) = of_bool (r \<noteq> TimedOut)"
  "sd_taken (SdDone r) = of_bool (r \<noteq> TimedOut)" "sd_taken SdHang = 0"
  by (simp_all add: sd_taken_def)

lemma sd_check_ok:
  assumes "sd_inv s (SdCheck m b) N" and "tstep (sd_code n t (SdCheck m b)) s q s'"
  shows "s' = s \<and> (\<exists>p'. q = sd_code n t p' \<and> sd_inv s p' N \<and> sd_taken p' = 0)"
proof -
  from assms(1) obtain u where w: "d_state s = sd_flags True u" "d_gen s = 1"
    and l: "lk_inv Awake True u (d_locked s) (d_waiting s) (d_signal s) N"
    by (elim sd_invE) (use lk_flags(7) in force)
  show ?thesis
  proof (cases "b \<or> u")
    case True
    with w l assms(2) show ?thesis
      by (intro conjI exI [of _ SdSwap]) (auto simp: sd_check_def d_load_def sd_inv_def Let_def)
  next
    case False
    with w l assms(2) show ?thesis
      by (intro conjI exI [of _ "sd_next t m"])
        (auto simp: sd_check_def d_load_def sd_inv_def Let_def sd_next_code [of _ t n] intro: lk_parker)
  qed
qed

lemma sd_step_ok:
  assumes "sd_inv s p N" and "tstep (sd_code n t p) s q s'"
  shows "\<exists>p'. q = sd_code n t p' \<and> sd_inv s' p' N \<and>
    sd_taken p' + of_bool (std_notified s') = sd_taken p + of_bool (std_notified s)"
proof -
  from assms(1) obtain f u where w: "d_state s = sd_flags f u"
    and l: "lk_inv (sd_stage p) f u (d_locked s) (d_waiting s) (d_signal s) N"
    and g: "f \<or> 0 < lk_owed N \<or> p = SdLock \<or> p = SdMark \<or> (\<exists>r. p = SdDrop r) \<Longrightarrow> d_gen s = 1"
      "p = SdStart \<or> p = SdInit \<Longrightarrow> d_gen s = 0" and early: "sd_early p \<Longrightarrow> \<not> f \<and> lk_owed N = 0"
    by (elim sd_invE) blast
  note d = sd_inv_def Let_def std_notified_def
  show ?thesis
  proof (cases p)
    case SdStart
    with assms(2) w l g early show ?thesis
      unfolding SdStart sd_start_code
      by (intro exI [of _ "if u then SdTake else SdInit"]) (auto simp: d_load_def d intro: lk_parker)
  next
    case SdTake
    with l have "u" by (auto dest: lk_flags(1))
    with SdTake assms(2) w l g early show ?thesis
      by (intro exI [of _ "SdDone Skipped"])
        (auto simp: sd_take_def d_swap_def debug_assert_def d intro: lk_parker)
  next
    case SdInit
    with l early have "\<not> d_locked s \<and> \<not> d_waiting s \<and> \<not> d_signal s" by (auto dest: lk_outside)
    with SdInit assms(2) w l g early show ?thesis
      by (intro exI [of _ SdLock]) (auto simp: lock_init_def d)
  next
    case SdLock
    with assms(2) w l g early show ?thesis
      by (intro exI [of _ SdMark]) (auto simp: lock_acquire_def d intro: lk_parker)
  next
    case SdMark
    with assms(2) w l g early show ?thesis
      by (intro exI [of _ "if u then SdLate else sd_next t n"])
        (auto simp: sd_mark_def d_fetch_or_def sd_next_code [of _ t n] d intro: lk_parker)
  next
    case SdLate
    with l have "f \<and> u" by (auto dest: lk_flags(3))
    with SdLate assms(2) w l g show ?thesis
      by (intro exI [of _ SdLateTake]) (auto simp: drop_guard_def d intro: lk_parker)
  next
    case SdLateTake
    with l have "f \<and> u" by (auto dest: lk_flags(4))
    with SdLateTake assms(2) w l g show ?thesis
      by (intro exI [of _ "SdDone Skipped"])
        (auto simp: sd_take_def d_swap_def debug_assert_def d intro: lk_parker)
  next
    case (SdTurn m)
    with l have fl: "f \<and> d_locked s" by (auto dest: lk_flags(5))
    from SdTurn have c: "sd_inv s (SdCheck m True) N" using w l g by (auto simp: d intro: lk_parker)
    have "tstep (start_wait 1 (sd_sleep m (expiry_into_opt_instant t))) s q s' \<or>
        tstep (sd_code n t (SdCheck m True)) s q s'"
      using assms(2) SdTurn by (auto simp: sd_turn_def split: option.splits if_splits)
    then show ?thesis
    proof
      assume "tstep (start_wait 1 (sd_sleep m (expiry_into_opt_instant t))) s q s'"
      with SdTurn w l g fl show ?thesis
        by (intro exI [of _ "SdAsleep m"]) (auto simp: start_wait_def d intro: lk_parker)
    next
      assume "tstep (sd_code n t (SdCheck m True)) s q s'"
      from sd_check_ok [OF c this] SdTurn show ?thesis by auto
    qed
  next
    case (SdAsleep m)
    then have "\<exists>b. q = sd_code n t (SdCheck m b) \<and> \<not> d_locked s \<and>
        s' = s\<lparr>d_locked := True, d_waiting := False, d_signal := False\<rparr>"
      using assms(2) by (auto simp: sd_sleep_def rewake_def split: option.splits if_splits)
    then obtain b where "q = sd_code n t (SdCheck m b)" "\<not> d_locked s"
      "s' = s\<lparr>d_locked := True, d_waiting := False, d_signal := False\<rparr>" by blast
    with SdAsleep w l g lk_flags(6) [of f u] show ?thesis
      by (intro exI [of _ "SdCheck m b"]) (auto simp: d intro: lk_parker)
  next
    case (SdCheck m b)
    with sd_check_ok [of s m b N n t q s'] assms show ?thesis by auto
  next
    case SdSwap
    with l have "f \<and> d_locked s" by (auto dest: lk_flags(7))
    with SdSwap assms(2) w l g show ?thesis
      by (intro exI [of _ "SdDrop (if u then Unparked else TimedOut)"])
        (auto simp: sd_swap_def d_swap_def d intro: lk_parker)
  next
    case (SdDrop r)
    with assms(2) w l g show ?thesis
      by (intro exI [of _ "SdDone r"]) (auto simp: drop_guard_def d intro: lk_parker)
  next
    case (SdDone r)
    with assms(2) show ?thesis by auto
  next
    case SdHang
    with assms(2) show ?thesis by auto
  qed
qed

text \<open>The places of a thread that notifies.\<close>

primrec sd_ncode :: "lk_notifier \<Rightarrow> park_end dprog" where
  "sd_ncode LkNotify = notify_thread_code std_unpark"
| "sd_ncode LkLock = lock_acquire (\<lambda>g. drop_guard g (notify_one (Ret (Notified True))))"
| "sd_ncode LkUnlock = drop_guard 1 (notify_one (Ret (Notified True)))"
| "sd_ncode LkSignal = notify_one (Ret (Notified True))"
| "sd_ncode (LkNotified b) = Ret (Notified b)"

lemma sd_notify_code:
  "sd_ncode LkNotify = d_fetch_or STATE_UNPARK_std (\<lambda>found.
     if found AND STATE_UNPARK_std = 0
     then (if found AND STATE_PARK_std \<noteq> 0 then sd_ncode LkLock else Ret (Notified True))
     else Ret (Notified False))"
  by (simp add: notify_thread_code_def std_unpark_def bind_std if_distrib [of "\<lambda>p. bind p f" for f] cong: if_cong)

lemma sd_notifier_ok:
  assumes "sd_inv s p (add_mset a N)" and "tstep (sd_ncode a) s q s'"
  shows "\<exists>b. q = sd_ncode b \<and> sd_inv s' p (add_mset b N) \<and> b \<noteq> LkNotify \<and> lk_given a \<le> lk_given b \<and>
    lk_given b + of_bool (std_notified s) = lk_given a + of_bool (std_notified s') \<and>
    (a \<noteq> LkNotify \<or> 0 < lk_given b \<or> std_notified s)"
proof -
  from assms(1) obtain f u where w: "d_state s = sd_flags f u"
    and l: "lk_inv (sd_stage p) f u (d_locked s) (d_waiting s) (d_signal s) (add_mset a N)"
    and g: "f \<or> 0 < lk_owed (add_mset a N) \<or> p = SdLock \<or> p = SdMark \<or> (\<exists>r. p = SdDrop r) \<Longrightarrow> d_gen s = 1"
      "p = SdStart \<or> p = SdInit \<Longrightarrow> d_gen s = 0" "sd_early p \<Longrightarrow> \<not> f \<and> lk_owed (add_mset a N) = 0"
    by (elim sd_invE) blast
  note d = sd_inv_def Let_def std_notified_def
  show ?thesis
  proof (cases a)
    case LkNotify
    with assms(2) w l g lk_notify show ?thesis
      unfolding LkNotify sd_notify_code
      by (intro exI [of _ "if u then LkNotified False else if f then LkLock else LkNotified True"])
        (auto simp: d_fetch_or_def d)
  next
    case LkLock
    with assms(2) w l g show ?thesis
      by (intro exI [of _ LkUnlock]) (auto simp: lock_acquire_def d intro: lk_lock)
  next
    case LkUnlock
    with assms(2) w l g show ?thesis
      by (intro exI [of _ LkSignal]) (auto simp: drop_guard_def d intro: lk_unlock)
  next
    case LkSignal
    with assms(2) w l g lk_signal [OF l [unfolded LkSignal]] show ?thesis
      by (intro exI [of _ "LkNotified True"]) (auto simp: notify_one_def d split: if_splits)
  next
    case (LkNotified b)
    with assms(2) show ?thesis by auto
  qed
qed

lemma sd_code_kind: "(ended (sd_code n t p) \<longleftrightarrow> (\<exists>r. p = SdDone r)) \<and> \<not> panicked (sd_code n t p)"
  by (cases p)
    (auto simp: sd_start_code std_access_defs sd_take_def sd_mark_def sd_turn_def sd_sleep_def sd_check_def sd_swap_def
      simp del: sd_code.simps(1) split: option.splits)

lemma sd_parker_moves: "thread_step (sd_code n t p) False s = None \<longleftrightarrow>
    p = SdHang \<or> (\<exists>r. p = SdDone r) \<or> p = SdLock \<and> d_locked s \<or>
    (\<exists>m. p = SdAsleep m) \<and> (d_locked s \<or> \<not> d_signal s)"
  by (cases p)
    (auto simp: sd_start_code std_access_defs sd_take_def sd_mark_def sd_turn_def sd_sleep_def sd_check_def sd_swap_def
      simp del: sd_code.simps(1) split: option.splits)

lemma sd_ncode_kind: "(ended (sd_ncode a) \<longleftrightarrow> (\<exists>b. a = LkNotified b)) \<and> \<not> panicked (sd_ncode a)"
  by (cases a) (simp_all add: sd_notify_code std_access_defs del: sd_ncode.simps(1))

lemma sd_ncode_moves: "thread_step (sd_ncode a) False s = None \<longleftrightarrow> (\<exists>b. a = LkNotified b) \<or> a = LkLock \<and> d_locked s"
  by (cases a) (simp_all add: sd_notify_code std_access_defs del: sd_ncode.simps(1))

lemma sd_stuck:
  assumes "sd_inv s p N" and p: "thread_step (sd_code n t p) False s = None"
    and N: "\<forall>a \<in># N. thread_step (sd_ncode a) False s = None"
  shows "sd_code n t p = Hang \<or> (\<forall>a \<in># N. ended (sd_ncode a)) \<and>
    (ended (sd_code n t p) \<or> sd_taken p = 0 \<and> \<not> std_notified s)"
proof -
  from assms(1) obtain f u where w: "d_state s = sd_flags f u"
    and l: "lk_inv (sd_stage p) f u (d_locked s) (d_waiting s) (d_signal s) N"
    by (elim sd_invE) blast
  have "p = SdHang" if "lk_holds (sd_stage p)" using that p by (auto simp: sd_parker_moves)
  then have "p = SdHang \<or> \<not> d_locked s"
    using lk_free [OF l] N by (auto simp: sd_ncode_moves)
  moreover have "\<forall>a \<in># N. \<exists>b. a = LkNotified b" if "\<not> d_locked s" using N that by (auto simp: sd_ncode_moves)
  moreover have "\<not> u" if "\<not> d_locked s" "\<exists>m. p = SdAsleep m"
    using lk_asleep [of f u "d_locked s" "d_waiting s" "d_signal s" N] l that calculation p by (auto simp: sd_parker_moves)
  moreover have "p = SdHang \<or> (\<exists>r. p = SdDone r) \<or> p = SdLock \<and> d_locked s \<or> (\<exists>m. p = SdAsleep m)"
    using p by (auto simp: sd_parker_moves)
  ultimately show ?thesis using w by (auto simp: sd_code_kind sd_ncode_kind std_notified_def)
qed

interpretation std_parks: notified_park "sd_code n t" sd_ncode sd_inv std_notified sd_taken lk_given "\<lambda>a. a \<noteq> LkNotify"
  for n t
proof (unfold_locales, goal_cases)
  case (1 s p N q s')
  then show ?case by (rule sd_step_ok)
next
  case (2 s p a N q s')
  then show ?case by (rule sd_notifier_ok)
next
  case (3 s p N)
  then show ?case by (rule sd_stuck)
next
  case (4 p)
  then show ?case by (auto simp: sd_code_kind took_parked)
next
  case (5 a)
  then obtain b where "a = LkNotified b" using sd_ncode_kind by blast
  then show ?case by simp
qed (simp_all add: sd_code_kind sd_ncode_kind)

definition std_race :: "nat \<Rightarrow> expiry \<Rightarrow> nat \<Rightarrow> (std_parker, park_end) config" where
  "std_race n t k =
     (std_park_new, park_thread_code (std_park n t) # replicate k (notify_thread_code std_unpark))"

text \<open>C18. A thread parks in the standard library's parker, with any timeout or none, while any number
  of others notify it, in any interleaving and with any number of turns of its loop: nothing
  panics, no memory is read before it is written, the threads are never stuck before all are
  done (a notification is never lost), and the notifications that were new are those consumed
  and the one pending.\<close>

theorem std_park_race:
  assumes "reach (std_race n t k) c" and "0 < k"
  shows "park_ok std_notified c"
proof (rule std_parks.park_races [where p = SdStart and n = LkNotify])
  show "reach (std_park_new, sd_code n t SdStart # replicate k (sd_ncode LkNotify)) c"
    using assms(1) by (simp add: std_race_def)
qed (use assms(2) in \<open>auto simp: sd_flags_free sd_inv_def lk_inv_def std_notified_def std_park_new_def Let_def\<close>)

theorem std_park_race_witness: "park_ok std_notified (std_race 2 (Expiry (Some 5)) 3)"
  by (rule std_park_race [OF reach.start]) simp

end
