(* ===== verification/PthreadPark.thy ===== *)
theory PthreadPark
  imports LockPark
begin

unbundle bit_operations_syntax

text \<open>
  \<open>suspend-core/src/raw_park/pthread.rs\<close>: the parker over a mutex and a condition variable of
  the C library.  The library is a parameter: what each of its functions does and returns, and
  the numbers of the errors.  \<open>posix\<close> is an instance with the documented behaviour.  The loop
  of \<open>park\<close> has \<open>n\<close> turns.
\<close>

definition STATE_FREE :: usize where "STATE_FREE = 0"
definition STATE_INIT :: usize where "STATE_INIT = 1"
definition STATE_HELD :: usize where "STATE_HELD = 2"
definition STATE_PARK :: usize where "STATE_PARK = 4"
definition STATE_UNPARK :: usize where "STATE_UNPARK = 8"

lemmas pt_state_defs = STATE_FREE_def STATE_INIT_def STATE_HELD_def STATE_PARK_def STATE_UNPARK_def

record 'l pthread_parker =
  p_state :: usize
  p_libc :: 'l

type_synonym ('l, 'r) pprog = "('l pthread_parker, 'r) prog"

record 'l libc =
  pthread_condattr_init :: "('l, int) pprog"
  pthread_condattr_setclock :: "('l, int) pprog"
  pthread_cond_init :: "('l, int) pprog"
  pthread_condattr_destroy :: "('l, int) pprog"
  pthread_cond_destroy :: "('l, int) pprog"
  pthread_cond_wait :: "('l, int) pprog"
  pthread_cond_timedwait :: "timespec \<Rightarrow> ('l, int) pprog"
  pthread_cond_signal :: "('l, int) pprog"
  pthread_mutexattr_init :: "('l, int) pprog"
  pthread_mutexattr_settype :: "('l, int) pprog"
  pthread_mutex_init :: "('l, int) pprog"
  pthread_mutexattr_destroy :: "('l, int) pprog"
  pthread_mutex_destroy :: "('l, int) pprog"
  pthread_mutex_lock :: "('l, int) pprog"
  pthread_mutex_unlock :: "('l, int) pprog"
  clock_gettime :: "('l, int \<times> timespec) pprog"
  pt_instant_now :: "('l, instant) pprog"
  PT_ETIMEDOUT :: int
  PT_EINVAL :: int

definition pthread_park_new :: "'l \<Rightarrow> 'l pthread_parker" where
  "pthread_park_new x = \<lparr>p_state = STATE_FREE, p_libc = x\<rparr>"

definition p_load :: "(usize \<Rightarrow> ('l, 'r) pprog) \<Rightarrow> ('l, 'r) pprog" where
  "p_load k = Act (\<lambda>s. s) (\<lambda>s. k (p_state s))"

definition p_swap :: "usize \<Rightarrow> (usize \<Rightarrow> ('l, 'r) pprog) \<Rightarrow> ('l, 'r) pprog" where
  "p_swap x k = Act (\<lambda>s. s\<lparr>p_state := x\<rparr>) (\<lambda>s. k (p_state s))"

definition p_fetch_or :: "usize \<Rightarrow> (usize \<Rightarrow> ('l, 'r) pprog) \<Rightarrow> ('l, 'r) pprog" where
  "p_fetch_or x k = Act (\<lambda>s. s\<lparr>p_state := p_state s OR x\<rparr>) (\<lambda>s. k (p_state s))"

definition p_fetch_and :: "usize \<Rightarrow> (usize \<Rightarrow> ('l, 'r) pprog) \<Rightarrow> ('l, 'r) pprog" where
  "p_fetch_and x k = Act (\<lambda>s. s\<lparr>p_state := p_state s AND x\<rparr>) (\<lambda>s. k (p_state s))"

text \<open>\<open>let r = f(..); assert_eq!(r, 0);\<close>\<close>

definition succeeds :: "('l, int) pprog \<Rightarrow> ('l, 'r) pprog \<Rightarrow> ('l, 'r) pprog" where
  "succeeds f k = bind f (\<lambda>r. debug_assert (r = 0) k)"

subsection \<open>The lock\<close>

definition condvar_init :: "'l libc \<Rightarrow> ('l, 'r) pprog \<Rightarrow> ('l, 'r) pprog" where
  "condvar_init L k =
     succeeds (pthread_condattr_init L) (succeeds (pthread_condattr_setclock L)
       (succeeds (pthread_cond_init L) (succeeds (pthread_condattr_destroy L) k)))"

definition mutex_init :: "'l libc \<Rightarrow> ('l, 'r) pprog \<Rightarrow> ('l, 'r) pprog" where
  "mutex_init L k =
     succeeds (pthread_mutexattr_init L) (succeeds (pthread_mutexattr_settype L)
       (succeeds (pthread_mutex_init L) (succeeds (pthread_mutexattr_destroy L) k)))"

definition pt_lock_init :: "'l libc \<Rightarrow> ('l, 'r) pprog \<Rightarrow> ('l, 'r) pprog" where
  "pt_lock_init L k = condvar_init L (mutex_init L k)"

definition pt_lock_destroy :: "'l libc \<Rightarrow> ('l, 'r) pprog \<Rightarrow> ('l, 'r) pprog" where
  "pt_lock_destroy L k =
     bind (pthread_mutex_destroy L) (\<lambda>r. debug_assert (r = 0 \<or> r = PT_EINVAL L)
       (bind (pthread_cond_destroy L) (\<lambda>r. debug_assert (r = 0 \<or> r = PT_EINVAL L) k)))"

definition pt_guard_unlock :: "'l libc \<Rightarrow> ('l, lock_error + 'r) pprog \<Rightarrow> ('l, lock_error + 'r) pprog" where
  "pt_guard_unlock L k =
     bind (pthread_mutex_unlock L) (\<lambda>r. if r \<noteq> 0 then Ret (Inl InvalidState) else k)"

definition pt_guard_drop :: "'l libc \<Rightarrow> ('l, 'r) pprog \<Rightarrow> ('l, 'r) pprog" where
  "pt_guard_drop L k = succeeds (pthread_mutex_unlock L) k"

subsection \<open>Timeouts\<close>

definition time_t_max :: int where "time_t_max = 2 ^ 63 - 1"

definition time_checked_add :: "int \<Rightarrow> int \<Rightarrow> int option" where
  "time_checked_add a b = (if a + b > time_t_max \<or> a + b < - (2 ^ 63) then None else Some (a + b))"

text \<open>\<open>now\<close> is the result of \<open>timespec_now\<close>.\<close>

definition timeout_to_timespec :: "timespec \<Rightarrow> duration \<Rightarrow> timespec option" where
  "timeout_to_timespec now timeout =
     (if uint (as_secs timeout) > time_t_max then None
      else
        let nsec = tv_nsec now + subsec_nanos timeout;
            sec = time_checked_add (tv_sec now) (as_time_t (as_secs timeout));
            carry = (nsec \<ge> 1000000000);
            nsec = (if carry then nsec - 1000000000 else nsec);
            sec = (if carry then Option.bind sec (\<lambda>sec. time_checked_add sec 1) else sec)
        in map_option (\<lambda>sec. \<lparr>tv_sec = sec, tv_nsec = nsec\<rparr>) sec)"

definition timespec_now :: "'l libc \<Rightarrow> (timespec \<Rightarrow> ('l, 'r) pprog) \<Rightarrow> ('l, 'r) pprog" where
  "timespec_now L k = bind (clock_gettime L) (\<lambda>(r, now). debug_assert (r = 0) (k now))"

text \<open>\<open>GuardImpl::wait\<close>; an error drops the guard.\<close>

definition pt_guard_wait :: "'l libc \<Rightarrow> expiry \<Rightarrow> ('l, lock_error + bool) pprog" where
  "pt_guard_wait L timeout =
     (let err = pt_guard_drop L (Ret (Inl InvalidState));
          forever = bind (pthread_cond_wait L) (\<lambda>r. if r \<noteq> 0 then err else Ret (Inr False)) in
      if expiry_is_some timeout
      then bind (pt_instant_now L) (\<lambda>now. case expiry_checked_duration now timeout of
          None \<Rightarrow> Ret (Inr True)
        | Some dur \<Rightarrow> timespec_now L (\<lambda>now. case timeout_to_timespec now dur of
              None \<Rightarrow> forever
            | Some ts \<Rightarrow> bind (pthread_cond_timedwait L ts) (\<lambda>r.
                if r = PT_ETIMEDOUT L then Ret (Inr True)
                else if r = 0 \<or> tv_sec ts < 0 \<and> r = PT_EINVAL L then Ret (Inr False)
                else err)))
      else forever)"

subsection \<open>RawParker for ParkImpl\<close>

definition pthread_acquire :: "('l, lock_error + unit) pprog" where
  "pthread_acquire = p_fetch_or STATE_HELD (\<lambda>found.
     if found AND STATE_HELD = 0 then Ret (Inr ()) else Ret (Inl Contended))"

definition pthread_release :: "('l, lock_error + unit) pprog" where
  "pthread_release = p_fetch_and (NOT STATE_HELD) (\<lambda>found.
     debug_assert (found AND STATE_HELD \<noteq> 0) (Ret (Inr ())))"

fun pthread_park_loop :: "'l libc \<Rightarrow> nat \<Rightarrow> expiry \<Rightarrow> ('l, lock_error + park_result) pprog" where
  "pthread_park_loop L 0 timeout = Hang"
| "pthread_park_loop L (Suc n) timeout =
     bind (pt_guard_wait L timeout) (\<lambda>w. case w of
         Inl e \<Rightarrow> Ret (Inl e)
       | Inr timed_out \<Rightarrow> p_load (\<lambda>st.
           if timed_out \<or> st AND STATE_UNPARK \<noteq> 0 then
             p_swap (st AND NOT (STATE_PARK OR STATE_UNPARK)) (\<lambda>found.
               pt_guard_unlock L (Ret (Inr (if found AND STATE_UNPARK \<noteq> 0 then Unparked else TimedOut))))
           else pthread_park_loop L n timeout))"

definition pthread_consume :: "usize \<Rightarrow> ('l, lock_error + park_result) pprog" where
  "pthread_consume st = p_swap (st AND NOT STATE_UNPARK) (\<lambda>found.
     debug_assert (found = st) (Ret (Inr Skipped)))"

definition pthread_park :: "'l libc \<Rightarrow> nat \<Rightarrow> expiry \<Rightarrow> ('l, lock_error + park_result) pprog" where
  "pthread_park L n timeout =
     p_load (\<lambda>st.
       if st AND STATE_UNPARK \<noteq> 0 then pthread_consume st
       else
         (let inited = (st AND STATE_INIT \<noteq> 0);
              locked = bind (pthread_mutex_lock L) (\<lambda>r.
                if r \<noteq> 0 then
                  (if \<not> inited then pt_lock_destroy L (Ret (Inl InvalidState)) else Ret (Inl InvalidState))
                else p_fetch_or (STATE_INIT OR STATE_PARK) (\<lambda>old.
                  let st = old OR STATE_INIT OR STATE_PARK in
                  if st AND STATE_UNPARK \<noteq> 0 then pt_guard_unlock L (pthread_consume st)
                  else pthread_park_loop L n timeout)) in
          if \<not> inited then pt_lock_init L locked else locked))"

definition pthread_unpark :: "'l libc \<Rightarrow> ('l, bool) pprog" where
  "pthread_unpark L = p_fetch_or STATE_UNPARK (\<lambda>found.
     if found AND STATE_UNPARK = 0 then
       (if found AND STATE_PARK \<noteq> 0
        then succeeds (pthread_mutex_lock L) (succeeds (pthread_mutex_unlock L)
          (succeeds (pthread_cond_signal L) (Ret True)))
        else Ret True)
     else Ret False)"

definition pthread_park_drop :: "'l libc \<Rightarrow> ('l, unit) pprog" where
  "pthread_park_drop L = p_load (\<lambda>st. if st AND STATE_INIT \<noteq> 0 then pt_lock_destroy L (Ret ()) else Ret ())"

lemmas p_access_defs = p_load_def p_swap_def p_fetch_or_def p_fetch_and_def succeeds_def debug_assert_def

declare pthread_park_loop.simps(2) [simp del]

subsection \<open>One thread at a time\<close>

definition pthread_notified :: "'l pthread_parker \<Rightarrow> bool" where
  "pthread_notified s = (p_state s AND STATE_UNPARK \<noteq> 0)"

definition pthread_held :: "'l pthread_parker \<Rightarrow> bool" where
  "pthread_held s = (p_state s AND STATE_HELD \<noteq> 0)"

definition pthread_idle :: "'l pthread_parker \<Rightarrow> bool" where
  "pthread_idle s = (p_state s AND STATE_PARK = 0)"

lemma pthread_flags:
  fixes x :: usize
  shows "x AND 2 = 0 \<longleftrightarrow> \<not> bit x 1" "x AND 4 = 0 \<longleftrightarrow> \<not> bit x 2" "x AND 8 = 0 \<longleftrightarrow> \<not> bit x 3"
  using bit_iff_and_push_bit_not_eq_0 [of x 1] bit_iff_and_push_bit_not_eq_0 [of x 2]
    bit_iff_and_push_bit_not_eq_0 [of x 3]
  by simp_all

lemmas pthread_rules = does_def pthread_acquire_def pthread_release_def pthread_unpark_def
  pthread_park_def pthread_consume_def pt_state_defs p_access_defs pthread_flags pthread_held_def
  pthread_notified_def pthread_idle_def bit_simps

interpretation pthread: raw_parker pthread_acquire pthread_release "pthread_park L n" "pthread_unpark L"
    pthread_held pthread_notified pthread_idle
  for L n
  by unfold_locales (auto simp: pthread_rules)

subsection \<open>A C library\<close>

record posix_state =
  m_locked :: bool
  c_waiting :: bool
  c_signal :: bool
  px_time :: timespec

definition px_update :: "(posix_state \<Rightarrow> posix_state) \<Rightarrow> posix_state pthread_parker \<Rightarrow> posix_state pthread_parker" where
  "px_update f s = s\<lparr>p_libc := f (p_libc s)\<rparr>"

definition px_return :: "(posix_state \<Rightarrow> posix_state) \<Rightarrow> (posix_state, int) pprog" where
  "px_return f = Act (px_update f) (\<lambda>s. Ret 0)"

definition px_relock :: "bool \<Rightarrow> int \<Rightarrow> (posix_state, int) pprog" where
  "px_relock early r =
     Wait (\<lambda>s. \<not> m_locked (p_libc s) \<and> (early \<or> c_signal (p_libc s)))
       (Act (px_update (\<lambda>l. l\<lparr>m_locked := True, c_waiting := False, c_signal := False\<rparr>)) (\<lambda>s. Ret r))"

definition px_wait :: "(posix_state, int) pprog \<Rightarrow> (posix_state, int) pprog" where
  "px_wait k = Act (px_update (\<lambda>l. l\<lparr>m_locked := False, c_waiting := True, c_signal := False\<rparr>)) (\<lambda>s. k)"

definition px_lock :: "(posix_state, int) pprog" where
  "px_lock = Wait (\<lambda>s. \<not> m_locked (p_libc s)) (px_return (\<lambda>l. l\<lparr>m_locked := True\<rparr>))"

definition posix :: "posix_state libc" where
  "posix = \<lparr>
     pthread_condattr_init = Ret 0, pthread_condattr_setclock = Ret 0,
     pthread_cond_init = px_return (\<lambda>l. l\<lparr>c_waiting := False, c_signal := False\<rparr>),
     pthread_condattr_destroy = Ret 0, pthread_cond_destroy = Ret 0,
     pthread_cond_wait = px_wait (Pick (\<lambda>early. px_relock early 0)),
     pthread_cond_timedwait = (\<lambda>ts. px_wait (Pick (\<lambda>timeout.
       if timeout then px_relock True 110 else Pick (\<lambda>early. px_relock early 0)))),
     pthread_cond_signal = px_return (\<lambda>l. if c_waiting l then l\<lparr>c_signal := True\<rparr> else l),
     pthread_mutexattr_init = Ret 0, pthread_mutexattr_settype = Ret 0,
     pthread_mutex_init = px_return (\<lambda>l. l\<lparr>m_locked := False\<rparr>),
     pthread_mutexattr_destroy = Ret 0, pthread_mutex_destroy = Ret 0,
     pthread_mutex_lock = px_lock, pthread_mutex_unlock = px_return (\<lambda>l. l\<lparr>m_locked := False\<rparr>),
     clock_gettime = Act (\<lambda>s. s) (\<lambda>s. Ret (0, px_time (p_libc s))),
     pt_instant_now = Act (\<lambda>s. s) (\<lambda>s. Ret (nat (tv_sec (px_time (p_libc s)) * 1000000000))),
     PT_ETIMEDOUT = 110, PT_EINVAL = 22\<rparr>"

definition posix_start :: posix_state where
  "posix_start = \<lparr>m_locked = False, c_waiting = False, c_signal = False, px_time = \<lparr>tv_sec = 0, tv_nsec = 0\<rparr>\<rparr>"

lemma posix_simps:
  "pthread_condattr_init posix = Ret 0" "pthread_condattr_setclock posix = Ret 0"
  "pthread_cond_init posix = px_return (\<lambda>l. l\<lparr>c_waiting := False, c_signal := False\<rparr>)"
  "pthread_condattr_destroy posix = Ret 0"
  "pthread_cond_wait posix = px_wait (Pick (\<lambda>early. px_relock early 0))"
  "pthread_cond_signal posix = px_return (\<lambda>l. if c_waiting l then l\<lparr>c_signal := True\<rparr> else l)"
  "pthread_mutexattr_init posix = Ret 0" "pthread_mutexattr_settype posix = Ret 0"
  "pthread_mutex_init posix = px_return (\<lambda>l. l\<lparr>m_locked := False\<rparr>)"
  "pthread_mutexattr_destroy posix = Ret 0" "pthread_mutex_lock posix = px_lock"
  "pthread_mutex_unlock posix = px_return (\<lambda>l. l\<lparr>m_locked := False\<rparr>)"
  by (simp_all add: posix_def)

lemmas posix_defs = px_update_def px_return_def px_relock_def px_wait_def px_lock_def posix_simps posix_start_def


lemma pthread_park_new_flags:
  "pthread_held (pthread_park_new x) = False" "pthread_notified (pthread_park_new x) = False"
  "p_state (pthread_park_new x) AND STATE_PARK = 0"
  by (simp_all add: pthread_park_new_def pt_state_defs pthread_held_def pthread_notified_def)


subsection \<open>The conversion of a timeout\<close>

lemma as_time_t_small:
  assumes "d div 1000000000 < 2 ^ 63"
  shows "as_time_t (as_secs d) = int (d div 1000000000)" and "uint (as_secs d) = int (d div 1000000000)"
proof -
  from assms have n: "d div 1000000000 < 2 ^ 64" by simp
  then have u: "unat (as_secs d) = d div 1000000000"
    by (simp add: as_secs_def unsigned_of_nat take_bit_nat_eq_self)
  then show "uint (as_secs d) = int (d div 1000000000)" by (metis uint_nat)
  have "signed_take_bit 63 (int (d div 1000000000)) = int (d div 1000000000)"
    using assms by (intro signed_take_bit_int_eq_self) simp_all
  then show "as_time_t (as_secs d) = int (d div 1000000000)"
    by (simp add: as_time_t_def as_secs_def signed_of_nat del: of_nat_div)
qed

text \<open>C32. The conversion of a timeout to an absolute time loses nothing: on a clock that has not gone
  below 0 the result denotes the clock's time plus the timeout, to the nanosecond and with less
  than a second of nanoseconds, and there is no result only when the sum exceeds \<open>time_t\<close>.\<close>

theorem timeout_to_timespec_exact:
  assumes "0 \<le> tv_sec now" and "0 \<le> tv_nsec now" and "tv_nsec now < 1000000000"
    and "d div 1000000000 < 2 ^ 64"
  shows "case timeout_to_timespec now d of
      Some ts \<Rightarrow> tv_sec ts * 1000000000 + tv_nsec ts = tv_sec now * 1000000000 + tv_nsec now + int d \<and>
        0 \<le> tv_nsec ts \<and> tv_nsec ts < 1000000000 \<and> tv_sec ts \<le> time_t_max
    | None \<Rightarrow> (time_t_max + 1) * 1000000000 \<le> tv_sec now * 1000000000 + tv_nsec now + int d"
proof (cases "d div 1000000000 < 2 ^ 63")
  case True
  note s = as_time_t_small [OF True]
  have d: "int d = int (d div 1000000000) * 1000000000 + int (d mod 1000000000)"
    by (metis div_mult_mod_eq of_nat_add of_nat_mult of_nat_numeral)
  have m: "0 \<le> int (d mod 1000000000)" "int (d mod 1000000000) < 1000000000" by simp_all
  have q: "0 \<le> int (d div 1000000000)" "int (d div 1000000000) \<le> 2 ^ 63 - 1" using True by simp_all
  show ?thesis
    using assms(1-3) q m
    unfolding timeout_to_timespec_def s subsec_nanos_def time_checked_add_def time_t_max_def Let_def d
    by (auto simp del: of_nat_div of_nat_mod split: if_splits)
next
  case False
  have "uint (as_secs d) = int (d div 1000000000)"
    using assms(4) by (simp add: as_secs_def unsigned_of_nat take_bit_nat_eq_self)
  with False have "timeout_to_timespec now d = None"
    by (simp add: timeout_to_timespec_def time_t_max_def)
  moreover have "2 ^ 63 * 1000000000 \<le> d" using False by (simp add: not_less less_eq_div_iff_mult_less_eq)
  then have "2 ^ 63 * 1000000000 \<le> int d" by simp
  ultimately show ?thesis using assms(1,2) by (simp add: time_t_max_def)
qed

theorem timeout_to_timespec_exact_witness:
  "case timeout_to_timespec \<lparr>tv_sec = 5, tv_nsec = 999999999\<rparr> 3000000002 of
      Some ts \<Rightarrow> tv_sec ts * 1000000000 + tv_nsec ts = 9000000001 | None \<Rightarrow> False"
  using timeout_to_timespec_exact [of "\<lparr>tv_sec = 5, tv_nsec = 999999999\<rparr>" 3000000002]
  by (simp add: time_t_max_def split: option.splits)

subsection \<open>A park against notifications\<close>

text \<open>The word with \<open>STATE_INIT\<close>, \<open>STATE_PARK\<close> and \<open>STATE_UNPARK\<close>.\<close>

definition pt_flags :: "bool \<Rightarrow> bool \<Rightarrow> bool \<Rightarrow> usize" where
  "pt_flags i p u = (if i then STATE_INIT else 0) OR (if p then STATE_PARK else 0) OR (if u then STATE_UNPARK else 0)"

lemma pt_flags_simps [simp]:
  "pt_flags i p u = pt_flags i' p' u' \<longleftrightarrow> i = i' \<and> p = p' \<and> u = u'"
  "pt_flags i p u AND STATE_UNPARK = 0 \<longleftrightarrow> \<not> u" "pt_flags i p u AND STATE_PARK = 0 \<longleftrightarrow> \<not> p"
  "pt_flags i p u AND STATE_INIT = 0 \<longleftrightarrow> \<not> i"
  "pt_flags i p u OR STATE_UNPARK = pt_flags i p True"
  "pt_flags i p u OR STATE_INIT = pt_flags True p u" "pt_flags i p u OR STATE_PARK = pt_flags i True u"
  "pt_flags i p u OR (STATE_INIT OR STATE_PARK) = pt_flags True True u"
  "pt_flags i p u AND NOT STATE_UNPARK = pt_flags i p False"
  "pt_flags i p u AND NOT (STATE_PARK OR STATE_UNPARK) = pt_flags i False False"
  by (cases i; cases p; cases u; cases i'; cases p'; cases u'; simp add: pt_flags_def pt_state_defs)+

lemma pt_flags_free: "STATE_FREE = pt_flags False False False"
  by (simp add: pt_flags_def pt_state_defs)

declare bit.de_Morgan_disj [simp del]

lemma bind_pthread:
  "bind (p_load k) f = p_load (\<lambda>x. bind (k x) f)" "bind (p_swap y k) f = p_swap y (\<lambda>x. bind (k x) f)"
  "bind (p_fetch_or y k) f = p_fetch_or y (\<lambda>x. bind (k x) f)"
  by (simp_all add: p_access_defs)

lemma posix_times:
  "pthread_cond_timedwait posix ts = px_wait (Pick (\<lambda>timeout.
     if timeout then px_relock True 110 else Pick (\<lambda>early. px_relock early 0)))"
  "clock_gettime posix = Act (\<lambda>s. s) (\<lambda>s. Ret (0, px_time (p_libc s)))"
  "pt_instant_now posix = Act (\<lambda>s. s) (\<lambda>s. Ret (nat (tv_sec (px_time (p_libc s)) * 1000000000)))"
  "PT_ETIMEDOUT posix = 110"
  by (simp_all add: posix_def)

text \<open>The places of the thread that parks, and the code that it has still to run.\<close>

datatype pt_place =
    PtStart | PtTake bool bool | PtCond | PtMutex | PtLock | PtMark | PtLate | PtLateTake | PtTurn nat | PtClock nat duration
  | PtWait nat "timespec option" | PtAsleep nat "timespec option" | PtCheck nat bool | PtSwap
  | PtDrop park_result | PtDone park_result | PtHang

type_synonym pt_prog = "(posix_state pthread_parker, park_end) prog"

definition pt_take :: "usize \<Rightarrow> pt_prog" where
  "pt_take st = p_swap (st AND NOT STATE_UNPARK) (\<lambda>found. debug_assert (found = st) (Ret (Parked (Inr Skipped))))"

definition pt_unlock :: "pt_prog \<Rightarrow> pt_prog" where
  "pt_unlock k = Act (px_update (\<lambda>l. l\<lparr>m_locked := False\<rparr>)) (\<lambda>s. k)"

definition pt_loop :: "nat \<Rightarrow> expiry \<Rightarrow> pt_prog" where
  "pt_loop m t = bind (pthread_park_loop posix m t) (\<lambda>r. Ret (Parked r))"

definition pt_mark :: "nat \<Rightarrow> expiry \<Rightarrow> pt_prog" where
  "pt_mark n t = p_fetch_or (STATE_INIT OR STATE_PARK) (\<lambda>old.
     if (old OR STATE_INIT OR STATE_PARK) AND STATE_UNPARK \<noteq> 0
     then pt_unlock (pt_take (old OR STATE_INIT OR STATE_PARK))
     else pt_loop n t)"

definition pt_lock :: "nat \<Rightarrow> expiry \<Rightarrow> pt_prog" where
  "pt_lock n t = Wait (\<lambda>s. \<not> m_locked (p_libc s)) (Act (px_update (\<lambda>l. l\<lparr>m_locked := True\<rparr>)) (\<lambda>s. pt_mark n t))"

definition pt_swap :: "usize \<Rightarrow> pt_prog" where
  "pt_swap st = p_swap st (\<lambda>found.
     pt_unlock (Ret (Parked (Inr (if found AND STATE_UNPARK \<noteq> 0 then Unparked else TimedOut)))))"

definition pt_check :: "nat \<Rightarrow> expiry \<Rightarrow> bool \<Rightarrow> pt_prog" where
  "pt_check m t b = p_load (\<lambda>st.
     if b \<or> st AND STATE_UNPARK \<noteq> 0 then pt_swap (st AND NOT (STATE_PARK OR STATE_UNPARK)) else pt_loop m t)"

definition pt_rewake :: "bool \<Rightarrow> pt_prog \<Rightarrow> pt_prog" where
  "pt_rewake early k =
     Wait (\<lambda>s. \<not> m_locked (p_libc s) \<and> (early \<or> c_signal (p_libc s)))
       (Act (px_update (\<lambda>l. l\<lparr>m_locked := True, c_waiting := False, c_signal := False\<rparr>)) (\<lambda>s. k))"

definition pt_sleep :: "nat \<Rightarrow> expiry \<Rightarrow> timespec option \<Rightarrow> pt_prog" where
  "pt_sleep m t ts = (case ts of
       Some x \<Rightarrow> Pick (\<lambda>timeout.
         if timeout then pt_rewake True (pt_check m t True) else Pick (\<lambda>early. pt_rewake early (pt_check m t False)))
     | None \<Rightarrow> Pick (\<lambda>early. pt_rewake early (pt_check m t False)))"

definition pt_wait :: "nat \<Rightarrow> expiry \<Rightarrow> timespec option \<Rightarrow> pt_prog" where
  "pt_wait m t ts = Act (px_update (\<lambda>l. l\<lparr>m_locked := False, c_waiting := True, c_signal := False\<rparr>))
     (\<lambda>s. pt_sleep m t ts)"

definition pt_clock :: "nat \<Rightarrow> expiry \<Rightarrow> duration \<Rightarrow> pt_prog" where
  "pt_clock m t d = Act (\<lambda>s. s) (\<lambda>s. pt_wait m t (timeout_to_timespec (px_time (p_libc s)) d))"

definition pt_turn :: "nat \<Rightarrow> expiry \<Rightarrow> pt_prog" where
  "pt_turn m t =
     (if expiry_is_some t
      then Act (\<lambda>s. s) (\<lambda>s.
        case expiry_checked_duration (nat (tv_sec (px_time (p_libc s)) * 1000000000)) t of
          None \<Rightarrow> pt_check m t True
        | Some d \<Rightarrow> pt_clock m t d)
      else pt_wait m t None)"

primrec pt_code :: "nat \<Rightarrow> expiry \<Rightarrow> pt_place \<Rightarrow> pt_prog" where
  "pt_code n t PtStart = park_thread_code (pthread_park posix n t)"
| "pt_code n t (PtTake i f) = pt_take (pt_flags i f True)"
| "pt_code n t PtCond = Act (px_update (\<lambda>l. l\<lparr>c_waiting := False, c_signal := False\<rparr>))
     (\<lambda>s. Act (px_update (\<lambda>l. l\<lparr>m_locked := False\<rparr>)) (\<lambda>s. pt_lock n t))"
| "pt_code n t PtMutex = Act (px_update (\<lambda>l. l\<lparr>m_locked := False\<rparr>)) (\<lambda>s. pt_lock n t)"
| "pt_code n t PtLock = pt_lock n t"
| "pt_code n t PtMark = pt_mark n t"
| "pt_code n t PtLate = pt_unlock (pt_take (pt_flags True True True))"
| "pt_code n t PtLateTake = pt_take (pt_flags True True True)"
| "pt_code n t (PtTurn m) = pt_turn m t"
| "pt_code n t (PtClock m d) = pt_clock m t d"
| "pt_code n t (PtWait m ts) = pt_wait m t ts"
| "pt_code n t (PtAsleep m ts) = pt_sleep m t ts"
| "pt_code n t (PtCheck m b) = pt_check m t b"
| "pt_code n t PtSwap = pt_swap (pt_flags True False False)"
| "pt_code n t (PtDrop r) = pt_unlock (Ret (Parked (Inr r)))"
| "pt_code n t (PtDone r) = Ret (Parked (Inr r))"
| "pt_code n t PtHang = Hang"

lemma pt_guard_unlock_code: "bind (pt_guard_unlock posix (Ret r)) (\<lambda>r. Ret (Parked r)) = pt_unlock (Ret (Parked r))"
  by (simp add: pt_guard_unlock_def pt_unlock_def posix_simps px_return_def)

lemma pt_start_code:
  "pt_code n t PtStart = p_load (\<lambda>st.
     if st AND STATE_UNPARK \<noteq> 0 then pt_take st
     else if st AND STATE_INIT = 0 then pt_code n t PtCond else pt_lock n t)"
  by (simp add: park_thread_code_def pthread_park_def pt_lock_init_def condvar_init_def mutex_init_def succeeds_def
      debug_assert_def posix_simps px_lock_def px_return_def pt_take_def pt_lock_def pt_mark_def pt_unlock_def pt_loop_def
      pthread_consume_def pt_guard_unlock_def bind_pthread Let_def if_distrib [of "\<lambda>p. bind p f" for f] cong: if_cong)

lemma pt_rest_code:
  "bind (case w of Inl e \<Rightarrow> Ret (Inl e) | Inr timed_out \<Rightarrow> p_load (\<lambda>st.
       if timed_out \<or> st AND STATE_UNPARK \<noteq> 0 then
         p_swap (st AND NOT (STATE_PARK OR STATE_UNPARK)) (\<lambda>found.
           pt_guard_unlock posix (Ret (Inr (if found AND STATE_UNPARK \<noteq> 0 then Unparked else TimedOut))))
       else pthread_park_loop posix m t)) (\<lambda>r. Ret (Parked r)) =
   (case w of Inl e \<Rightarrow> Ret (Parked (Inl e)) | Inr b \<Rightarrow> pt_check m t b)"
  by (simp add: pt_check_def pt_swap_def pt_loop_def bind_pthread pt_guard_unlock_code if_distrib [of "\<lambda>p. bind p f" for f]
      split: sum.split cong: if_cong)

lemma pt_guard_wait_code:
  "bind (pt_guard_wait posix t) (\<lambda>w. case w of Inl e \<Rightarrow> Ret (Parked (Inl e)) | Inr b \<Rightarrow> pt_check m t b) = pt_turn m t"
  by (auto simp: pt_guard_wait_def pt_turn_def pt_clock_def pt_wait_def pt_sleep_def pt_rewake_def posix_simps posix_times
      timespec_now_def debug_assert_def px_wait_def px_relock_def Let_def fun_eq_iff split: option.splits)

lemma pt_loop_code: "pt_loop m t = (case m of 0 \<Rightarrow> Hang | Suc m \<Rightarrow> pt_turn m t)"
  by (cases m) (simp_all add: pt_loop_def pthread_park_loop.simps(2) bind_assoc pt_rest_code pt_guard_wait_code)

definition pt_next :: "nat \<Rightarrow> pt_place" where
  "pt_next m = (case m of 0 \<Rightarrow> PtHang | Suc m \<Rightarrow> PtTurn m)"

lemma pt_next_code: "pt_loop m t = pt_code n t (pt_next m)"
  by (simp add: pt_loop_code pt_next_def split: nat.splits)

primrec pt_stage :: "pt_place \<Rightarrow> lk_stage" where
  "pt_stage PtStart = Outside" | "pt_stage (PtTake i f) = Taking" | "pt_stage PtCond = Outside" | "pt_stage PtMutex = Outside"
| "pt_stage PtLock = Outside" | "pt_stage PtMark = Marking" | "pt_stage PtLate = LateIn" | "pt_stage PtLateTake = LateOut"
| "pt_stage (PtTurn m) = Turning" | "pt_stage (PtClock m d) = Turning" | "pt_stage (PtWait m ts) = Turning"
| "pt_stage (PtAsleep m ts) = Sleeping" | "pt_stage (PtCheck m b) = Awake" | "pt_stage PtSwap = Awake"
| "pt_stage (PtDrop r) = Leaving" | "pt_stage (PtDone r) = Outside" | "pt_stage PtHang = Turning"

definition pt_taken :: "pt_place \<Rightarrow> nat" where
  "pt_taken p = of_bool (\<exists>r. (p = PtDrop r \<or> p = PtDone r) \<and> r \<noteq> TimedOut)"

text \<open>What a place has seen of \<open>STATE_INIT\<close> and \<open>STATE_PARK\<close>.\<close>

primrec pt_fits :: "pt_place \<Rightarrow> bool \<Rightarrow> bool \<Rightarrow> bool" where
  "pt_fits PtStart i f = True" | "pt_fits (PtTake i' f') i f = (i' = i \<and> f' = f)" | "pt_fits PtCond i f = (\<not> i)"
| "pt_fits PtMutex i f = (\<not> i)" | "pt_fits PtLock i f = True" | "pt_fits PtMark i f = True"
| "pt_fits PtLate i f = True" | "pt_fits PtLateTake i f = True" | "pt_fits (PtTurn m) i f = True"
| "pt_fits (PtClock m d) i f = True" | "pt_fits (PtWait m ts) i f = True" | "pt_fits (PtAsleep m ts) i f = True"
| "pt_fits (PtCheck m b) i f = True" | "pt_fits PtSwap i f = True" | "pt_fits (PtDrop r) i f = True"
| "pt_fits (PtDone r) i f = True" | "pt_fits PtHang i f = True"

definition pt_inv :: "posix_state pthread_parker \<Rightarrow> pt_place \<Rightarrow> lk_notifier multiset \<Rightarrow> bool" where
  "pt_inv s p N =
     (let i = p_state s AND STATE_INIT \<noteq> 0; f = p_state s AND STATE_PARK \<noteq> 0; u = p_state s AND STATE_UNPARK \<noteq> 0;
          l = p_libc s in
        p_state s = pt_flags i f u \<and> lk_inv (pt_stage p) f u (m_locked l) (c_waiting l) (c_signal l) N \<and>
        (f \<longrightarrow> i) \<and> (\<not> i \<longrightarrow> lk_owed N = 0) \<and> pt_fits p i f)"

lemma pt_invE:
  assumes "pt_inv s p N"
  obtains i f u where "p_state s = pt_flags i f u"
    "lk_inv (pt_stage p) f u (m_locked (p_libc s)) (c_waiting (p_libc s)) (c_signal (p_libc s)) N"
    "f \<Longrightarrow> i" "\<not> i \<Longrightarrow> lk_owed N = 0" "pt_fits p i f"
  using assms that unfolding pt_inv_def Let_def by blast

lemma pt_next_summary [simp]: "pt_stage (pt_next m) = Turning" "pt_taken (pt_next m) = 0"
  "pt_fits (pt_next m) i f"
  by (simp_all add: pt_next_def pt_taken_def split: nat.splits)

lemma pt_taken_simps [simp]:
  "pt_taken PtStart = 0" "pt_taken (PtTake i f) = 0" "pt_taken PtCond = 0" "pt_taken PtMutex = 0" "pt_taken PtLock = 0"
  "pt_taken PtMark = 0" "pt_taken PtLate = 0" "pt_taken PtLateTake = 0" "pt_taken (PtTurn m) = 0"
  "pt_taken (PtClock m d) = 0" "pt_taken (PtWait m ts) = 0" "pt_taken (PtAsleep m ts) = 0" "pt_taken (PtCheck m b) = 0"
  "pt_taken PtSwap = 0" "pt_taken (PtDrop r) = of_bool (r \<noteq> TimedOut)"
  "pt_taken (PtDone r) = of_bool (r \<noteq> TimedOut)" "pt_taken PtHang = 0"
  by (simp_all add: pt_taken_def)

lemma pt_wait_ok:
  assumes "pt_inv s (PtWait m ts) N" and "tstep (pt_code n t (PtWait m ts)) s q s'"
  shows "q = pt_code n t (PtAsleep m ts) \<and> pt_inv s' (PtAsleep m ts) N \<and> pthread_notified s' = pthread_notified s"
proof -
  from assms(1) obtain i f u where "p_state s = pt_flags i f u" "f \<Longrightarrow> i" "\<not> i \<Longrightarrow> lk_owed N = 0"
    "lk_inv Turning f u (m_locked (p_libc s)) (c_waiting (p_libc s)) (c_signal (p_libc s)) N"
    by (elim pt_invE) simp
  with assms(2) show ?thesis
    by (auto simp: pt_wait_def px_update_def pt_inv_def pthread_notified_def Let_def intro: lk_parker)
qed

lemma pt_step_ok:
  assumes "pt_inv s p N" and "tstep (pt_code n t p) s q s'"
  shows "\<exists>p'. q = pt_code n t p' \<and> pt_inv s' p' N \<and>
    pt_taken p' + of_bool (pthread_notified s') = pt_taken p + of_bool (pthread_notified s)"
proof -
  from assms(1) obtain i f u where w: "p_state s = pt_flags i f u"
    and l: "lk_inv (pt_stage p) f u (m_locked (p_libc s)) (c_waiting (p_libc s)) (c_signal (p_libc s)) N"
    and i: "f \<Longrightarrow> i" "\<not> i \<Longrightarrow> lk_owed N = 0" "pt_fits p i f"
    by (elim pt_invE) blast
  note d = pt_inv_def Let_def pthread_notified_def px_update_def
  note fl = lk_flags [where f = f and u = u and lk = "m_locked (p_libc s)" and w = "c_waiting (p_libc s)"
      and sg = "c_signal (p_libc s)" and N = N]
  show ?thesis
  proof (cases p)
    case PtStart
    with assms(2) w l i show ?thesis
      unfolding PtStart pt_start_code
      by (intro exI [of _ "if u then PtTake i f else if i then PtLock else PtCond"])
        (auto simp: p_load_def d intro: lk_parker)
  next
    case (PtTake i' f')
    with l i(3) have "u" "i' = i" "f' = f" by (auto dest: lk_flags(1))
    with PtTake assms(2) w l i(1,2) show ?thesis
      by (intro exI [of _ "PtDone Skipped"]) (auto simp: pt_take_def p_swap_def debug_assert_def d intro: lk_parker)
  next
    case PtCond
    with l i have "\<not> c_waiting (p_libc s)" "\<not> c_signal (p_libc s)" by (auto dest: lk_outside)
    with PtCond assms(2) w l i show ?thesis by (intro exI [of _ PtMutex]) (auto simp: d)
  next
    case PtMutex
    with l i have "\<not> m_locked (p_libc s)" by (auto dest: lk_outside)
    with PtMutex assms(2) w l i show ?thesis by (intro exI [of _ PtLock]) (auto simp: d)
  next
    case PtLock
    with assms(2) w l i show ?thesis by (intro exI [of _ PtMark]) (auto simp: pt_lock_def d intro: lk_parker)
  next
    case PtMark
    with assms(2) w l i fl(2) show ?thesis
      by (intro exI [of _ "if u then PtLate else pt_next n"])
        (auto simp: pt_mark_def p_fetch_or_def pt_next_code [of _ t n] d intro: lk_parker)
  next
    case PtLate
    with assms(2) w l i fl(3) show ?thesis
      by (intro exI [of _ PtLateTake]) (auto simp: pt_unlock_def d intro: lk_parker)
  next
    case PtLateTake
    with assms(2) w l i fl(4) show ?thesis
      by (intro exI [of _ "PtDone Skipped"]) (auto simp: pt_take_def p_swap_def debug_assert_def d intro: lk_parker)
  next
    case (PtTurn m)
    then have "pt_inv s (PtCheck m True) N" "pt_inv s (PtClock m x) N" "pt_inv s (PtWait m None) N" for x
      using w l i fl(5) by (auto simp: d intro: lk_parker)
    moreover have "s' = s \<and> (q = pt_code n t (PtCheck m True) \<or> (\<exists>x. q = pt_code n t (PtClock m x))) \<or>
        tstep (pt_code n t (PtWait m None)) s q s'"
      using assms(2) PtTurn by (auto simp: pt_turn_def split: option.splits if_splits)
    ultimately show ?thesis using PtTurn pt_wait_ok [of s m None N n t q s'] by (auto simp del: pt_code.simps)
  next
    case (PtClock m x)
    with assms(2) have "\<exists>ts. q = pt_code n t (PtWait m ts)" "s' = s" by (auto simp: pt_clock_def)
    moreover have "pt_inv s (PtWait m ts) N" for ts using assms(1) PtClock by (simp add: pt_inv_def)
    ultimately show ?thesis using PtClock by (auto simp del: pt_code.simps)
  next
    case (PtWait m ts)
    with assms pt_wait_ok [of s m ts N n t q s'] show ?thesis by (intro exI [of _ "PtAsleep m ts"]) auto
  next
    case (PtAsleep m ts)
    then have "\<exists>b. q = pt_code n t (PtCheck m b) \<and> \<not> m_locked (p_libc s) \<and>
        s' = px_update (\<lambda>l. l\<lparr>m_locked := True, c_waiting := False, c_signal := False\<rparr>) s"
      using assms(2) by (auto simp: pt_sleep_def pt_rewake_def split: option.splits if_splits)
    then obtain b where "q = pt_code n t (PtCheck m b)" "\<not> m_locked (p_libc s)"
      "s' = px_update (\<lambda>l. l\<lparr>m_locked := True, c_waiting := False, c_signal := False\<rparr>) s" by blast
    with PtAsleep w l i fl(6) show ?thesis by (intro exI [of _ "PtCheck m b"]) (auto simp: d intro: lk_parker)
  next
    case (PtCheck m b)
    with assms(2) w l i fl(7) show ?thesis
      by (intro exI [of _ "if b \<or> u then PtSwap else pt_next m"])
        (auto simp: pt_check_def p_load_def pt_next_code [of _ t n] d intro: lk_parker)
  next
    case PtSwap
    with assms(2) w l i fl(7) show ?thesis
      by (intro exI [of _ "PtDrop (if u then Unparked else TimedOut)"])
        (auto simp: pt_swap_def p_swap_def d intro: lk_parker)
  next
    case (PtDrop r)
    with assms(2) w l i show ?thesis by (intro exI [of _ "PtDone r"]) (auto simp: pt_unlock_def d intro: lk_parker)
  next
    case (PtDone r)
    with assms(2) show ?thesis by auto
  next
    case PtHang
    with assms(2) show ?thesis by auto
  qed
qed

text \<open>The places of a thread that notifies.\<close>

definition pt_signal :: pt_prog where
  "pt_signal = Act (px_update (\<lambda>l. if c_waiting l then l\<lparr>c_signal := True\<rparr> else l)) (\<lambda>s. Ret (Notified True))"

primrec pt_ncode :: "lk_notifier \<Rightarrow> pt_prog" where
  "pt_ncode LkNotify = notify_thread_code (pthread_unpark posix)"
| "pt_ncode LkLock = Wait (\<lambda>s. \<not> m_locked (p_libc s)) (Act (px_update (\<lambda>l. l\<lparr>m_locked := True\<rparr>))
     (\<lambda>s. pt_unlock pt_signal))"
| "pt_ncode LkUnlock = pt_unlock pt_signal"
| "pt_ncode LkSignal = pt_signal"
| "pt_ncode (LkNotified b) = Ret (Notified b)"

lemma pt_notify_code:
  "pt_ncode LkNotify = p_fetch_or STATE_UNPARK (\<lambda>found.
     if found AND STATE_UNPARK = 0
     then (if found AND STATE_PARK \<noteq> 0 then pt_ncode LkLock else Ret (Notified True))
     else Ret (Notified False))"
  by (simp add: notify_thread_code_def pthread_unpark_def bind_pthread succeeds_def debug_assert_def posix_simps px_lock_def
      px_return_def pt_unlock_def pt_signal_def if_distrib [of "\<lambda>p. bind p f" for f] cong: if_cong)

lemma pt_notifier_ok:
  assumes "pt_inv s p (add_mset a N)" and "tstep (pt_ncode a) s q s'"
  shows "\<exists>b. q = pt_ncode b \<and> pt_inv s' p (add_mset b N) \<and> b \<noteq> LkNotify \<and> lk_given a \<le> lk_given b \<and>
    lk_given b + of_bool (pthread_notified s) = lk_given a + of_bool (pthread_notified s') \<and>
    (a \<noteq> LkNotify \<or> 0 < lk_given b \<or> pthread_notified s)"
proof -
  from assms(1) obtain i f u where w: "p_state s = pt_flags i f u"
    and l: "lk_inv (pt_stage p) f u (m_locked (p_libc s)) (c_waiting (p_libc s)) (c_signal (p_libc s)) (add_mset a N)"
    and i: "f \<Longrightarrow> i" "\<not> i \<Longrightarrow> lk_owed (add_mset a N) = 0" "pt_fits p i f"
    by (elim pt_invE) blast
  note d = pt_inv_def Let_def pthread_notified_def px_update_def
  show ?thesis
  proof (cases a)
    case LkNotify
    note n = lk_notify [OF l [unfolded LkNotify]]
    from LkNotify assms(2) w i n show ?thesis
      unfolding LkNotify pt_notify_code
      by (intro exI [of _ "if u then LkNotified False else if f then LkLock else LkNotified True"])
        (auto simp: p_fetch_or_def d)
  next
    case LkLock
    with assms(2) w l i show ?thesis by (intro exI [of _ LkUnlock]) (auto simp: d intro: lk_lock)
  next
    case LkUnlock
    with assms(2) w l i show ?thesis by (intro exI [of _ LkSignal]) (auto simp: pt_unlock_def d intro: lk_unlock)
  next
    case LkSignal
    with assms(2) w l i lk_signal [OF l [unfolded LkSignal]] show ?thesis
      by (intro exI [of _ "LkNotified True"]) (auto simp: pt_signal_def d split: if_splits)
  next
    case (LkNotified b)
    with assms(2) show ?thesis by auto
  qed
qed

lemma pt_code_kind: "(ended (pt_code n t p) \<longleftrightarrow> (\<exists>r. p = PtDone r)) \<and> \<not> panicked (pt_code n t p)"
  by (cases p)
    (auto simp: pt_start_code p_access_defs pt_take_def pt_mark_def pt_lock_def pt_unlock_def pt_turn_def pt_clock_def
      pt_wait_def pt_sleep_def pt_rewake_def pt_check_def pt_swap_def simp del: pt_code.simps(1) split: option.splits)

lemma pt_parker_moves: "thread_step (pt_code n t p) False s = None \<longleftrightarrow>
    p = PtHang \<or> (\<exists>r. p = PtDone r) \<or> p = PtLock \<and> m_locked (p_libc s) \<or>
    (\<exists>m ts. p = PtAsleep m ts) \<and> (m_locked (p_libc s) \<or> \<not> c_signal (p_libc s))"
  by (cases p)
    (auto simp: pt_start_code p_access_defs pt_take_def pt_mark_def pt_lock_def pt_unlock_def pt_turn_def pt_clock_def
      pt_wait_def pt_sleep_def pt_rewake_def pt_check_def pt_swap_def simp del: pt_code.simps(1) split: option.splits)

lemma pt_ncode_kind: "(ended (pt_ncode a) \<longleftrightarrow> (\<exists>b. a = LkNotified b)) \<and> \<not> panicked (pt_ncode a)"
  by (cases a) (simp_all add: pt_notify_code p_access_defs pt_unlock_def pt_signal_def del: pt_ncode.simps(1))

lemma pt_ncode_moves:
  "thread_step (pt_ncode a) False s = None \<longleftrightarrow> (\<exists>b. a = LkNotified b) \<or> a = LkLock \<and> m_locked (p_libc s)"
  by (cases a) (simp_all add: pt_notify_code p_access_defs pt_unlock_def pt_signal_def del: pt_ncode.simps(1))

lemma pt_stuck:
  assumes "pt_inv s p N" and p: "thread_step (pt_code n t p) False s = None"
    and N: "\<forall>a \<in># N. thread_step (pt_ncode a) False s = None"
  shows "pt_code n t p = Hang \<or> (\<forall>a \<in># N. ended (pt_ncode a)) \<and>
    (ended (pt_code n t p) \<or> pt_taken p = 0 \<and> \<not> pthread_notified s)"
proof -
  from assms(1) obtain i f u where w: "p_state s = pt_flags i f u"
    and l: "lk_inv (pt_stage p) f u (m_locked (p_libc s)) (c_waiting (p_libc s)) (c_signal (p_libc s)) N"
    by (elim pt_invE) blast
  have "p = PtHang" if "lk_holds (pt_stage p)" using that p by (auto simp: pt_parker_moves)
  then have "p = PtHang \<or> \<not> m_locked (p_libc s)"
    using lk_free [OF l] N by (auto simp: pt_ncode_moves)
  moreover have "\<forall>a \<in># N. \<exists>b. a = LkNotified b" if "\<not> m_locked (p_libc s)" using N that by (auto simp: pt_ncode_moves)
  moreover have "\<not> u" if "\<not> m_locked (p_libc s)" "\<exists>m ts. p = PtAsleep m ts"
    using lk_asleep [of f u "m_locked (p_libc s)" "c_waiting (p_libc s)" "c_signal (p_libc s)" N] l that calculation p
    by (auto simp: pt_parker_moves)
  moreover have "p = PtHang \<or> (\<exists>r. p = PtDone r) \<or> p = PtLock \<and> m_locked (p_libc s) \<or> (\<exists>m ts. p = PtAsleep m ts)"
    using p by (auto simp: pt_parker_moves)
  ultimately show ?thesis using w by (auto simp: pt_code_kind pt_ncode_kind pthread_notified_def)
qed

interpretation pthread_parks: notified_park "pt_code n t" pt_ncode pt_inv pthread_notified pt_taken lk_given
    "\<lambda>a. a \<noteq> LkNotify"
  for n t
proof (unfold_locales, goal_cases)
  case (1 s p N q s')
  then show ?case by (rule pt_step_ok)
next
  case (2 s p a N q s')
  then show ?case by (rule pt_notifier_ok)
next
  case (3 s p N)
  then show ?case by (rule pt_stuck)
next
  case (4 p)
  then show ?case by (auto simp: pt_code_kind took_parked)
next
  case (5 a)
  then obtain b where "a = LkNotified b" using pt_ncode_kind by blast
  then show ?case by simp
qed (simp_all add: pt_code_kind pt_ncode_kind)

definition pthread_race :: "nat \<Rightarrow> expiry \<Rightarrow> nat \<Rightarrow> (posix_state pthread_parker, park_end) config" where
  "pthread_race n t k =
     (pthread_park_new posix_start,
      park_thread_code (pthread_park posix n t) # replicate k (notify_thread_code (pthread_unpark posix)))"




end
