(* ===== verification/FutexPark.thy ===== *)
theory FutexPark
  imports ParkRace
begin

unbundle bit_operations_syntax

text \<open>
  \<open>suspend-core/src/raw_park/futex.rs\<close>: the parker over a word and the system call \<open>futex\<close>.
  The kernel and the clock are a parameter: what \<open>FUTEX_WAIT\<close> and \<open>FUTEX_WAKE\<close> return, with
  \<open>errno\<close>, and the numbers of the errors.  \<open>linux\<close> is an instance with the documented
  behaviour.  The loop of \<open>park\<close> has \<open>n\<close> turns.
\<close>

type_synonym i32 = "32 word"

definition STATE_FREE_futex :: i32 where "STATE_FREE_futex = 0"
definition STATE_HELD_futex :: i32 where "STATE_HELD_futex = 2"
definition STATE_PARK_futex :: i32 where "STATE_PARK_futex = 4"
definition STATE_UNPARK_futex :: i32 where "STATE_UNPARK_futex = 8"

lemmas futex_state_defs = STATE_FREE_futex_def STATE_HELD_futex_def STATE_PARK_futex_def
  STATE_UNPARK_futex_def

record 'k futex_parker =
  fx_word :: i32
  fx_kernel :: 'k

type_synonym ('k, 'r) fprog = "('k futex_parker, 'r) prog"

record 'k kernel =
  syscall_wait :: "i32 \<Rightarrow> timespec option \<Rightarrow> ('k, int \<times> int) fprog"
  syscall_wake :: "('k, int \<times> int) fprog"
  instant_now :: "('k, instant) fprog"
  ETIMEDOUT :: int
  EINTR :: int
  EAGAIN :: int
  EFAULT :: int

definition futex_park_new :: "'k \<Rightarrow> 'k futex_parker" where
  "futex_park_new x = \<lparr>fx_word = STATE_FREE_futex, fx_kernel = x\<rparr>"

definition fx_load :: "(i32 \<Rightarrow> ('k, 'r) fprog) \<Rightarrow> ('k, 'r) fprog" where
  "fx_load k = Act (\<lambda>s. s) (\<lambda>s. k (fx_word s))"

definition fx_swap :: "i32 \<Rightarrow> (i32 \<Rightarrow> ('k, 'r) fprog) \<Rightarrow> ('k, 'r) fprog" where
  "fx_swap x k = Act (\<lambda>s. s\<lparr>fx_word := x\<rparr>) (\<lambda>s. k (fx_word s))"

definition fx_fetch_or :: "i32 \<Rightarrow> (i32 \<Rightarrow> ('k, 'r) fprog) \<Rightarrow> ('k, 'r) fprog" where
  "fx_fetch_or x k = Act (\<lambda>s. s\<lparr>fx_word := fx_word s OR x\<rparr>) (\<lambda>s. k (fx_word s))"

definition fx_fetch_and :: "i32 \<Rightarrow> (i32 \<Rightarrow> ('k, 'r) fprog) \<Rightarrow> ('k, 'r) fprog" where
  "fx_fetch_and x k = Act (\<lambda>s. s\<lparr>fx_word := fx_word s AND x\<rparr>) (\<lambda>s. k (fx_word s))"

definition fx_compare_exchange :: "i32 \<Rightarrow> i32 \<Rightarrow> (i32 + i32 \<Rightarrow> ('k, 'r) fprog) \<Rightarrow> ('k, 'r) fprog" where
  "fx_compare_exchange old new k =
     Act (\<lambda>s. if fx_word s = old then s\<lparr>fx_word := new\<rparr> else s)
       (\<lambda>s. k (if fx_word s = old then Inr (fx_word s) else Inl (fx_word s)))"

subsection \<open>The system call\<close>

text \<open>\<open>diff.as_secs() as libc::time_t as u64 != diff.as_secs()\<close>\<close>

definition time_overflows :: "duration \<Rightarrow> bool" where
  "time_overflows diff = (as_u64 (as_time_t (as_secs diff)) \<noteq> as_secs diff)"

definition futex_timespec :: "duration \<Rightarrow> timespec option" where
  "futex_timespec diff =
     (if time_overflows diff then None
      else Some \<lparr>tv_sec = as_time_t (as_secs diff), tv_nsec = subsec_nanos diff\<rparr>)"

definition futex_wait_call :: "'k kernel \<Rightarrow> i32 \<Rightarrow> timespec option \<Rightarrow> ('k, lock_error + bool) fprog" where
  "futex_wait_call K st ts =
     bind (syscall_wait K st ts) (\<lambda>(r, err).
       if r = 0 then Ret (Inr False)
       else if r = -1 \<and> ts \<noteq> None \<and> err = ETIMEDOUT K then Ret (Inr True)
       else if r = -1 \<and> (err = EINTR K \<or> err = EAGAIN K) then Ret (Inr False)
       else Ret (Inl InvalidState))"

definition futex_wait :: "'k kernel \<Rightarrow> i32 \<Rightarrow> expiry \<Rightarrow> ('k, lock_error + bool) fprog" where
  "futex_wait K st timeout =
     (if expiry_is_some timeout
      then bind (instant_now K) (\<lambda>now. case expiry_checked_duration now timeout of
          Some diff \<Rightarrow> futex_wait_call K st (futex_timespec diff)
        | None \<Rightarrow> Ret (Inr True))
      else futex_wait_call K st None)"

definition futex_wake :: "'k kernel \<Rightarrow> ('k, bool) fprog" where
  "futex_wake K =
     bind (syscall_wake K) (\<lambda>(r, err).
       debug_assert (r = 0 \<or> r = 1 \<or> r = -1)
         (if r = -1 then debug_assert (err = EFAULT K) (Ret (r = 1)) else Ret (r = 1)))"

subsection \<open>RawParker for ParkImpl\<close>

definition futex_acquire :: "('k, lock_error + unit) fprog" where
  "futex_acquire = fx_fetch_or STATE_HELD_futex (\<lambda>found.
     if found AND STATE_HELD_futex = 0 then Ret (Inr ()) else Ret (Inl Contended))"

definition futex_release :: "('k, lock_error + unit) fprog" where
  "futex_release = fx_fetch_and (NOT STATE_HELD_futex) (\<lambda>found.
     debug_assert (found AND STATE_HELD_futex \<noteq> 0) (Ret (Inr ())))"

text \<open>The result is an \<open>Option<bool>\<close>, as the code has it.\<close>

fun futex_park_loop :: "'k kernel \<Rightarrow> nat \<Rightarrow> i32 \<Rightarrow> expiry \<Rightarrow> ('k, lock_error + bool option) fprog" where
  "futex_park_loop K 0 st timeout = Hang"
| "futex_park_loop K (Suc n) st timeout =
     bind (futex_wait K st timeout) (\<lambda>w. case w of
         Inl e \<Rightarrow> Ret (Inl e)
       | Inr timed_out \<Rightarrow> fx_load (\<lambda>now.
           if timed_out \<or> now AND STATE_UNPARK_futex \<noteq> 0 then
             fx_swap (now AND NOT (STATE_PARK_futex OR STATE_UNPARK_futex)) (\<lambda>found.
               Ret (Inr (if found AND STATE_UNPARK_futex \<noteq> 0 then Some True else None)))
           else futex_park_loop K n st timeout))"

definition futex_consume :: "i32 \<Rightarrow> ('k, lock_error + bool option) fprog" where
  "futex_consume st = fx_swap (st AND NOT STATE_UNPARK_futex) (\<lambda>found.
     debug_assert (found = st) (Ret (Inr (Some False))))"

definition futex_park :: "'k kernel \<Rightarrow> nat \<Rightarrow> expiry \<Rightarrow> ('k, lock_error + bool option) fprog" where
  "futex_park K n timeout =
     fx_load (\<lambda>st.
       if st AND STATE_UNPARK_futex \<noteq> 0 then futex_consume st
       else fx_compare_exchange st (st OR STATE_PARK_futex) (\<lambda>r. case r of
           Inr _ \<Rightarrow> futex_park_loop K n (st OR STATE_PARK_futex) timeout
         | Inl st \<Rightarrow>
             if st AND STATE_UNPARK_futex \<noteq> 0 then futex_consume st
             else Panic ''Invalid lock state update''))"

definition futex_unpark :: "'k kernel \<Rightarrow> ('k, bool) fprog" where
  "futex_unpark K = fx_fetch_or STATE_UNPARK_futex (\<lambda>found.
     if found AND STATE_UNPARK_futex = 0 then
       (if found AND STATE_PARK_futex \<noteq> 0 then bind (futex_wake K) (\<lambda>_. Ret True) else Ret True)
     else Ret False)"

lemmas fx_access_defs = fx_load_def fx_swap_def fx_fetch_or_def fx_fetch_and_def fx_compare_exchange_def
  debug_assert_def

declare futex_park_loop.simps(2) [simp del]

subsection \<open>One thread at a time\<close>

text \<open>The result as a \<open>ParkResult\<close>: \<open>Some(false)\<close> is a park that was skipped.\<close>

fun park_result_of :: "bool option \<Rightarrow> park_result" where
  "park_result_of (Some False) = Skipped"
| "park_result_of (Some True) = Unparked"
| "park_result_of None = TimedOut"

definition futex_raw_park :: "'k kernel \<Rightarrow> nat \<Rightarrow> expiry \<Rightarrow> ('k, lock_error + park_result) fprog" where
  "futex_raw_park K n t = bind (futex_park K n t) (\<lambda>r. Ret (map_sum id park_result_of r))"

definition futex_notified :: "'k futex_parker \<Rightarrow> bool" where
  "futex_notified s = (fx_word s AND STATE_UNPARK_futex \<noteq> 0)"

definition futex_held :: "'k futex_parker \<Rightarrow> bool" where
  "futex_held s = (fx_word s AND STATE_HELD_futex \<noteq> 0)"

definition futex_idle :: "'k futex_parker \<Rightarrow> bool" where
  "futex_idle s = (fx_word s AND STATE_PARK_futex = 0)"

lemma futex_flags:
  fixes x :: i32
  shows "x AND 2 = 0 \<longleftrightarrow> \<not> bit x 1" "x AND 4 = 0 \<longleftrightarrow> \<not> bit x 2" "x AND 8 = 0 \<longleftrightarrow> \<not> bit x 3"
  using bit_iff_and_push_bit_not_eq_0 [of x 1] bit_iff_and_push_bit_not_eq_0 [of x 2]
    bit_iff_and_push_bit_not_eq_0 [of x 3]
  by simp_all

lemmas futex_rules = does_def futex_acquire_def futex_release_def futex_unpark_def futex_park_def
  futex_consume_def futex_raw_park_def futex_state_defs fx_access_defs futex_flags futex_held_def
  futex_notified_def futex_idle_def bit_simps

text \<open>While no thread parks there is no system call: the laws hold for every kernel.\<close>

interpretation futex: raw_parker futex_acquire futex_release "futex_raw_park K n" "futex_unpark K"
    futex_held futex_notified futex_idle
  for K n
  by unfold_locales (auto simp: futex_rules)

lemma time_never_overflows: "\<not> time_overflows d"
  by (simp add: time_overflows_def)

subsection \<open>A kernel\<close>

record linux_state =
  k_asleep :: bool
  k_woken :: bool
  k_time :: instant

definition k_update :: "(linux_state \<Rightarrow> linux_state) \<Rightarrow> linux_state futex_parker \<Rightarrow> linux_state futex_parker" where
  "k_update f s = s\<lparr>fx_kernel := f (fx_kernel s)\<rparr>"

definition k_return :: "int \<times> int \<Rightarrow> (linux_state, int \<times> int) fprog" where
  "k_return r = Act (k_update (\<lambda>k. k\<lparr>k_asleep := False, k_woken := False\<rparr>)) (\<lambda>s. Ret r)"

definition linux_wait :: "i32 \<Rightarrow> timespec option \<Rightarrow> (linux_state, int \<times> int) fprog" where
  "linux_wait st ts =
     Act (\<lambda>s. if fx_word s = st then k_update (\<lambda>k. k\<lparr>k_asleep := True, k_woken := False\<rparr>) s else s)
       (\<lambda>s. if fx_word s = st
            then Pick (\<lambda>interrupted.
              if interrupted
              then (if ts = None then k_return (-1, 4)
                    else Pick (\<lambda>timeout. k_return (-1, if timeout then 110 else 4)))
              else Wait (\<lambda>s. k_woken (fx_kernel s)) (k_return (0, 0)))
            else Ret (-1, 11))"

definition linux_wake :: "(linux_state, int \<times> int) fprog" where
  "linux_wake =
     Act (\<lambda>s. if k_asleep (fx_kernel s) then k_update (\<lambda>k. k\<lparr>k_woken := True\<rparr>) s else s)
       (\<lambda>s. Ret (if k_asleep (fx_kernel s) then 1 else 0, 0))"

definition linux :: "linux_state kernel" where
  "linux = \<lparr>syscall_wait = linux_wait, syscall_wake = linux_wake,
     instant_now = Act (\<lambda>s. s) (\<lambda>s. Ret (k_time (fx_kernel s))),
     ETIMEDOUT = 110, EINTR = 4, EAGAIN = 11, EFAULT = 14\<rparr>"

definition linux_start :: linux_state where
  "linux_start = \<lparr>k_asleep = False, k_woken = False, k_time = 0\<rparr>"


lemma futex_park_new_flags:
  "futex_held (futex_park_new x) = False" "futex_notified (futex_park_new x) = False"
  "fx_word (futex_park_new x) AND STATE_PARK_futex = 0"
  by (simp_all add: futex_park_new_def futex_state_defs futex_held_def futex_notified_def)


subsection \<open>A park against notifications\<close>

text \<open>The word with \<open>STATE_PARK\<close> and \<open>STATE_UNPARK\<close>.\<close>

definition fx_flags :: "bool \<Rightarrow> bool \<Rightarrow> i32" where
  "fx_flags p u = (if p then STATE_PARK_futex else 0) OR (if u then STATE_UNPARK_futex else 0)"

lemma fx_flags_simps [simp]:
  "fx_flags p u = fx_flags p' u' \<longleftrightarrow> p = p' \<and> u = u'"
  "fx_flags p u AND STATE_UNPARK_futex = 0 \<longleftrightarrow> \<not> u" "fx_flags p u AND STATE_PARK_futex = 0 \<longleftrightarrow> \<not> p"
  "fx_flags p u OR STATE_UNPARK_futex = fx_flags p True" "fx_flags p u OR STATE_PARK_futex = fx_flags True u"
  "fx_flags p u AND NOT STATE_UNPARK_futex = fx_flags p False"
  "fx_flags p u AND NOT (STATE_PARK_futex OR STATE_UNPARK_futex) = fx_flags False False"
  by (cases p; cases u; cases p'; cases u'; simp add: fx_flags_def futex_state_defs)+

lemma fx_flags_free: "STATE_FREE_futex = fx_flags False False"
  by (simp add: fx_flags_def futex_state_defs)

declare bit.de_Morgan_disj [simp del]

text \<open>The places of the thread that parks, and the code that it has still to run.\<close>

datatype fx_place =
    FxStart | FxConsume | FxMark | FxTurn nat | FxCall nat "timespec option" | FxAsleep nat "timespec option"
  | FxCheck nat bool | FxSwap bool | FxDone park_result | FxHang

definition fx_end :: "lock_error + bool option \<Rightarrow> (linux_state, park_end) fprog" where
  "fx_end r = Ret (Parked (map_sum id park_result_of r))"

definition fx_rest :: "nat \<Rightarrow> expiry \<Rightarrow> lock_error + bool \<Rightarrow> (linux_state, park_end) fprog" where
  "fx_rest m t w = (case w of
       Inl e \<Rightarrow> fx_end (Inl e)
     | Inr timed_out \<Rightarrow> fx_load (\<lambda>now.
         if timed_out \<or> now AND STATE_UNPARK_futex \<noteq> 0 then
           fx_swap (now AND NOT (STATE_PARK_futex OR STATE_UNPARK_futex)) (\<lambda>found.
             fx_end (Inr (if found AND STATE_UNPARK_futex \<noteq> 0 then Some True else None)))
         else bind (futex_park_loop linux m (fx_flags True False) t) fx_end))"

definition fx_result :: "timespec option \<Rightarrow> int \<times> int \<Rightarrow> lock_error + bool" where
  "fx_result ts = (\<lambda>(r, err).
     if r = 0 then Inr False
     else if r = -1 \<and> ts \<noteq> None \<and> err = 110 then Inr True
     else if r = -1 \<and> (err = 4 \<or> err = 11) then Inr False
     else Inl InvalidState)"

definition fx_sleep :: "timespec option \<Rightarrow> (linux_state, int \<times> int) fprog" where
  "fx_sleep ts = Pick (\<lambda>interrupted.
     if interrupted
     then (if ts = None then k_return (-1, 4) else Pick (\<lambda>timeout. k_return (-1, if timeout then 110 else 4)))
     else Wait (\<lambda>s. k_woken (fx_kernel s)) (k_return (0, 0)))"

primrec fx_code :: "nat \<Rightarrow> expiry \<Rightarrow> fx_place \<Rightarrow> (linux_state futex_parker, park_end) prog" where
  "fx_code n t FxStart = park_thread_code (futex_raw_park linux n t)"
| "fx_code n t FxConsume = bind (futex_consume (fx_flags False True)) fx_end"
| "fx_code n t FxMark = bind (fx_compare_exchange (fx_flags False False) (fx_flags True False) (\<lambda>r. case r of
      Inr _ \<Rightarrow> futex_park_loop linux n (fx_flags True False) t
    | Inl st \<Rightarrow> if st AND STATE_UNPARK_futex \<noteq> 0 then futex_consume st
        else Panic ''Invalid lock state update'')) fx_end"
| "fx_code n t (FxTurn m) = bind (futex_park_loop linux (Suc m) (fx_flags True False) t) fx_end"
| "fx_code n t (FxCall m ts) = bind (linux_wait (fx_flags True False) ts) (\<lambda>r. fx_rest m t (fx_result ts r))"
| "fx_code n t (FxAsleep m ts) = bind (fx_sleep ts) (\<lambda>r. fx_rest m t (fx_result ts r))"
| "fx_code n t (FxCheck m b) = fx_rest m t (Inr b)"
| "fx_code n t (FxSwap u) = fx_swap (fx_flags False False) (\<lambda>found.
     fx_end (Inr (if found AND STATE_UNPARK_futex \<noteq> 0 then Some True else None)))"
| "fx_code n t (FxDone r) = Ret (Parked (Inr r))"
| "fx_code n t FxHang = Hang"

definition fx_turn :: "expiry \<Rightarrow> nat \<Rightarrow> fx_place" where
  "fx_turn t m = (case m of 0 \<Rightarrow> FxHang | Suc m \<Rightarrow> if expiry_is_some t then FxTurn m else FxCall m None)"

lemma futex_call_code:
  "bind (futex_wait_call linux st ts) f = bind (linux_wait st ts) (\<lambda>r. f (fx_result ts r))"
  by (auto simp: futex_wait_call_def fx_result_def linux_def bind_assoc intro!: arg_cong2 [of _ _ _ _ bind])

lemma fx_loop_rest:
  "bind (futex_park_loop linux (Suc m) (fx_flags True False) t) fx_end = bind (futex_wait linux (fx_flags True False) t) (fx_rest m t)"
proof -
  have "(\<lambda>w. bind (case w of Inl e \<Rightarrow> Ret (Inl e) | Inr timed_out \<Rightarrow> fx_load (\<lambda>now.
      if timed_out \<or> now AND STATE_UNPARK_futex \<noteq> 0 then
        fx_swap (now AND NOT (STATE_PARK_futex OR STATE_UNPARK_futex)) (\<lambda>found.
          Ret (Inr (if found AND STATE_UNPARK_futex \<noteq> 0 then Some True else None)))
      else futex_park_loop linux m (fx_flags True False) t)) fx_end) = fx_rest m t"
    by (auto simp: fx_rest_def fx_load_def fx_swap_def fun_eq_iff split: sum.splits)
  then show ?thesis by (simp add: futex_park_loop.simps(2) bind_assoc)
qed

lemma fx_turn_code: "bind (futex_park_loop linux m (fx_flags True False) t) fx_end = fx_code n t (fx_turn t m)"
  by (cases m) (simp_all add: fx_turn_def fx_loop_rest futex_wait_def futex_call_code)

lemma fx_turn_none: "\<not> expiry_is_some t \<Longrightarrow> fx_code n t (FxTurn m) = fx_code n t (FxCall m None)"
  by (simp add: fx_loop_rest futex_wait_def futex_call_code)

lemma fx_turn_some:
  "expiry_is_some t \<Longrightarrow> fx_code n t (FxTurn m) = Act (\<lambda>s. s) (\<lambda>s. 
     case expiry_checked_duration (k_time (fx_kernel s)) t of
       Some diff \<Rightarrow> fx_code n t (FxCall m (futex_timespec diff))
     | None \<Rightarrow> fx_code n t (FxCheck m True))"
proof -
  assume t: "expiry_is_some t"
  have "instant_now linux = Act (\<lambda>s. s) (\<lambda>s. Ret (k_time (fx_kernel s)))" by (simp add: linux_def)
  with t show ?thesis
    by (simp add: fx_loop_rest futex_wait_def fun_eq_iff futex_call_code split: option.split)
qed

text \<open>The places of a thread that notifies.\<close>

datatype fx_notifier = FxNotify | FxWake | FxNotified bool

primrec fx_ncode :: "fx_notifier \<Rightarrow> (linux_state futex_parker, park_end) prog" where
  "fx_ncode FxNotify = notify_thread_code (futex_unpark linux)"
| "fx_ncode FxWake = bind (futex_wake linux) (\<lambda>_. Ret (Notified True))"
| "fx_ncode (FxNotified b) = Ret (Notified b)"

text \<open>A thread that sleeps with a notification pending is woken, or a notifier owes it the wakeup.\<close>

primrec fx_parking :: "fx_place \<Rightarrow> bool" where
  "fx_parking FxStart = False" | "fx_parking FxConsume = False" | "fx_parking FxMark = False"
| "fx_parking (FxTurn m) = True" | "fx_parking (FxCall m ts) = True" | "fx_parking (FxAsleep m ts) = True"
| "fx_parking (FxCheck m b) = True" | "fx_parking (FxSwap u) = True" | "fx_parking (FxDone r) = False"
| "fx_parking FxHang = True"

definition fx_sleeps :: "fx_place \<Rightarrow> bool" where
  "fx_sleeps p = (\<exists>m ts. p = FxAsleep m ts)"

primrec fx_taken :: "fx_place \<Rightarrow> nat" where
  "fx_taken FxStart = 0" | "fx_taken FxConsume = 0" | "fx_taken FxMark = 0" | "fx_taken (FxTurn m) = 0"
| "fx_taken (FxCall m ts) = 0" | "fx_taken (FxAsleep m ts) = 0" | "fx_taken (FxCheck m b) = 0"
| "fx_taken (FxSwap u) = 0" | "fx_taken (FxDone r) = of_bool (r \<noteq> TimedOut)" | "fx_taken FxHang = 0"

definition fx_inv :: "linux_state futex_parker \<Rightarrow> fx_place \<Rightarrow> fx_notifier multiset \<Rightarrow> bool" where
  "fx_inv s p N =
     (\<exists>u. fx_word s = fx_flags (fx_parking p) u \<and> (k_asleep (fx_kernel s) = fx_sleeps p) \<and>
        (k_woken (fx_kernel s) \<longrightarrow> fx_sleeps p) \<and> (p = FxConsume \<longrightarrow> u) \<and>
        (fx_sleeps p \<and> u \<and> \<not> k_woken (fx_kernel s) \<longrightarrow> FxWake \<in># N))"

definition fx_given :: "fx_notifier \<Rightarrow> nat" where "fx_given n = of_bool (n = FxWake \<or> n = FxNotified True)"

lemma fx_turn_summary [simp]:
  "fx_parking (fx_turn t m)" "\<not> fx_sleeps (fx_turn t m)" "fx_taken (fx_turn t m) = 0" "fx_turn t m \<noteq> FxConsume"
  by (cases m; auto simp: fx_turn_def fx_sleeps_def)+

lemma fx_sleeps_simps [simp]:
  "fx_sleeps (FxAsleep m ts)" "\<not> fx_sleeps FxStart" "\<not> fx_sleeps FxConsume" "\<not> fx_sleeps FxMark" "\<not> fx_sleeps (FxTurn m)"
  "\<not> fx_sleeps (FxCall m ts)" "\<not> fx_sleeps (FxCheck m b)" "\<not> fx_sleeps (FxSwap u)" "\<not> fx_sleeps (FxDone r)" "\<not> fx_sleeps FxHang"
  by (simp_all add: fx_sleeps_def)

lemma fx_start_code:
  "fx_code n t FxStart = fx_load (\<lambda>st. if st AND STATE_UNPARK_futex \<noteq> 0 then bind (futex_consume st) fx_end
     else bind (fx_compare_exchange st (st OR STATE_PARK_futex) (\<lambda>r. case r of
         Inr _ \<Rightarrow> futex_park_loop linux n (st OR STATE_PARK_futex) t
       | Inl st \<Rightarrow> if st AND STATE_UNPARK_futex \<noteq> 0 then futex_consume st
           else Panic ''Invalid lock state update'')) fx_end)"
  by (simp add: park_thread_code_def futex_raw_park_def futex_park_def fx_load_def fx_end_def [abs_def] bind_assoc
      fun_eq_iff)

lemma fx_call_ok:
  assumes "fx_inv s (FxCall m ts) N" and "tstep (fx_code n t (FxCall m ts)) s q s'"
  shows "\<exists>p'. q = fx_code n t p' \<and> fx_inv s' p' N \<and> fx_taken p' = 0 \<and> futex_notified s' = futex_notified s"
proof -
  from assms(1) obtain u where w: "fx_word s = fx_flags True u" "\<not> k_asleep (fx_kernel s)" "\<not> k_woken (fx_kernel s)"
    by (auto simp: fx_inv_def)
  show ?thesis
  proof (cases u)
    case True
    with w assms(2) have "q = fx_code n t (FxCheck m False)" "s' = s" by (auto simp: linux_wait_def fx_result_def)
    with w show ?thesis by (intro exI [of _ "FxCheck m False"]) (auto simp: fx_inv_def)
  next
    case False
    with w assms(2) have "q = fx_code n t (FxAsleep m ts)"
      "s' = k_update (\<lambda>k. k\<lparr>k_asleep := True, k_woken := False\<rparr>) s" by (auto simp: linux_wait_def fx_sleep_def simp del: bind.simps(6))
    with w False show ?thesis by (intro exI [of _ "FxAsleep m ts"]) (auto simp: fx_inv_def k_update_def futex_notified_def)
  qed
qed

lemma fx_step_ok:
  assumes "fx_inv s p N" and "tstep (fx_code n t p) s q s'"
  shows "\<exists>p'. q = fx_code n t p' \<and> fx_inv s' p' N \<and>
    fx_taken p' + of_bool (futex_notified s') = fx_taken p + of_bool (futex_notified s)"
proof -
  from assms(1) obtain u where w: "fx_word s = fx_flags (fx_parking p) u"
    and k: "k_asleep (fx_kernel s) = fx_sleeps p" "k_woken (fx_kernel s) \<longrightarrow> fx_sleeps p"
      "p = FxConsume \<longrightarrow> u" "fx_sleeps p \<and> u \<and> \<not> k_woken (fx_kernel s) \<longrightarrow> FxWake \<in># N" by (auto simp: fx_inv_def)
  note d = fx_inv_def futex_notified_def
  show ?thesis
  proof (cases p)
    case FxStart
    with assms(2) w k show ?thesis
      unfolding FxStart fx_start_code
      by (intro exI [of _ "if u then FxConsume else FxMark"]) (auto simp: fx_load_def d)
  next
    case FxConsume
    with assms(2) w k show ?thesis
      by (intro exI [of _ "FxDone Skipped"]) (auto simp: futex_consume_def fx_swap_def debug_assert_def fx_end_def d)
  next
    case FxMark
    with assms(2) w k show ?thesis
      by (intro exI [of _ "if u then FxConsume else fx_turn t n"])
        (auto simp: fx_compare_exchange_def fx_turn_code [symmetric] d split: if_splits)
  next
    case FxHang
    with assms(2) show ?thesis by auto
  next
    case (FxDone r)
    with assms(2) show ?thesis by auto
  next
    case (FxSwap v)
    with assms(2) w k show ?thesis
      by (intro exI [of _ "FxDone (if u then Unparked else TimedOut)"]) (auto simp: fx_swap_def fx_end_def d)
  next
    case (FxCheck m b)
    with assms(2) w k show ?thesis
      by (intro exI [of _ "if b \<or> u then FxSwap u else fx_turn t m"])
        (auto simp: fx_rest_def fx_load_def fx_turn_code [symmetric] d)
  next
    case (FxCall m ts)
    with assms fx_call_ok [of s m ts N n t q s'] show ?thesis by auto
  next
    case (FxAsleep m ts)
    with assms(2) have "tstep (bind (fx_sleep ts) (\<lambda>r. fx_rest m t (fx_result ts r))) s q s'" by simp
    then have "(q = fx_rest m t (Inr True) \<or> q = fx_rest m t (Inr False)) \<and>
        s' = k_update (\<lambda>k. k\<lparr>k_asleep := False, k_woken := False\<rparr>) s"
      by (auto simp: fx_sleep_def k_return_def fx_result_def split: if_splits)
    with FxAsleep w k show ?thesis by (auto simp: k_update_def d intro: exI [of _ "FxCheck m True"] exI [of _ "FxCheck m False"])
  next
    case (FxTurn m)
    show ?thesis
    proof (cases "expiry_is_some t")
      case True
      with assms(2) FxTurn have "s' = s \<and> ((\<exists>ts. q = fx_code n t (FxCall m ts)) \<or> q = fx_code n t (FxCheck m True))"
        by (auto simp: fx_turn_some split: option.splits simp del: fx_code.simps)
      moreover have "fx_inv s (FxCall m ts) N" "fx_inv s (FxCheck m True) N" for ts
        using assms(1) FxTurn by (auto simp: fx_inv_def)
      ultimately show ?thesis using FxTurn
        by (auto intro: exI [of _ "FxCall m ts" for ts] exI [of _ "FxCheck m True"] simp del: fx_code.simps)
    next
      case False
      have "fx_inv s (FxCall m None) N" using assms(1) FxTurn by (auto simp: fx_inv_def)
      with fx_call_ok [of s m None N n t q s'] assms(2) FxTurn False show ?thesis
        by (auto simp: fx_turn_none simp del: fx_code.simps)
    qed
  qed
qed

lemma fx_notifier_ok:
  assumes "fx_inv s p (add_mset a N)" and "tstep (fx_ncode a) s q s'"
  shows "\<exists>b. q = fx_ncode b \<and> fx_inv s' p (add_mset b N) \<and> b \<noteq> FxNotify \<and> fx_given a \<le> fx_given b \<and>
    fx_given b + of_bool (futex_notified s) = fx_given a + of_bool (futex_notified s') \<and>
    (a \<noteq> FxNotify \<or> 0 < fx_given b \<or> futex_notified s)"
proof -
  note d = fx_inv_def futex_notified_def fx_given_def
  from assms(1) obtain u where w: "fx_word s = fx_flags (fx_parking p) u" by (auto simp: fx_inv_def)
  show ?thesis
  proof (cases a)
    case FxNotify
    with assms w show ?thesis
      by (intro exI [of _ "if u then FxNotified False else if fx_parking p then FxWake else FxNotified True"])
        (auto simp: notify_thread_code_def futex_unpark_def fx_fetch_or_def bind_assoc d fx_sleeps_def)
  next
    case FxWake
    with assms w show ?thesis
      by (intro exI [of _ "FxNotified True"])
        (auto simp: futex_wake_def debug_assert_def linux_def linux_wake_def k_update_def d)
  next
    case (FxNotified b)
    with assms show ?thesis by auto
  qed
qed

lemma fx_parker_moves: "thread_step (fx_code n t p) False s = None \<longleftrightarrow>
    p = FxHang \<or> (\<exists>r. p = FxDone r) \<or> fx_sleeps p \<and> \<not> k_woken (fx_kernel s)"
proof (cases p)
  case (FxTurn m)
  show ?thesis
  proof (cases "expiry_is_some t")
    case True
    with FxTurn show ?thesis by (simp add: fx_turn_some del: fx_code.simps)
  next
    case False
    with FxTurn show ?thesis by (simp add: fx_turn_none linux_wait_def del: fx_code.simps(4))
  qed
qed (auto simp: fx_start_code fx_load_def futex_consume_def fx_swap_def fx_compare_exchange_def linux_wait_def
    fx_sleep_def k_return_def fx_rest_def simp del: fx_code.simps(1))

lemma fx_code_kind: "(ended (fx_code n t p) \<longleftrightarrow> (\<exists>r. p = FxDone r)) \<and> \<not> panicked (fx_code n t p)"
proof (cases p)
  case (FxTurn m)
  show ?thesis
  proof (cases "expiry_is_some t")
    case True
    with FxTurn show ?thesis by (simp add: fx_turn_some del: fx_code.simps)
  next
    case False
    with FxTurn show ?thesis by (simp add: fx_turn_none linux_wait_def del: fx_code.simps(4))
  qed
qed (auto simp: fx_start_code fx_load_def futex_consume_def fx_swap_def fx_compare_exchange_def linux_wait_def
    fx_sleep_def k_return_def fx_rest_def simp del: fx_code.simps(1))

lemma fx_ncode_moves: "thread_step (fx_ncode a) False s = None \<longleftrightarrow> (\<exists>b. a = FxNotified b)"
  by (cases a) (simp_all add: notify_thread_code_def futex_unpark_def fx_fetch_or_def futex_wake_def linux_def linux_wake_def)

lemma fx_ncode_kind: "(ended (fx_ncode a) \<longleftrightarrow> (\<exists>b. a = FxNotified b)) \<and> \<not> panicked (fx_ncode a)"
  by (cases a) (simp_all add: notify_thread_code_def futex_unpark_def fx_fetch_or_def futex_wake_def linux_def linux_wake_def)

interpretation futex_parks: notified_park "fx_code n t" fx_ncode fx_inv futex_notified fx_taken fx_given
    "\<lambda>a. a \<noteq> FxNotify"
  for n t
proof (unfold_locales, goal_cases)
  case (1 s p N q s')
  then show ?case by (rule fx_step_ok)
next
  case (2 s p a N q s')
  then show ?case by (rule fx_notifier_ok)
next
  case (3 s p N)
  then show ?case
    by (auto simp: fx_parker_moves fx_ncode_moves fx_ncode_kind fx_code_kind fx_inv_def futex_notified_def fx_sleeps_def)
next
  case (4 p)
  then show ?case by (auto simp: fx_code_kind took_parked)
next
  case (5 a)
  then show ?case by (auto simp: fx_ncode_kind fx_given_def)
qed (simp_all add: fx_code_kind fx_ncode_kind)


definition futex_race :: "nat \<Rightarrow> expiry \<Rightarrow> nat \<Rightarrow> (linux_state futex_parker, park_end) config" where
  "futex_race n t k =
     (futex_park_new linux_start,
      park_thread_code (futex_raw_park linux n t) # replicate k (notify_thread_code (futex_unpark linux)))"



end
