(* ===== verification/Listen.thy ===== *)
theory Listen
  imports ParkRules Refcount
begin

text \<open>
  \<open>suspend-core/src/listen.rs\<close>: the counted allocation \<open>ListenInner\<close> with a parker in it, its
  owner \<open>Listener\<close>, the guard that parks, the \<open>Notifier\<close>s and the wakers.  The parker is the
  native one of the platform: its state is a type parameter and its operations are arguments.
  There is one allocation, so that a \<open>BoxPtr\<close> has one value.
\<close>

subsection \<open>ListenInner\<close>

record 'p listen_inner =
  l_count :: usize
  l_parker :: 'p
  l_freed :: nat

type_synonym ('p, 'r) lprog = "('p listen_inner, 'r) prog"

definition LISTEN_MAX_REFCOUNT :: usize where
  "LISTEN_MAX_REFCOUNT = 0x7FFFFFFFFFFFFFFF"

definition listen_inner_new_with_count :: "usize \<Rightarrow> 'p \<Rightarrow> 'p listen_inner" where
  "listen_inner_new_with_count c p = \<lparr>l_count = c, l_parker = p, l_freed = 0\<rparr>"

definition listen_inner_new :: "'p \<Rightarrow> 'p listen_inner" where
  "listen_inner_new p = listen_inner_new_with_count 1 p"

definition l_access ::
  "('p listen_inner \<Rightarrow> 'p listen_inner) \<Rightarrow> ('p listen_inner \<Rightarrow> ('p, 'r) lprog) \<Rightarrow> ('p, 'r) lprog" where
  "l_access u k = Act u (\<lambda>s. if l_freed s = 0 then k s else Panic ''use after free'')"

text \<open>An operation of the parker on the field \<open>parker\<close>.\<close>

primrec on_parker :: "('p, 'r) prog \<Rightarrow> ('p, 'r) lprog" where
  "on_parker (Ret r) = Ret r"
| "on_parker (Panic m) = Panic m"
| "on_parker Hang = Hang"
| "on_parker (Act u k) =
     l_access (\<lambda>s. s\<lparr>l_parker := u (l_parker s)\<rparr>) (\<lambda>s. on_parker (k (l_parker s)))"
| "on_parker (Wait g p) = Wait (\<lambda>s. g (l_parker s)) (on_parker p)"
| "on_parker (Pick k) = Pick (\<lambda>b. on_parker (k b))"

definition inc_count :: "('p, 'r) lprog \<Rightarrow> ('p, 'r) lprog" where
  "inc_count k = l_access (\<lambda>s. s\<lparr>l_count := l_count s + 1\<rparr>)
     (\<lambda>s. if l_count s > LISTEN_MAX_REFCOUNT then Panic ''Exceeded max ref count'' else k)"

text \<open>The subtraction of Rust panics on overflow.\<close>

definition dec_count :: "(usize \<Rightarrow> ('p, 'r) lprog) \<Rightarrow> ('p, 'r) lprog" where
  "dec_count k = l_access (\<lambda>s. s\<lparr>l_count := l_count s - 1\<rparr>)
     (\<lambda>s. if l_count s = 0 then Panic ''attempt to subtract with overflow''
          else if l_count s = 1 then l_access (\<lambda>s. s) (\<lambda>_. k 0)
          else k (l_count s - 1))"

definition l_dealloc :: "('p, unit) lprog" where
  "l_dealloc = Act (\<lambda>s. s\<lparr>l_freed := l_freed s + 1\<rparr>)
     (\<lambda>s. if l_freed s \<noteq> 0 then Panic ''double free'' else Ret ())"

definition dec_count_drop :: "('p, unit) lprog" where
  "dec_count_drop = dec_count (\<lambda>c. if c = 0 then l_dealloc else Ret ())"

definition inner_notify :: "('p, bool) prog \<Rightarrow> ('p, bool) lprog" where
  "inner_notify unpark = on_parker unpark"

subsection \<open>Listener, Notifier and wakers\<close>

datatype listener = Listener
datatype notifier = Notifier
datatype waker = Waker

record listener_guard =
  g_release :: bool

definition listener_new :: "'p \<Rightarrow> listener \<times> 'p listen_inner" where
  "listener_new p = (Listener, listen_inner_new p)"

definition inner_waker :: "('p, waker) lprog" where
  "inner_waker = inc_count (Ret Waker)"

definition listener_lock ::
  "('p, lock_error + unit) prog \<Rightarrow> listener \<Rightarrow> ('p, lock_error + listener_guard) lprog" where
  "listener_lock acquire l =
     bind (on_parker acquire) (\<lambda>r. case r of
         Inl e \<Rightarrow> Ret (Inl e)
       | Inr _ \<Rightarrow> Ret (Inr \<lparr>g_release = True\<rparr>))"

definition listener_get_mut :: "listener \<Rightarrow> listener_guard" where
  "listener_get_mut l = \<lparr>g_release = False\<rparr>"

definition listener_notify :: "('p, bool) prog \<Rightarrow> listener \<Rightarrow> ('p, bool) lprog" where
  "listener_notify unpark l = inner_notify unpark"

definition listener_notifier :: "listener \<Rightarrow> ('p, notifier) lprog" where
  "listener_notifier l = inc_count (Ret Notifier)"

definition listener_waker :: "listener \<Rightarrow> ('p, waker) lprog" where
  "listener_waker l = inner_waker"

definition listener_drop :: "listener \<Rightarrow> ('p, unit) lprog" where
  "listener_drop l = dec_count_drop"

definition waker_clone :: "waker \<Rightarrow> ('p, waker) lprog" where
  "waker_clone w = inc_count (Ret w)"

definition waker_wake :: "('p, bool) prog \<Rightarrow> waker \<Rightarrow> ('p, unit) lprog" where
  "waker_wake unpark w = bind (inner_notify unpark) (\<lambda>_. dec_count_drop)"

definition waker_wake_by_ref :: "('p, bool) prog \<Rightarrow> waker \<Rightarrow> ('p, unit) lprog" where
  "waker_wake_by_ref unpark w = bind (inner_notify unpark) (\<lambda>_. Ret ())"

definition listen_waker_drop :: "waker \<Rightarrow> ('p, unit) lprog" where
  "listen_waker_drop w = dec_count_drop"

definition guard_park ::
  "(expiry \<Rightarrow> ('p, lock_error + park_result) prog) \<Rightarrow> listener_guard \<Rightarrow> expiry \<Rightarrow>
   ('p, lock_error + park_result) lprog" where
  "guard_park park g timeout = on_parker (park timeout)"

definition guard_notifier :: "listener_guard \<Rightarrow> ('p, notifier) lprog" where
  "guard_notifier g = inc_count (Ret Notifier)"

definition guard_waker :: "listener_guard \<Rightarrow> ('p, waker) lprog" where
  "guard_waker g = inner_waker"

definition guard_drop :: "('p, lock_error + unit) prog \<Rightarrow> listener_guard \<Rightarrow> ('p, unit) lprog" where
  "guard_drop release g =
     (if g_release g
      then bind (on_parker release) (\<lambda>r. case r of
          Inl e \<Rightarrow> Panic ''unwrap on LockError''
        | Inr _ \<Rightarrow> Ret ())
      else Ret ())"

definition notifier_clone :: "notifier \<Rightarrow> ('p, notifier) lprog" where
  "notifier_clone n = inc_count (Ret Notifier)"

definition notifier_notify :: "('p, bool) prog \<Rightarrow> notifier \<Rightarrow> ('p, bool) lprog" where
  "notifier_notify unpark n = inner_notify unpark"

definition notifier_drop :: "notifier \<Rightarrow> ('p, unit) lprog" where
  "notifier_drop n = dec_count_drop"

lemmas listen_handle_defs = listener_notify_def listener_notifier_def listener_waker_def inner_waker_def
  listener_drop_def waker_clone_def waker_wake_def waker_wake_by_ref_def listen_waker_drop_def
  notifier_clone_def notifier_notify_def notifier_drop_def inner_notify_def

subsection \<open>The parker behind the listener\<close>

lemma does_on_parker:
  assumes "does p os (l_parker s) Q" and "l_freed s = 0"
  shows "does (on_parker p) os s (\<lambda>r s'. Q r (l_parker s') \<and> l_count s' = l_count s \<and> l_freed s' = 0)"
  using assms
proof (induction p arbitrary: os s)
  case (Act u k)
  from Act.prems Act.IH [OF rangeI, of "l_parker s" os "s\<lparr>l_parker := u (l_parker s)\<rparr>"]
  show ?case by (simp add: does_def l_access_def)
next
  case (Pick k)
  show ?case
  proof (cases os)
    case Nil
    with Pick.prems Pick.IH [OF rangeI, of False "[]" s] show ?thesis by (simp add: does_def)
  next
    case (Cons b bs)
    with Pick.prems Pick.IH [OF rangeI, of b bs s] show ?thesis by (simp add: does_def)
  qed
qed (auto simp: does_def split: if_splits)

text \<open>One turn with a listener: lock, notify, park, and the drop of the guard.\<close>

definition listen_round ::
  "('p, lock_error + unit) prog \<Rightarrow> ('p, lock_error + unit) prog \<Rightarrow>
   (expiry \<Rightarrow> ('p, lock_error + park_result) prog) \<Rightarrow> ('p, bool) prog \<Rightarrow> expiry \<Rightarrow>
   ('p, bool \<times> (lock_error + park_result)) lprog" where
  "listen_round acquire release park unpark t =
     bind (listener_lock acquire Listener) (\<lambda>r. case r of
         Inl e \<Rightarrow> Panic ''unwrap on LockError''
       | Inr g \<Rightarrow> bind (notifier_notify unpark Notifier) (\<lambda>b.
           bind (guard_park park g t) (\<lambda>p. bind (guard_drop release g) (\<lambda>_. Ret (b, p)))))"

text \<open>What a listener does on a parker that keeps the laws of the interface.\<close>

locale parked_listener = raw_parker
begin

lemma listen_round_skips:
  assumes "idle (l_parker s)" and "\<not> held (l_parker s)" and "l_freed s = 0"
  shows "does (listen_round acquire release park unpark t) os s
    (\<lambda>r s'. r = (\<not> notified (l_parker s), Inr Skipped) \<and> \<not> held (l_parker s') \<and>
       \<not> notified (l_parker s') \<and> l_count s' = l_count s \<and> l_freed s' = 0)"
  unfolding listen_round_def listener_lock_def notifier_notify_def inner_notify_def guard_park_def
    guard_drop_def bind_assoc
  apply (rule does_bind [OF does_on_parker [OF acquire_free [OF assms(1,2)] assms(3)]])
  apply simp
  apply (rule does_bind [OF does_on_parker [OF unpark_sets]], blast, blast)
  apply (rule does_bind [OF does_on_parker [OF park_skips]], blast, blast, blast)
  apply (simp add: bind_assoc)
  apply (rule does_bind [OF does_on_parker [OF release_held]], blast, blast, blast)
  apply simp
  done

end

end
