(* ===== verification/ListenCount.thy ===== *)
theory ListenCount
  imports Listen PthreadPark
begin

text \<open>
  The reference count of \<open>ListenInner\<close> under concurrency: any number of threads that hold
  listeners, notifiers and wakers of one allocation, and clone, notify, wake and drop them in
  any interleaving.  The counter is the number of handles of all threads; the books are kept
  by the interface \<open>counted_threads\<close>, interpreted here.
\<close>

datatype handle = HListener | HNotifier | HWaker

datatype ref_op =
    LNotify | LNotifier | LWaker | LDrop
  | NClone | NNotify | NDrop
  | WClone | WWake | WWakeByRef | WDrop

primrec uses :: "ref_op \<Rightarrow> handle" where
  "uses LNotify = HListener" | "uses LNotifier = HListener" | "uses LWaker = HListener"
| "uses LDrop = HListener" | "uses NClone = HNotifier" | "uses NNotify = HNotifier"
| "uses NDrop = HNotifier" | "uses WClone = HWaker" | "uses WWake = HWaker"
| "uses WWakeByRef = HWaker" | "uses WDrop = HWaker"

text \<open>The handles of a thread behind an operation.\<close>

fun handles_after :: "ref_op \<Rightarrow> handle list \<Rightarrow> handle list" where
  "handles_after LNotifier hs = HNotifier # hs"
| "handles_after LWaker hs = HWaker # hs"
| "handles_after LDrop hs = remove1 HListener hs"
| "handles_after NClone hs = HNotifier # hs"
| "handles_after NDrop hs = remove1 HNotifier hs"
| "handles_after WClone hs = HWaker # hs"
| "handles_after WWake hs = remove1 HWaker hs"
| "handles_after WDrop hs = remove1 HWaker hs"
| "handles_after _ hs = hs"

primrec ref_call :: "('p, bool) prog \<Rightarrow> ref_op \<Rightarrow> ('p, unit) lprog" where
  "ref_call u LNotify = bind (listener_notify u Listener) (\<lambda>_. Ret ())"
| "ref_call u LNotifier = bind (listener_notifier Listener) (\<lambda>_. Ret ())"
| "ref_call u LWaker = bind (listener_waker Listener) (\<lambda>_. Ret ())"
| "ref_call u LDrop = listener_drop Listener"
| "ref_call u NClone = bind (notifier_clone Notifier) (\<lambda>_. Ret ())"
| "ref_call u NNotify = bind (notifier_notify u Notifier) (\<lambda>_. Ret ())"
| "ref_call u NDrop = notifier_drop Notifier"
| "ref_call u WClone = bind (waker_clone Waker) (\<lambda>_. Ret ())"
| "ref_call u WWake = waker_wake u Waker"
| "ref_call u WWakeByRef = waker_wake_by_ref u Waker"
| "ref_call u WDrop = listen_waker_drop Waker"

primrec handle_drop :: "handle \<Rightarrow> ('p, unit) lprog" where
  "handle_drop HListener = listener_drop Listener"
| "handle_drop HNotifier = notifier_drop Notifier"
| "handle_drop HWaker = listen_waker_drop Waker"

text \<open>
  A thread follows its script, passing over what it has no handle for, and drops at the end
  what it still holds.
\<close>

fun ref_client :: "('p, bool) prog \<Rightarrow> ref_op list \<Rightarrow> handle list \<Rightarrow> ('p, unit) lprog" where
  "ref_client u [] [] = Ret ()"
| "ref_client u [] (h # hs) = bind (handle_drop h) (\<lambda>_. ref_client u [] hs)"
| "ref_client u (x # xs) hs =
     (if uses x \<in> set hs then bind (ref_call u x) (\<lambda>_. ref_client u xs (handles_after x hs))
      else ref_client u xs hs)"

lemma ref_client_none [simp]: "ref_client u xs [] = Ret ()"
  by (induction xs) simp_all

subsection \<open>The four kinds of call\<close>

datatype effect = Inc | Dec | Note | NoteDec

primrec kind_of :: "ref_op \<Rightarrow> effect" where
  "kind_of LNotify = Note" | "kind_of LNotifier = Inc" | "kind_of LWaker = Inc" | "kind_of LDrop = Dec"
| "kind_of NClone = Inc" | "kind_of NNotify = Note" | "kind_of NDrop = Dec"
| "kind_of WClone = Inc" | "kind_of WWake = NoteDec" | "kind_of WWakeByRef = Note" | "kind_of WDrop = Dec"

primrec effect_code :: "('p, bool) prog \<Rightarrow> effect \<Rightarrow> ('p, unit) lprog" where
  "effect_code u Inc = inc_count (Ret ())"
| "effect_code u Dec = dec_count_drop"
| "effect_code u Note = bind (on_parker u) (\<lambda>_. Ret ())"
| "effect_code u NoteDec = bind (on_parker u) (\<lambda>_. dec_count_drop)"

lemma bind_inc_count: "bind (inc_count k) f = inc_count (bind k f)"
  by (auto simp: inc_count_def l_access_def fun_eq_iff)

lemma ref_call_effect: "ref_call u x = effect_code u (kind_of x)"
  by (cases x) (simp_all add: listen_handle_defs bind_inc_count)

lemma handle_drop_dec: "handle_drop h = dec_count_drop"
  by (cases h) (simp_all add: listen_handle_defs)

lemma length_handles_after:
  "uses x \<in> set hs \<Longrightarrow> length (handles_after x hs) =
     (case kind_of x of Inc \<Rightarrow> length hs + 1 | Dec \<Rightarrow> length hs - 1 | Note \<Rightarrow> length hs | NoteDec \<Rightarrow> length hs - 1)"
  by (cases x) (simp_all add: length_remove1)

subsection \<open>Places\<close>

datatype 'p ref_place =
    At "ref_op list" "handle list"
  | Noting "('p, bool) prog" bool "ref_op list" "handle list"
  | Loading
  | Freeing

primrec ref_code :: "('p, bool) prog \<Rightarrow> 'p ref_place \<Rightarrow> ('p, unit) lprog" where
  "ref_code u (At xs hs) = ref_client u xs hs"
| "ref_code u (Noting q d xs hs) = bind (on_parker q) (\<lambda>_.
     if d then bind dec_count_drop (\<lambda>_. ref_client u xs hs) else ref_client u xs hs)"
| "ref_code u Loading = l_access (\<lambda>s. s) (\<lambda>_. l_dealloc)"
| "ref_code u Freeing = l_dealloc"

primrec ref_weight :: "'p ref_place \<Rightarrow> nat" where
  "ref_weight (At xs hs) = length hs" | "ref_weight (Noting q d xs hs) = length hs + of_bool d"
| "ref_weight Loading = 0" | "ref_weight Freeing = 0"

primrec ref_releasing :: "'p ref_place \<Rightarrow> nat" where
  "ref_releasing (At xs hs) = 0" | "ref_releasing (Noting q d xs hs) = 0"
| "ref_releasing Loading = 1" | "ref_releasing Freeing = 1"

primrec ref_reserve :: "'p ref_place \<Rightarrow> nat" where
  "ref_reserve (At xs hs) = length hs + length xs"
| "ref_reserve (Noting q d xs hs) = length hs + length xs + of_bool d"
| "ref_reserve Loading = 0" | "ref_reserve Freeing = 0"

primrec place_ok :: "'p ref_place \<Rightarrow> bool" where
  "place_ok (At xs hs) = True"
| "place_ok (Noting q d xs hs) = (never_panics q \<and> 0 < length hs + of_bool d)"
| "place_ok Loading = True" | "place_ok Freeing = True"

definition ref_valid :: "('p, bool) prog \<Rightarrow> 'p ref_place \<Rightarrow> bool" where
  "ref_valid u p = (never_panics u \<and> place_ok p)"

lemma ref_weight_reserve: "ref_weight p \<le> ref_reserve p"
  by (cases p) simp_all

subsection \<open>One step\<close>

abbreviation ref_step :: "'p ref_place \<Rightarrow> 'p listen_inner \<Rightarrow> 'p ref_place \<Rightarrow> 'p listen_inner \<Rightarrow> bool" where
  "ref_step \<equiv> count_step (\<lambda>s. unat (l_count s)) l_freed ref_weight ref_reserve ref_releasing"

lemma note_step:
  assumes "tstep (bind (on_parker q) f) s r s'" and "never_panics q" and "l_freed s = 0"
  shows "(\<exists>b. tstep (f b) s r s') \<or>
    (\<exists>q'. r = bind (on_parker q') f \<and> never_panics q' \<and> l_count s' = l_count s \<and> l_freed s' = 0)"
  using assms
proof (induction q)
  case (Pick k)
  from Pick.prems(1) obtain b where "tstep (bind (on_parker (k b)) f) s r s'" by auto
  with Pick.IH [OF rangeI this] Pick.prems(2,3) show ?case by simp
next
  case (Act u k)
  then have r: "r = bind (on_parker (k (l_parker s))) f"
    and s': "s' = s\<lparr>l_parker := u (l_parker s)\<rparr>" by (auto simp: l_access_def)
  with Act.prems(2,3) show ?case by (intro disjI2 exI [of _ "k (l_parker s)"]) simp
qed auto

lemma dec_step:
  assumes "tstep (bind dec_count_drop (\<lambda>_. ref_client u xs hs)) s q s'"
    and "l_freed s = 0" and "unat (l_count s) = Suc (length hs + r)"
  shows "q = ref_code u (if l_count s = 1 then Loading else At xs hs) \<and> s' = s\<lparr>l_count := l_count s - 1\<rparr> \<and>
    (l_count s = 1 \<longrightarrow> hs = []) \<and> Suc (unat (l_count s')) = unat (l_count s)"
proof -
  from assms(3) have n: "l_count s \<noteq> 0" "l_count s = 1 \<Longrightarrow> hs = []" by auto
  have "unat (l_count s - 1) = unat (l_count s) - 1"
    using assms(3) by (simp add: unat_sub word_le_nat_alt)
  with assms n show ?thesis
    by (auto simp: dec_count_drop_def dec_count_def l_access_def l_dealloc_def fun_eq_iff)
qed

lemma inc_step:
  assumes "tstep (bind (inc_count (Ret ())) (\<lambda>_. p)) s q s'" and "l_freed s = 0"
    and "unat (l_count s) < 2 ^ 62"
  shows "q = p \<and> s' = s\<lparr>l_count := l_count s + 1\<rparr> \<and> unat (l_count s') = Suc (unat (l_count s))"
proof -
  from assms(3) have "\<not> LISTEN_MAX_REFCOUNT < l_count s"
    by (simp add: LISTEN_MAX_REFCOUNT_def word_less_nat_alt)
  moreover from assms(3) have "unat (l_count s + 1) = Suc (unat (l_count s))"
    by (subst unat_add_lem [THEN iffD1]) simp_all
  ultimately show ?thesis
    using assms by (auto simp: inc_count_def l_access_def)
qed

definition ref_moves :: "('p, bool) prog \<Rightarrow> 'p ref_place \<Rightarrow> 'p listen_inner \<Rightarrow> ('p, unit) lprog \<Rightarrow> 'p listen_inner \<Rightarrow> bool" where
  "ref_moves u p s q s' = (\<exists>p'. ref_valid u p' \<and> q = ref_code u p' \<and> ref_step p s p' s')"

lemma ref_moves_weaken:
  assumes "ref_moves u p s q s'" and "ref_weight p = ref_weight p2" and "ref_reserve p \<le> ref_reserve p2"
    and "ref_releasing p = ref_releasing p2"
  shows "ref_moves u p2 s q s'"
  using assms by (fastforce simp: ref_moves_def count_step_def)

lemma dec_moves:
  assumes "tstep (bind dec_count_drop (\<lambda>_. ref_client u xs hs)) s q s'"
    and "l_freed s = 0" and "unat (l_count s) = ref_weight p + r" and "never_panics u"
    and "ref_weight p = Suc (length hs)" and "length hs + length xs \<le> ref_reserve p" and "ref_releasing p = 0"
  shows "ref_moves u p s q s'"
proof -
  from assms(3,5) have c: "unat (l_count s) = Suc (length hs + r)" by simp
  have one: "l_count s = 1 \<longleftrightarrow> unat (l_count s) = 1" by (simp add: word_unat_eq_iff)
  from dec_step [OF assms(1,2) c] c assms(2,4-7) one show ?thesis
    unfolding ref_moves_def
    by (intro exI [of _ "if l_count s = 1 then Loading else At xs hs"])
       (auto simp: count_step_def ref_valid_def)
qed

lemma note_moves:
  fixes q :: "('p, bool) prog"
  assumes "tstep (bind (on_parker q) f) s r s'" and "never_panics q" and "l_freed s = 0"
    and "f = (\<lambda>_. if d then bind dec_count_drop (\<lambda>_. ref_client u xs hs) else ref_client u xs hs)"
    and "never_panics u" and "0 < length hs + of_bool d"
    and "ref_weight p = length hs + of_bool d" and "length hs + length xs + of_bool d \<le> ref_reserve p"
    and "ref_releasing p = 0"
    and "\<And>b. tstep (f b) s r s' \<Longrightarrow> ref_moves u p s r s'"
  shows "ref_moves u p s r s'"
  using note_step [OF assms(1-3)]
proof (elim disjE exE conjE)
  fix q' assume "r = bind (on_parker q') f" "never_panics q'" "l_count s' = l_count s" "l_freed s' = 0"
  with assms(3-9) show ?thesis
    unfolding ref_moves_def
    by (intro exI [of _ "Noting q' d xs hs"]) (auto simp: count_step_def ref_valid_def)
qed (rule assms(10))

lemma client_moves:
  assumes "tstep (ref_client u xs hs) s q s'" and "never_panics u" and "l_freed s = 0"
    and "unat (l_count s) = length hs + r" and "unat (l_count s) < 2 ^ 62"
  shows "ref_moves u (At xs hs) s q s'"
  using assms
proof (induction xs arbitrary: hs)
  case Nil
  show ?case
  proof (cases hs)
    case (Cons h ks)
    with Nil show ?thesis
      by (intro dec_moves [of u "[]" ks s q s' _ r]) (simp_all add: handle_drop_dec)
  qed (use Nil in auto)
next
  case (Cons x xs)
  let ?ks = "handles_after x hs"
  show ?case
  proof (cases "uses x \<in> set hs")
    case False
    with Cons.prems have "ref_moves u (At xs hs) s q s'" by (intro Cons.IH) simp_all
    then show ?thesis by (rule ref_moves_weaken) simp_all
  next
    case True
    note len = length_handles_after [OF True]
    from True have pos: "0 < length hs" by (cases hs) auto
    from True Cons.prems(1) have t: "tstep (bind (effect_code u (kind_of x)) (\<lambda>_. ref_client u xs ?ks)) s q s'"
      by (simp add: ref_call_effect)
    show ?thesis
    proof (cases "kind_of x")
      case Inc
      with t inc_step [OF _ Cons.prems(3,5), of "ref_client u xs ?ks" q s'] len Cons.prems(2-4) pos show ?thesis
        unfolding ref_moves_def
        by (intro exI [of _ "At xs ?ks"]) (auto simp: count_step_def ref_valid_def)
    next
      case Dec
      with t len Cons.prems(2-4) pos show ?thesis
        by (intro dec_moves [of u xs ?ks s q s' _ r]) simp_all
    next
      case Note
      with t have "tstep (bind (on_parker u) (\<lambda>_. ref_client u xs ?ks)) s q s'" by (simp add: bind_assoc)
      then show ?thesis
      proof (rule note_moves [where d = False and xs = xs and hs = ?ks and u = u])
        assume "tstep (ref_client u xs ?ks) s q s'"
        with Cons.prems Note len have "ref_moves u (At xs ?ks) s q s'" by (intro Cons.IH) simp_all
        then show "ref_moves u (At (x # xs) hs) s q s'"
          by (rule ref_moves_weaken) (use Note len in simp_all)
      qed (use Cons.prems len Note pos in simp_all)
    next
      case NoteDec
      with t have "tstep (bind (on_parker u) (\<lambda>_. bind dec_count_drop (\<lambda>_. ref_client u xs ?ks))) s q s'"
        by (simp add: bind_assoc)
      then show ?thesis
      proof (rule note_moves [where d = True and xs = xs and hs = ?ks and u = u])
        assume "tstep (bind dec_count_drop (\<lambda>_. ref_client u xs ?ks)) s q s'"
        with Cons.prems NoteDec len pos show "ref_moves u (At (x # xs) hs) s q s'"
          by (intro dec_moves [of u xs ?ks s q s' _ r]) simp_all
      qed (use Cons.prems len NoteDec pos in simp_all)
    qed
  qed
qed

lemma place_moves:
  assumes t: "tstep (ref_code u p) s q s'" and v: "ref_valid u p" and f: "l_freed s = 0"
    and c: "unat (l_count s) = ref_weight p + sum_of ref_weight others"
    and b: "sum_of ref_reserve (p # others) < 2 ^ 62"
    and r: "ref_releasing p = 0 \<longleftrightarrow> unat (l_count s) \<noteq> 0"
  shows "ref_moves u p s q s'"
proof -
  have "unat (l_count s) \<le> sum_of ref_reserve (p # others)"
    using c ref_weight_reserve [of p] sum_of_mono [of ref_weight ref_reserve others, OF ref_weight_reserve] by simp
  with b have small: "unat (l_count s) < 2 ^ 62" by linarith
  from v have u: "never_panics u" by (simp add: ref_valid_def)
  show ?thesis
  proof (cases p)
    case (At xs hs)
    with t c show ?thesis by (simp add: client_moves [OF _ u f _ small])
  next
    case (Noting g d xs hs)
    show ?thesis
    proof (rule note_moves [of g _ s q s' d u xs hs p])
      fix x assume n: "tstep (if d then bind dec_count_drop (\<lambda>_. ref_client u xs hs) else ref_client u xs hs) s q s'"
      show "ref_moves u p s q s'"
      proof (cases d)
        case True
        with n Noting c u f show ?thesis by (intro dec_moves [of u xs hs s q s' _ "sum_of ref_weight others"]) simp_all
      next
        case False
        with n Noting c show ?thesis
          by (intro ref_moves_weaken [OF client_moves [OF _ u f _ small], of xs hs q s' "sum_of ref_weight others"]) simp_all
      qed
    qed (use t v f u Noting in \<open>simp_all add: ref_valid_def\<close>)
  next
    case Loading
    with t f u r show ?thesis
      unfolding ref_moves_def
      by (intro exI [of _ Freeing]) (auto simp: l_access_def count_step_def ref_valid_def)
  next
    case Freeing
    with t f u r show ?thesis
      unfolding ref_moves_def
      by (intro exI [of _ "At [] []"]) (auto simp: l_dealloc_def count_step_def ref_valid_def)
  qed
qed

subsection \<open>Every interleaving\<close>

lemma client_act: "hs \<noteq> [] \<Longrightarrow> never_panics u \<Longrightarrow> (\<forall>m. ref_client u xs hs \<noteq> Panic m) \<and> ref_client u xs hs \<noteq> Ret ()"
proof (induction xs arbitrary: hs)
  case Nil
  then show ?case by (cases hs) (simp_all add: handle_drop_dec dec_count_drop_def dec_count_def l_access_def)
next
  case (Cons x xs)
  show ?case
  proof (cases "uses x \<in> set hs")
    case True
    have n: "(\<forall>m. bind (on_parker q) f \<noteq> Panic m) \<and> bind (on_parker q) f \<noteq> Ret ()"
      if "never_panics q" "\<And>b. (\<forall>m. f b \<noteq> Panic m) \<and> f b \<noteq> Ret ()"
      for q and f :: "bool \<Rightarrow> ('a, unit) lprog"
      using that by (cases q) (auto simp: l_access_def)
    let ?ks = "handles_after x hs"
    note len = length_handles_after [OF True]
    show ?thesis
    proof (cases "kind_of x")
      case Note
      with len Cons.prems have "?ks \<noteq> []" by auto
      from n [OF Cons.prems(2)] Cons.IH [OF this Cons.prems(2)] Note True show ?thesis
        by (simp add: ref_call_effect bind_assoc)
    next
      case NoteDec
      have "(\<forall>m. bind dec_count_drop (\<lambda>_. ref_client u xs ?ks) \<noteq> Panic m) \<and>
          bind dec_count_drop (\<lambda>_. ref_client u xs ?ks) \<noteq> Ret ()"
        by (simp add: dec_count_drop_def dec_count_def l_access_def)
      from n [OF Cons.prems(2) this] NoteDec True show ?thesis
        by (simp add: ref_call_effect bind_assoc)
    qed (simp_all add: True ref_call_effect inc_count_def dec_count_drop_def dec_count_def l_access_def)
  qed (use Cons in simp)
qed

lemma ref_code_forms:
  assumes "ref_valid u p"
  shows "ref_code u p \<noteq> Panic m" and "ref_code u p = Ret () \<longleftrightarrow> ref_weight p + ref_releasing p = 0"
proof -
  have "ref_code u p \<noteq> Panic m \<and> (ref_code u p = Ret () \<longleftrightarrow> ref_weight p + ref_releasing p = 0)"
  proof (cases p)
    case (At xs hs)
    with client_act [of hs u xs] assms show ?thesis by (cases "hs = []") (simp_all add: ref_valid_def)
  next
    case (Noting g d xs hs)
    let ?f = "\<lambda>_ :: bool. if d then bind dec_count_drop (\<lambda>_. ref_client u xs hs) else ref_client u xs hs"
    have "(\<forall>m. ?f b \<noteq> Panic m) \<and> ?f b \<noteq> Ret ()" for b
    proof (cases d)
      case False
      with Noting assms client_act [of hs u xs] show ?thesis by (simp add: ref_valid_def)
    qed (simp add: dec_count_drop_def dec_count_def l_access_def)
    with Noting assms show ?thesis by (cases g) (auto simp: ref_valid_def l_access_def)
  qed (simp_all add: l_access_def l_dealloc_def)
  then show "ref_code u p \<noteq> Panic m" and "ref_code u p = Ret () \<longleftrightarrow> ref_weight p + ref_releasing p = 0"
    by simp_all
qed

interpretation lst: counted_threads "\<lambda>s :: 'p listen_inner. unat (l_count s)" l_freed "ref_code u"
    ref_weight ref_reserve ref_releasing "ref_valid u" "2 ^ 62"
  for u
proof (unfold_locales, goal_cases)
  case (1 p s q s' others)
  from place_moves [OF 1(2,1,3,4,5,6)] show ?case by (simp add: ref_moves_def)
qed (simp_all add: ref_code_forms)

text \<open>The allocation with the handles of some threads, and the threads.\<close>

definition shared_listener :: "'p \<Rightarrow> (ref_op list \<times> handle list) list \<Rightarrow> 'p listen_inner" where
  "shared_listener x cs =
     listen_inner_new_with_count (of_nat (sum_list (map (\<lambda>(xs, hs). length hs) cs))) x"

definition listener_threads ::
  "('p, bool) prog \<Rightarrow> (ref_op list \<times> handle list) list \<Rightarrow> ('p, unit) lprog list" where
  "listener_threads u cs = map (\<lambda>(xs, hs). ref_client u xs hs) cs"

text \<open>C19. Any number of threads hold listeners, notifiers and wakers of one allocation and clone,
  notify, wake and drop them, in any interleaving and on any parker whose \<open>unpark\<close> does not
  panic, as long as fewer than \<open>2 ^ 62\<close> handles can come to exist: no thread panics or touches the
  allocation after its release, and it is released exactly when the last thread is done.\<close>

theorem listen_count_safe:
  fixes u :: "('p, bool) prog"
  assumes "never_panics u" and "sum_list (map (\<lambda>(xs, hs). length hs + length xs) cs) < 2 ^ 62"
    and "0 < sum_list (map (\<lambda>(xs, hs). length hs) cs)"
    and "reach (shared_listener x cs, listener_threads u cs) d"
  shows "released_when_done l_freed d"
proof -
  let ?ps = "map (\<lambda>(xs, hs). At xs hs) cs :: 'p ref_place list" and ?n = "sum_list (map (\<lambda>(xs, hs). length hs) cs)"
  have m: "sum_of ref_weight ?ps = ?n" "sum_of ref_releasing ?ps = 0"
    "sum_of ref_reserve ?ps = sum_list (map (\<lambda>(xs, hs). length hs + length xs) cs)"
    by (induction cs) auto
  have "?n \<le> sum_list (map (\<lambda>(xs, hs). length hs + length xs) cs)" by (rule sum_list_mono) auto
  then have "?n < 2 ^ 64" using assms(2) by simp
  then have "unat (l_count (shared_listener x cs)) = ?n"
    unfolding shared_listener_def listen_inner_new_with_count_def
    by (simp add: unsigned_of_nat take_bit_nat_eq_self)
  with m assms(1-3) have c: "lst.counted u (shared_listener x cs) ?ps"
    unfolding lst.counted_def
    by (simp add: shared_listener_def listen_inner_new_with_count_def list_all_iff ref_valid_def
        split_beta del: sum_list_eq_0_iff)
  have "listener_threads u cs = map (ref_code u) ?ps" by (auto simp: listener_threads_def)
  with assms(4) show ?thesis using lst.safe [OF _ c] by simp
qed

theorem listen_count_safe_witness:
  "released_when_done l_freed
    (shared_listener (pthread_park_new posix_start) [([LWaker, LNotify], [HListener]), ([WWake], [HWaker, HNotifier])],
     listener_threads (pthread_unpark posix) [([LWaker, LNotify], [HListener]), ([WWake], [HWaker, HNotifier])])"
  by (rule listen_count_safe [OF _ _ _ reach.start])
    (simp_all add: pthread_unpark_def p_access_defs posix_defs)

end
