(* ===== verification/ThreadListen.thy ===== *)
theory ThreadListen
  imports Listen ThreadBlock
begin

text \<open>
  The thread-local listener of \<open>suspend-core/src/thread.rs\<close> and what uses it.  The listeners of
  a thread are a list: the first is the cached one, which comes with a waker and is borrowed
  while a call of \<open>with_listener\<close> uses it; a nested call makes a new one behind it.
\<close>

subsection \<open>THREAD_LISTEN and with_listener\<close>

record 'p thread_state =
  t_listeners :: "'p listen_inner list"
  t_borrowed :: bool

type_synonym ('p, 'r) tprog = "('p thread_state, 'r) prog"

definition thread_listen :: "'p \<Rightarrow> 'p thread_state" where
  "thread_listen p = \<lparr>t_listeners = [listen_inner_new_with_count 2 p], t_borrowed = False\<rparr>"

primrec on_listener :: "nat \<Rightarrow> ('p, 'r) lprog \<Rightarrow> ('p, 'r) tprog" where
  "on_listener i (Ret r) = Ret r"
| "on_listener i (Panic m) = Panic m"
| "on_listener i Hang = Hang"
| "on_listener i (Act u k) =
     Act (\<lambda>s. s\<lparr>t_listeners := (t_listeners s)[i := u (t_listeners s ! i)]\<rparr>)
       (\<lambda>s. on_listener i (k (t_listeners s ! i)))"
| "on_listener i (Wait g p) = Wait (\<lambda>s. g (t_listeners s ! i)) (on_listener i p)"
| "on_listener i (Pick k) = Pick (\<lambda>b. on_listener i (k b))"

text \<open>\<open>f\<close> gets the index of the listener that its guard and its waker belong to.\<close>

definition with_listener :: "'p \<Rightarrow> (nat \<Rightarrow> ('p, 'r) tprog) \<Rightarrow> ('p, 'r) tprog" where
  "with_listener p f =
     Act (\<lambda>s. if t_borrowed s then s\<lparr>t_listeners := t_listeners s @ [listen_inner_new p]\<rparr>
              else s\<lparr>t_borrowed := True\<rparr>)
       (\<lambda>s. if t_borrowed s
            then (let i = length (t_listeners s) in
              bind (on_listener i (guard_waker (listener_get_mut Listener))) (\<lambda>w.
              bind (f i) (\<lambda>r.
              bind (on_listener i (listen_waker_drop w)) (\<lambda>_.
              bind (on_listener i (listener_drop Listener)) (\<lambda>_. Ret r)))))
            else bind (f 0) (\<lambda>r. Act (\<lambda>s. s\<lparr>t_borrowed := False\<rparr>) (\<lambda>_. Ret r)))"

definition park_thread ::
  "'p \<Rightarrow> (expiry \<Rightarrow> ('p, lock_error + park_result) prog) \<Rightarrow> (nat \<Rightarrow> notifier \<Rightarrow> ('p, unit) tprog) \<Rightarrow>
   expiry \<Rightarrow> ('p, park_result) tprog" where
  "park_thread p park f timeout =
     with_listener p (\<lambda>i.
       bind (on_listener i (guard_notifier (listener_get_mut Listener))) (\<lambda>n.
       bind (f i n) (\<lambda>_.
       bind (on_listener i (guard_park park (listener_get_mut Listener) timeout)) (\<lambda>r. case r of
           Inl e \<Rightarrow> Panic ''unwrap on LockError''
         | Inr x \<Rightarrow> Ret x))))"

text \<open>\<open>block_on\<close> and \<open>block_on_poll\<close>: \<open>poll\<close> is given the index for its waker.\<close>

definition thread_block_on ::
  "'p \<Rightarrow> (expiry \<Rightarrow> ('p, lock_error + park_result) prog) \<Rightarrow> nat \<Rightarrow>
   (nat \<Rightarrow> 'c \<Rightarrow> ('p, 'c \<times> 'a poll) tprog) \<Rightarrow> 'c \<Rightarrow> ('p, 'a) tprog" where
  "thread_block_on p park n poll c =
     with_listener p (\<lambda>i. block_on n (poll i)
       (on_listener i (guard_park park (listener_get_mut Listener) (Expiry None))) c)"

definition thread_block_on_poll ::
  "'p \<Rightarrow> (expiry \<Rightarrow> ('p, lock_error + park_result) prog) \<Rightarrow> nat \<Rightarrow>
   (nat \<Rightarrow> 'c \<Rightarrow> ('p, 'c \<times> 'a poll) tprog) \<Rightarrow> 'c \<Rightarrow> expiry \<Rightarrow> ('p, 'c \<times> 'a poll) tprog" where
  "thread_block_on_poll p park n poll c timeout =
     with_listener p (\<lambda>i. block_on_poll n (poll i)
       (on_listener i (guard_park park (listener_get_mut Listener) timeout)) c)"

lemma does_on_listener:
  assumes "does p os (t_listeners s ! i) Q" and "i < length (t_listeners s)"
  shows "does (on_listener i p) os s (\<lambda>r s'. \<exists>l. Q r l \<and> s' = s\<lparr>t_listeners := (t_listeners s)[i := l]\<rparr>)"
  using assms
proof (induction p arbitrary: os s)
  case (Ret r)
  then show ?case by (auto intro!: exI [of _ "t_listeners s ! i"])
next
  case (Act u k)
  from Act.prems Act.IH [OF rangeI, of "t_listeners s ! i" os
      "s\<lparr>t_listeners := (t_listeners s)[i := u (t_listeners s ! i)]\<rparr>"]
  show ?case by (simp add: does_def)
next
  case (Pick k)
  show ?case
  proof (cases os)
    case Nil
    with Pick.prems Pick.IH [OF rangeI, of False "[]" s] show ?thesis by (simp add: does_def)
  next
    case (Cons b bs)
    with Pick.prems Pick.IH [OF rangeI, of b bs s] show ?thesis by (simp add: does_def)
  qed
qed (auto simp: does_def split: if_splits)

subsection \<open>Blocking on a future that wakes the thread\<close>

text \<open>A future that is pending \<open>k\<close> times, and each time calls its waker.\<close>

definition self_waking :: "('p, bool) prog \<Rightarrow> 'a \<Rightarrow> nat \<Rightarrow> nat \<Rightarrow> ('p, nat \<times> 'a poll) tprog" where
  "self_waking unpark x i k =
     (if k = 0 then Ret (0, Ready x)
      else bind (on_listener i (waker_wake_by_ref unpark Waker)) (\<lambda>_. Ret (k - 1, Pending)))"

text \<open>
  The listener \<open>i\<close> of a thread: there, with a parker that satisfies \<open>ok\<close>, and the count \<open>c\<close>; before
  it are the listeners \<open>ls\<close>.
\<close>

definition listener_at ::
  "('p \<Rightarrow> bool) \<Rightarrow> nat \<Rightarrow> usize \<Rightarrow> bool \<Rightarrow> 'p listen_inner list \<Rightarrow> 'p thread_state \<Rightarrow> bool" where
  "listener_at ok i c b ls s = (take i (t_listeners s) = ls \<and> i < length (t_listeners s) \<and> ok (l_parker (t_listeners s ! i)) \<and>
     l_count (t_listeners s ! i) = c \<and> l_freed (t_listeners s ! i) = 0 \<and> t_borrowed s = b)"

context parked_listener
begin

lemma wake_at:
  assumes "listener_at idle i c b ls s"
  shows "does (on_listener i (waker_wake_by_ref unpark Waker)) os s
    (\<lambda>_. listener_at (\<lambda>p. idle p \<and> notified p) i c b ls)"
proof -
  let ?l = "t_listeners s ! i"
  from assms have l: "idle (l_parker ?l)" "l_freed ?l = 0" "i < length (t_listeners s)"
    by (simp_all add: listener_at_def)
  have "does (waker_wake_by_ref unpark Waker) os ?l
      (\<lambda>_ l. idle (l_parker l) \<and> notified (l_parker l) \<and> l_count l = l_count ?l \<and> l_freed l = 0)"
    unfolding waker_wake_by_ref_def inner_notify_def
    by (rule does_bind [OF does_on_parker [OF unpark_sets [OF l(1)] l(2)]]) simp
  from does_on_listener [OF this l(3)] show ?thesis
    by (rule does_weaken) (use assms in \<open>auto simp: listener_at_def\<close>)
qed

lemma park_at:
  assumes "listener_at (\<lambda>p. idle p \<and> notified p) i c b ls s"
  shows "does (on_listener i (guard_park park g t)) os s (\<lambda>r s'. r = Inr Skipped \<and> listener_at idle i c b ls s')"
proof -
  let ?l = "t_listeners s ! i"
  from assms have l: "idle (l_parker ?l)" "notified (l_parker ?l)" "l_freed ?l = 0" "i < length (t_listeners s)"
    by (simp_all add: listener_at_def)
  have "does (guard_park park g t) os ?l
      (\<lambda>r l. r = Inr Skipped \<and> idle (l_parker l) \<and> l_count l = l_count ?l \<and> l_freed l = 0)"
    unfolding guard_park_def
    by (rule does_weaken [OF does_on_parker [OF park_skips [OF l(1,2)] l(3)]]) simp
  from does_on_listener [OF this l(4)] show ?thesis
    by (rule does_weaken) (use assms in \<open>auto simp: listener_at_def\<close>)
qed

lemma block_on_self_waking:
  assumes "listener_at idle i c b ls s" and "k < n"
  shows "does (block_on n (self_waking unpark x i) (on_listener i (guard_park park g t)) k) os s
    (\<lambda>r s'. r = x \<and> listener_at idle i c b ls s')"
proof (rule block_on_returns [where A = "\<lambda>_. listener_at idle i c b ls" and m = id
      and W = "\<lambda>_. listener_at (\<lambda>p. idle p \<and> notified p) i c b ls"])
  fix k s os assume "listener_at idle i c b ls s"
  then show "does (self_waking unpark x i k) os s (\<lambda>(c', r) s'. case r of
      Ready y \<Rightarrow> y = x \<and> listener_at idle i c b ls s'
    | Pending \<Rightarrow> listener_at (\<lambda>p. idle p \<and> notified p) i c b ls s' \<and> id c' < id k)"
    by (auto simp: self_waking_def intro!: does_bind [OF wake_at])
next
  fix s os assume "listener_at (\<lambda>p. idle p \<and> notified p) i c b ls s"
  then show "does (on_listener i (guard_park park g t)) os s (\<lambda>r s'. (\<exists>x. r = Inr x) \<and> listener_at idle i c b ls s')"
    by (intro does_weaken [OF park_at]) auto
qed (use assms in simp_all)

lemma thread_block_on_self_waking:
  assumes "listener_at idle 0 c False [] s" and "k < n"
  shows "does (thread_block_on p park n (self_waking unpark x) k) os s
    (\<lambda>r s'. r = x \<and> listener_at idle 0 c False [] s')"
proof -
  from assms(1) have b: "\<not> t_borrowed s" by (simp add: listener_at_def)
  let ?s = "s\<lparr>t_borrowed := True\<rparr>"
  from assms(1) have "listener_at idle 0 c True [] ?s" by (simp add: listener_at_def)
  note block_on_self_waking [OF this assms(2), of x "listener_get_mut Listener" "Expiry None" os]
  then have "does (bind (block_on n (self_waking unpark x 0)
      (on_listener 0 (guard_park park (listener_get_mut Listener) (Expiry None))) k)
      (\<lambda>r. Act (\<lambda>s. s\<lparr>t_borrowed := False\<rparr>) (\<lambda>_. Ret r))) os ?s (\<lambda>r s'. r = x \<and> listener_at idle 0 c False [] s')"
    by (rule does_bind) (simp add: does_def listener_at_def)
  with b show ?thesis by (simp add: thread_block_on_def with_listener_def does_def)
qed

text \<open>A nested call makes a listener of its own, and releases it at the end.\<close>

lemma thread_block_on_nested:
  assumes "t_borrowed s" and "idle p" and "k < n"
  shows "does (thread_block_on p park n (self_waking unpark x) k) os s
    (\<lambda>r s'. r = x \<and> t_borrowed s' \<and> take (length (t_listeners s)) (t_listeners s') = t_listeners s \<and>
       l_freed (t_listeners s' ! length (t_listeners s)) = 1)"
proof -
  let ?i = "length (t_listeners s)" and ?g = "listener_get_mut Listener"
  let ?s = "s\<lparr>t_listeners := t_listeners s @ [listen_inner_new p]\<rparr>"
  let ?at = "\<lambda>c. listener_at idle ?i c True (t_listeners s)"
  have w: "does (on_listener ?i (guard_waker ?g)) os ?s (\<lambda>w s'. ?at 2 s')"
    using assms(1,2)
    by (simp add: does_def guard_waker_def inner_waker_def inc_count_def l_access_def listener_at_def
        listen_inner_new_def listen_inner_new_with_count_def LISTEN_MAX_REFCOUNT_def)
  have d: "does (on_listener ?i (listen_waker_drop v)) os' s' (\<lambda>_ s'. ?at 1 s')" if "?at 2 s'" for v os' s'
    using that
    by (simp add: does_def listen_waker_drop_def dec_count_drop_def dec_count_def l_access_def listener_at_def)
  have l: "does (on_listener ?i (listener_drop Listener)) os' s' (\<lambda>_ s'. t_borrowed s' \<and>
      take ?i (t_listeners s') = t_listeners s \<and> l_freed (t_listeners s' ! ?i) = 1)" if "?at 1 s'" for os' s'
    using that
    by (simp add: does_def listener_drop_def dec_count_drop_def dec_count_def l_access_def listener_at_def
        l_dealloc_def)
  have "does (bind (on_listener ?i (guard_waker ?g)) (\<lambda>w.
      bind (block_on n (self_waking unpark x ?i) (on_listener ?i (guard_park park ?g (Expiry None))) k) (\<lambda>r.
      bind (on_listener ?i (listen_waker_drop w)) (\<lambda>_.
      bind (on_listener ?i (listener_drop Listener)) (\<lambda>_. Ret r))))) os ?s
    (\<lambda>r s'. r = x \<and> t_borrowed s' \<and> take ?i (t_listeners s') = t_listeners s \<and>
       l_freed (t_listeners s' ! ?i) = 1)"
    by (rule does_bind [OF w], rule does_bind [OF block_on_self_waking [OF _ assms(3)]], assumption,
        elim conjE, rule does_bind [OF d], assumption, rule does_bind [OF l], assumption) simp
  with assms(1) show ?thesis by (simp add: thread_block_on_def with_listener_def does_def Let_def)
qed

text \<open>\<open>park_thread\<close> whose closure notifies and drops the notifier.\<close>

lemma park_thread_notified:
  assumes "listener_at idle 0 2 False [] s"
  shows "does (park_thread p park (\<lambda>i n. on_listener i (bind (notifier_notify unpark n) (\<lambda>_. notifier_drop n))) t)
    os s (\<lambda>r s'. r = Skipped \<and> listener_at idle 0 2 False [] s')"
proof -
  from assms have b: "\<not> t_borrowed s" by (simp add: listener_at_def)
  let ?s = "s\<lparr>t_borrowed := True\<rparr>" and ?g = "listener_get_mut Listener"
  have n: "does (on_listener 0 (guard_notifier ?g)) os ?s (\<lambda>_ s'. listener_at idle 0 3 True [] s')"
    using assms by (simp add: does_def guard_notifier_def inc_count_def l_access_def listener_at_def
        LISTEN_MAX_REFCOUNT_def)
  have f: "does (on_listener 0 (bind (notifier_notify unpark v) (\<lambda>_. notifier_drop v))) os' s'
      (\<lambda>_. listener_at (\<lambda>p. idle p \<and> notified p) 0 2 True [])"
    if "listener_at idle 0 3 True [] s'" for v os' s'
  proof -
    let ?l = "t_listeners s' ! 0"
    from that have l: "idle (l_parker ?l)" "l_freed ?l = 0" "0 < length (t_listeners s')" "l_count ?l = 3"
      by (simp_all add: listener_at_def)
    have "does (bind (notifier_notify unpark v) (\<lambda>_. notifier_drop v)) os' ?l
        (\<lambda>_ l. idle (l_parker l) \<and> notified (l_parker l) \<and> l_count l = 2 \<and> l_freed l = 0)"
      unfolding notifier_notify_def inner_notify_def
      by (rule does_bind [OF does_on_parker [OF unpark_sets [OF l(1)] l(2)]])
        (use l(4) in \<open>simp add: does_def notifier_drop_def dec_count_drop_def dec_count_def l_access_def\<close>)
    from does_on_listener [OF this l(3)] show ?thesis
      by (rule does_weaken) (use that in \<open>auto simp: listener_at_def\<close>)
  qed
  have "does (bind (bind (on_listener 0 (guard_notifier ?g)) (\<lambda>n.
      bind (on_listener 0 (bind (notifier_notify unpark n) (\<lambda>_. notifier_drop n))) (\<lambda>_.
      bind (on_listener 0 (guard_park park ?g t)) (\<lambda>r. case r of
          Inl e \<Rightarrow> Panic ''unwrap on LockError'' | Inr x \<Rightarrow> Ret x))))
      (\<lambda>r. Act (\<lambda>s. s\<lparr>t_borrowed := False\<rparr>) (\<lambda>_. Ret r))) os ?s
    (\<lambda>r s'. r = Skipped \<and> listener_at idle 0 2 False [] s')"
    unfolding bind_assoc
    by (rule does_bind [OF n], rule does_bind [OF f], assumption, rule does_bind [OF park_at], assumption)
      (auto simp: does_def listener_at_def)
  with b show ?thesis by (simp add: park_thread_def with_listener_def does_def)
qed

end

end
