(* ===== verification/NativeListen.thy ===== *)
theory NativeListen
  imports ThreadListen PthreadPark FutexPark
begin

text \<open>
  Listeners and blocking on the two native parkers: what is proved of them from the laws of the
  interface, stated for the model of each parker.
\<close>

subsection \<open>On the pthread parker\<close>

interpretation nat_pthread: parked_listener pthread_acquire pthread_release "pthread_park L n"
    "pthread_unpark L" pthread_held pthread_notified pthread_idle
  for L n
  by unfold_locales

text \<open>A thread locks a listener on the pthread parker, notifies it and parks: the notification is new
  unless there was one, the park returns at once with \<open>Skipped\<close> and consumes it, for any timeout,
  and after the drop of the guard the listener is unlocked and its count as before.\<close>

lemma listen_round_pthread:
  assumes "p_state (l_parker s) AND STATE_PARK = 0" and "p_state (l_parker s) AND STATE_HELD = 0"
    and "l_freed s = 0"
  shows "does (listen_round pthread_acquire pthread_release (pthread_park L n) (pthread_unpark L) t) os s
    (\<lambda>r s'. r = (\<not> pthread_notified (l_parker s), Inr Skipped) \<and> \<not> pthread_held (l_parker s') \<and>
       \<not> pthread_notified (l_parker s') \<and> l_count s' = l_count s \<and> l_freed s' = 0)"
  by (rule nat_pthread.listen_round_skips) (use assms in \<open>simp_all add: pthread_idle_def pthread_held_def\<close>)

text \<open>The listeners of a thread on a fresh pthread parker.\<close>

lemma pthread_thread_start:
  "listener_at pthread_idle 0 2 False [] (thread_listen (pthread_park_new x))"
  by (simp add: listener_at_def thread_listen_def listen_inner_new_with_count_def pthread_idle_def
      pthread_park_new_def pt_state_defs)

text \<open>C25. Blocking on a future comes to an end: on a thread whose listener is not in use, \<open>block_on\<close> with
  a future that is pending \<open>k\<close> times, each time after it has called its waker, returns the value of
  the future with \<open>k + 1\<close> turns of its loop, on any C library, and leaves the listener free, with
  its count as before.\<close>

theorem block_on_pthread:
  assumes "listener_at pthread_idle 0 c False [] s" and "k < n"
  shows "does (thread_block_on p (pthread_park L m) n (self_waking (pthread_unpark L) x) k) os s
    (\<lambda>r s'. r = x \<and> listener_at pthread_idle 0 c False [] s')"
  by (rule nat_pthread.thread_block_on_self_waking [OF assms])

theorem block_on_pthread_witness:
  "\<exists>s'. run (thread_block_on (pthread_park_new posix_start) (pthread_park posix 1) 4
       (self_waking (pthread_unpark posix) ''done'') 3) [] (thread_listen (pthread_park_new posix_start)) =
     (Returned ''done'', s') \<and> \<not> t_borrowed s'"
  using does_run [OF block_on_pthread [OF pthread_thread_start, of 3 4 "pthread_park_new posix_start" posix 1
      "''done''" "[]" posix_start]] by (auto simp: listener_at_def)

text \<open>C33. A blocking call inside another one on the same thread: the nested call uses a listener of its
  own, which it releases at the end, and leaves those before it untouched.\<close>

theorem nested_block_on_pthread:
  assumes "t_borrowed s" and "k < n"
  shows "does (thread_block_on (pthread_park_new y) (pthread_park L m) n (self_waking (pthread_unpark L) x) k) os s
    (\<lambda>r s'. r = x \<and> t_borrowed s' \<and> take (length (t_listeners s)) (t_listeners s') = t_listeners s \<and>
       l_freed (t_listeners s' ! length (t_listeners s)) = 1)"
  by (rule nat_pthread.thread_block_on_nested [OF assms(1) _ assms(2)])
    (simp add: pthread_idle_def pthread_park_new_def pt_state_defs)

theorem nested_block_on_pthread_witness:
  "\<exists>s'. run (thread_block_on (pthread_park_new posix_start) (pthread_park posix 1) 3
       (self_waking (pthread_unpark posix) (7 :: nat)) 2) []
       ((thread_listen (pthread_park_new posix_start))\<lparr>t_borrowed := True\<rparr>) = (Returned 7, s') \<and>
     l_freed (t_listeners s' ! 1) = 1"
  using does_run [OF nested_block_on_pthread [of "(thread_listen (pthread_park_new posix_start))\<lparr>t_borrowed := True\<rparr>"
      2 3 posix_start posix 1 7 "[]"]]
  by (auto simp: thread_listen_def)

subsection \<open>On the futex parker\<close>

interpretation nat_futex: parked_listener futex_acquire futex_release "futex_raw_park K n"
    "futex_unpark K" futex_held futex_notified futex_idle
  for K n
  by unfold_locales

text \<open>\<open>park_thread\<close> with a closure that notifies through the notifier it is given, on a thread
  whose listener is not in use and on any kernel: it returns \<open>Skipped\<close> for any timeout, and leaves
  the listener free, with its count of 2.\<close>

lemma park_thread_futex:
  assumes "listener_at futex_idle 0 2 False [] s"
  shows "does (park_thread p (futex_raw_park K m)
      (\<lambda>i n. on_listener i (bind (notifier_notify (futex_unpark K) n) (\<lambda>_. notifier_drop n))) t) os s
    (\<lambda>r s'. r = Skipped \<and> listener_at futex_idle 0 2 False [] s')"
  by (rule nat_futex.park_thread_notified [OF assms])

end
