(* ===== verification/BlockRace.thy ===== *)
theory BlockRace
  imports ParkRace Listen ThreadBlock
begin

text \<open>
  \<open>block_on\<close> (\<open>suspend-core/src/thread.rs\<close>) on one thread, and on any number of others an event
  and then \<open>Waker::wake\<close> on a clone of the thread's waker (\<open>listen.rs\<close>).  The future is ready when
  some number of events have happened.  It is proved for every parker that may be parked again
  after a park, from the places of its threads and its invariant: the locale \<open>blocking_park\<close>.
\<close>

declare sum_list_eq_0_iff [simp del]

subsection \<open>The threads\<close>

text \<open>The listener of the thread, and how many events have happened.\<close>

record 'p blocked =
  bl_listener :: "'p listen_inner"
  bl_events :: nat

primrec on_blocked :: "('p, 'r) lprog \<Rightarrow> ('p blocked, 'r) prog" where
  "on_blocked (Ret r) = Ret r"
| "on_blocked (Panic m) = Panic m"
| "on_blocked Hang = Hang"
| "on_blocked (Act u k) =
     Act (\<lambda>s. s\<lparr>bl_listener := u (bl_listener s)\<rparr>) (\<lambda>s. on_blocked (k (bl_listener s)))"
| "on_blocked (Wait g p) = Wait (\<lambda>s. g (bl_listener s)) (on_blocked p)"
| "on_blocked (Pick k) = Pick (\<lambda>b. on_blocked (k b))"

text \<open>A future that waits for \<open>j\<close> events.\<close>

definition event_poll :: "nat \<Rightarrow> unit \<Rightarrow> ('p blocked, unit \<times> nat poll) prog" where
  "event_poll j c = Act (\<lambda>s. s) (\<lambda>s. Ret (c, if j \<le> bl_events s then Ready (bl_events s) else Pending))"

definition blocking_thread ::
  "(expiry \<Rightarrow> ('p, lock_error + park_result) prog) \<Rightarrow> nat \<Rightarrow> nat \<Rightarrow> ('p blocked, nat option) prog" where
  "blocking_thread park n j =
     bind (block_on n (event_poll j) (on_blocked (guard_park park (listener_get_mut Listener) (Expiry None))) ())
       (\<lambda>r. Ret (Some r))"

definition waking_thread :: "('p, bool) prog \<Rightarrow> ('p blocked, nat option) prog" where
  "waking_thread unpark = Act (\<lambda>s. s\<lparr>bl_events := bl_events s + 1\<rparr>)
     (\<lambda>s. bind (on_blocked (waker_wake unpark Waker)) (\<lambda>_. Ret None))"

text \<open>The thread's own listener and waker count 2, and each clone of the waker 1.\<close>

definition block_race ::
  "'p \<Rightarrow> (expiry \<Rightarrow> ('p, lock_error + park_result) prog) \<Rightarrow> ('p, bool) prog \<Rightarrow> nat \<Rightarrow> nat \<Rightarrow> nat \<Rightarrow>
   ('p blocked, nat option) config" where
  "block_race p park unpark n j k =
     (\<lparr>bl_listener = listen_inner_new_with_count (of_nat (k + 2)) p, bl_events = 0\<rparr>,
      blocking_thread park n j # replicate k (waking_thread unpark))"

text \<open>
  No panic, the listener is not released, the future that \<open>block_on\<close> returns from is ready, and
  the threads are stuck only when all are done or a loop has used up its turns.
\<close>

definition block_ok :: "nat \<Rightarrow> ('p blocked, nat option) config \<Rightarrow> bool" where
  "block_ok j c =
     (list_all (\<lambda>p. \<not> panicked p) (snd c) \<and> l_freed (bl_listener (fst c)) = 0 \<and>
      (\<forall>x. snd c ! 0 = Ret (Some x) \<longrightarrow> j \<le> x \<and> x \<le> bl_events (fst c)) \<and>
      (list_all (\<lambda>p. thread_step p False (fst c) = None) (snd c) \<longrightarrow>
         snd c ! 0 = Hang \<or> list_all ended (snd c)))"

subsection \<open>A parker behind the listener of a thread\<close>

abbreviation deep :: "('p, 'r) prog \<Rightarrow> ('p blocked, 'r) prog" where
  "deep p \<equiv> on_blocked (on_parker p)"

abbreviation parker_of :: "'p blocked \<Rightarrow> 'p" where
  "parker_of s \<equiv> l_parker (bl_listener s)"

definition with_parker :: "'p \<Rightarrow> 'p blocked \<Rightarrow> 'p blocked" where
  "with_parker t s = s\<lparr>bl_listener := (bl_listener s)\<lparr>l_parker := t\<rparr>\<rparr>"

lemma with_parker_simps [simp]:
  "parker_of (with_parker t s) = t" "l_count (bl_listener (with_parker t s)) = l_count (bl_listener s)"
  "l_freed (bl_listener (with_parker t s)) = l_freed (bl_listener s)" "bl_events (with_parker t s) = bl_events s"
  by (simp_all add: with_parker_def)

text \<open>What waits or chooses goes on with an action.\<close>

primrec solid :: "('s, 'r) prog \<Rightarrow> bool" where
  "solid (Ret r) = True" | "solid (Panic m) = True" | "solid Hang = True" | "solid (Act u k) = True"
| "solid (Wait g p) = (\<not> ended p \<and> solid p)" | "solid (Pick k) = (\<forall>b. \<not> ended (k b) \<and> solid (k b))"

lemma on_blocked_bind: "on_blocked (bind p f) = bind (on_blocked p) (\<lambda>r. on_blocked (f r))"
  by (induction p) (simp_all add: fun_eq_iff)

lemma on_parker_bind: "on_parker (bind p f) = bind (on_parker p) (\<lambda>r. on_parker (f r))"
  by (induction p) (auto simp: fun_eq_iff l_access_def)

lemma deep_bind: "bind (deep (bind p (\<lambda>r. Ret (c r)))) f = bind (deep p) (\<lambda>r. f (c r))"
  by (simp add: on_parker_bind on_blocked_bind bind_assoc)

lemma deep_step:
  assumes "solid p" and "\<not> ended p" and "l_freed (bl_listener s) = 0" and "tstep (bind (deep p) f) s q s'"
  shows "\<exists>p' t. tstep p (parker_of s) p' t \<and> q = bind (deep p') f \<and> s' = with_parker t s"
  using assms
proof (induction p)
  case (Act u k)
  then show ?case
    by (intro exI [of _ "k (parker_of s)"] exI [of _ "u (parker_of s)"]) (auto simp: l_access_def with_parker_def intro: tstep.act)
next
  case (Wait g p)
  then show ?case by (fastforce intro: tstep.wait)
next
  case (Pick k)
  then show ?case by (fastforce intro: tstep.pick)
qed auto

lemma deep_stuck:
  assumes "solid p" and "\<not> ended p"
  shows "thread_step (bind (deep p) f) False s = None \<longleftrightarrow> thread_step p False (parker_of s) = None"
  using assms by (induction p) (auto simp: l_access_def)

lemma deep_kind:
  assumes "\<not> ended p"
  shows "\<not> ended (bind (deep p) f)" "panicked (bind (deep p) f) \<longleftrightarrow> panicked p" "bind (deep p) f = Hang \<longleftrightarrow> p = Hang"
  using assms by (cases p; simp add: l_access_def)+

subsection \<open>Parking again and again\<close>

datatype 'p bplace = Polling nat | Parking nat 'p | Finished nat

datatype 'n wplace = Waiting | Waking 'n | Dropping 'n | Gone 'n

primrec share :: "'n wplace \<Rightarrow> nat" where
  "share Waiting = 1" | "share (Waking a) = 1" | "share (Dropping a) = 1" | "share (Gone a) = 0"

primrec happened :: "'n wplace \<Rightarrow> nat" where
  "happened Waiting = 0" | "happened (Waking a) = 1" | "happened (Dropping a) = 1" | "happened (Gone a) = 1"

locale blocking_park =
  notified_park pcode ncode inv notified taken given started
  for pcode :: "'p \<Rightarrow> ('s, park_end) prog" and ncode :: "'n \<Rightarrow> ('s, park_end) prog"
    and inv :: "'s \<Rightarrow> 'p \<Rightarrow> 'n multiset \<Rightarrow> bool" and notified :: "'s \<Rightarrow> bool"
    and taken :: "'p \<Rightarrow> nat" and given :: "'n \<Rightarrow> nat" and started :: "'n \<Rightarrow> bool" +
  fixes park :: "('s, lock_error + park_result) prog" and unpark :: "('s, bool) prog" and first :: 'p and idle :: 'n
  assumes park_code: "pcode first = park_thread_code park" and unpark_code: "ncode idle = notify_thread_code unpark"
    and park_again: "inv s p N \<Longrightarrow> ended (pcode p) \<Longrightarrow> inv s first N"
    and notifiers_move: "inv s first N \<Longrightarrow> \<forall>a \<in># N. thread_step (ncode a) False s = None \<Longrightarrow>
      \<forall>a \<in># N. ended (ncode a)"
    and no_error: "pcode p \<noteq> Ret (Parked (Inl e))"
    and fresh: "taken first = 0" "\<not> ended (pcode first)" "\<not> started idle" "\<not> ended (ncode idle)" "\<not> started n \<Longrightarrow> given n = 0"
    and all_solid: "solid (pcode p)" "solid (ncode n)"
begin

text \<open>The places of the thread that blocks.\<close>

definition poll_code :: "nat \<Rightarrow> nat \<Rightarrow> ('s blocked, nat option) prog" where
  "poll_code j m = blocking_thread (\<lambda>_. park) m j"

definition parked_code :: "nat \<Rightarrow> nat \<Rightarrow> 'p \<Rightarrow> ('s blocked, nat option) prog" where
  "parked_code j m p = bind (deep (pcode p)) (\<lambda>e. case e of
       Parked (Inr r) \<Rightarrow> poll_code j m
     | Parked (Inl e) \<Rightarrow> Panic ''unwrap on LockError''
     | Notified b \<Rightarrow> Hang)"

lemma poll_code_0: "poll_code j 0 = Hang"
  by (simp add: poll_code_def blocking_thread_def)

lemma poll_code_Suc:
  "poll_code j (Suc m) = Act (\<lambda>s. s) (\<lambda>s.
     if j \<le> bl_events s then Ret (Some (bl_events s)) else parked_code j m first)"
proof -
  have "bind (deep (pcode first)) (\<lambda>e. case e of
       Parked (Inr r) \<Rightarrow> poll_code j m | Parked (Inl e) \<Rightarrow> Panic ''unwrap on LockError'' | Notified b \<Rightarrow> Hang) =
     bind (deep park) (\<lambda>r. case r of Inl e \<Rightarrow> Panic ''unwrap on LockError'' | Inr _ \<Rightarrow> poll_code j m)"
    by (auto simp: park_code park_thread_code_def deep_bind fun_eq_iff intro!: arg_cong2 [of _ _ _ _ bind] split: sum.split)
  moreover have "bind (deep park) (\<lambda>r. bind (case r of Inl e \<Rightarrow> Panic ''unwrap on LockError''
      | Inr _ \<Rightarrow> block_on m (event_poll j) (deep park) ()) (\<lambda>r. Ret (Some r))) =
     bind (deep park) (\<lambda>r. case r of Inl e \<Rightarrow> Panic ''unwrap on LockError'' | Inr _ \<Rightarrow> poll_code j m)"
    by (auto simp: poll_code_def blocking_thread_def guard_park_def fun_eq_iff intro!: arg_cong2 [of _ _ _ _ bind]
        split: sum.split)
  ultimately show ?thesis
    by (simp add: poll_code_def [of j "Suc m"] parked_code_def blocking_thread_def guard_park_def event_poll_def
        bind_assoc fun_eq_iff)
qed

text \<open>The places of a thread that wakes it: before its event, in the call, and in the drop of its waker.\<close>

definition drop_code :: "('s blocked, nat option) prog" where
  "drop_code = bind (on_blocked dec_count_drop) (\<lambda>_. Ret None)"

definition wake_code :: "'n \<Rightarrow> ('s blocked, nat option) prog" where
  "wake_code a = bind (deep (ncode a)) (\<lambda>_. drop_code)"

lemma waking_code: "waking_thread unpark = Act (\<lambda>s. s\<lparr>bl_events := bl_events s + 1\<rparr>) (\<lambda>s. wake_code idle)"
  by (simp add: waking_thread_def waker_wake_def inner_notify_def on_blocked_bind bind_assoc wake_code_def drop_code_def
      unpark_code notify_thread_code_def deep_bind)

primrec bcode :: "nat \<Rightarrow> 'p bplace \<Rightarrow> ('s blocked, nat option) prog" where
  "bcode j (Polling m) = poll_code j m"
| "bcode j (Parking m p) = parked_code j m p"
| "bcode j (Finished x) = Ret (Some x)"

primrec wcode :: "'n wplace \<Rightarrow> ('s blocked, nat option) prog" where
  "wcode Waiting = waking_thread unpark"
| "wcode (Waking a) = wake_code a"
| "wcode (Dropping a) = drop_code"
| "wcode (Gone a) = Ret None"

primrec seen :: "'n wplace \<Rightarrow> 'n" where
  "seen Waiting = idle" | "seen (Waking a) = a" | "seen (Dropping a) = a" | "seen (Gone a) = a"

primrec fits :: "'n wplace \<Rightarrow> bool" where
  "fits Waiting = True" | "fits (Waking a) = (\<not> ended (ncode a))" | "fits (Dropping a) = ended (ncode a)"
| "fits (Gone a) = ended (ncode a)"

primrec park_place :: "'p bplace \<Rightarrow> 'p" where
  "park_place (Polling m) = first" | "park_place (Parking m p) = p" | "park_place (Finished x) = first"

text \<open>A thread that parks will be woken: a notification is there, or some thread has not given its own.\<close>

primrec promised :: "nat \<Rightarrow> 's blocked \<Rightarrow> 'n wplace list \<Rightarrow> 'p bplace \<Rightarrow> bool" where
  "promised j s ws (Polling m) = True"
| "promised j s ws (Parking m p) = (\<not> ended (pcode p) \<and>
     (notified (parker_of s) \<or> 0 < taken p \<or> (\<exists>w \<in> set ws. \<not> started (seen w))))"
| "promised j s ws (Finished x) = (j \<le> x \<and> x \<le> bl_events s)"

definition blocked_ok :: "nat \<Rightarrow> 's blocked \<Rightarrow> 'p bplace \<Rightarrow> 'n wplace list \<Rightarrow> bool" where
  "blocked_ok j s b ws =
     (l_freed (bl_listener s) = 0 \<and> unat (l_count (bl_listener s)) = 2 + sum_of share ws \<and>
      bl_events s = sum_of happened ws \<and> list_all fits ws \<and>
      inv (parker_of s) (park_place b) (mset (map seen ws)) \<and> promised j s ws b)"

lemma some_waiting: "sum_of happened ws < length ws \<Longrightarrow> Waiting \<in> set ws"
proof (induction ws)
  case (Cons w ws)
  then show ?case by (cases w) auto
qed simp

lemma blocker_step:
  assumes ok: "blocked_ok j s b ws" and j: "j \<le> length ws" and st: "tstep (bcode j b) s q s'"
  shows "\<exists>b'. q = bcode j b' \<and> blocked_ok j s' b' ws"
proof (cases b)
  case (Polling m)
  with st obtain m' where m: "m = Suc m'" by (cases m) (auto simp: poll_code_0)
  with Polling st have q: "s' = s" "q = (if j \<le> bl_events s then Ret (Some (bl_events s)) else parked_code j m' first)"
    by (auto simp: poll_code_Suc)
  show ?thesis
  proof (cases "j \<le> bl_events s")
    case True
    with q ok Polling show ?thesis by (intro exI [of _ "Finished (bl_events s)"]) (simp add: blocked_ok_def)
  next
    case False
    with ok j have "Waiting \<in> set ws" by (intro some_waiting) (simp add: blocked_ok_def)
    then have "\<exists>w \<in> set ws. \<not> started (seen w)" using fresh(3) by (intro bexI [of _ Waiting]) simp_all
    with False q ok Polling fresh(2) show ?thesis
      by (intro exI [of _ "Parking m' first"]) (auto simp: blocked_ok_def)
  qed
next
  case (Parking m p)
  with ok have p: "inv (parker_of s) p (mset (map seen ws))" "\<not> ended (pcode p)" "l_freed (bl_listener s) = 0"
    by (simp_all add: blocked_ok_def)
  from st Parking have "tstep (bind (deep (pcode p)) (\<lambda>e. case e of Parked (Inr r) \<Rightarrow> poll_code j m
      | Parked (Inl e) \<Rightarrow> Panic ''unwrap on LockError'' | Notified b \<Rightarrow> Hang)) s q s'"
    by (simp add: parked_code_def)
  from deep_step [OF all_solid(1) p(2,3) this] obtain p' t where t: "tstep (pcode p) (parker_of s) p' t"
    "s' = with_parker t s" and q: "q = bind (deep p') (\<lambda>e. case e of Parked (Inr r) \<Rightarrow> poll_code j m
      | Parked (Inl e) \<Rightarrow> Panic ''unwrap on LockError'' | Notified b \<Rightarrow> Hang)" by blast
  from parker_step [OF p(1) t(1)] obtain p'' where p'': "p' = pcode p''" "inv t p'' (mset (map seen ws))"
    "taken p'' + of_bool (notified t) = taken p + of_bool (notified (parker_of s))" by blast
  show ?thesis
  proof (cases "ended (pcode p'')")
    case True
    then obtain r where "pcode p'' = Ret (Parked (Inr r))"
      using parker_end [of p''] no_error [of p''] by (metis sumE)
    then have "q = bcode j (Polling m)" using q p''(1) by simp
    moreover have "inv t first (mset (map seen ws))" by (rule park_again [OF p''(2) True])
    ultimately show ?thesis using ok t(2) by (intro exI [of _ "Polling m"]) (simp add: blocked_ok_def)
  next
    case False
    have "notified t \<or> 0 < taken p'' \<or> (\<exists>w \<in> set ws. \<not> started (seen w))"
      using ok Parking p''(3) by (auto simp: blocked_ok_def of_bool_def split: if_splits)
    then show ?thesis using ok t(2) q p'' False
      by (intro exI [of _ "Parking m p''"]) (simp add: blocked_ok_def parked_code_def)
  qed
next
  case (Finished x)
  with st show ?thesis by auto
qed

lemma promised_mono:
  assumes "promised j s ws b" and "bl_events s \<le> bl_events s'"
    and "\<And>i. i < length ws \<Longrightarrow> \<not> started (seen (ws ! i)) \<Longrightarrow>
      notified (parker_of s') \<or> \<not> started (seen (ws' ! i))"
    and "notified (parker_of s) \<Longrightarrow> notified (parker_of s')" and "length ws' = length ws"
  shows "promised j s' ws' b"
proof (cases b)
  case (Parking m p)
  have "notified (parker_of s') \<or> (\<exists>w \<in> set ws'. \<not> started (seen w))" if "\<exists>w \<in> set ws. \<not> started (seen w)"
    using that assms(3,5) by (metis in_set_conv_nth)
  with assms(1,4) Parking show ?thesis by auto
next
  case (Finished x)
  with assms(1,2) show ?thesis by simp
qed simp

lemma drop_code_step:
  assumes "tstep drop_code s q s'" and "l_freed (bl_listener s) = 0" and "3 \<le> unat (l_count (bl_listener s))"
  shows "q = Ret None \<and> s' = s\<lparr>bl_listener := (bl_listener s)\<lparr>l_count := l_count (bl_listener s) - 1\<rparr>\<rparr>"
proof -
  from assms(3) have "l_count (bl_listener s) \<noteq> 0" "l_count (bl_listener s) \<noteq> 1" by auto
  with assms(1,2) show ?thesis
    by (auto simp: drop_code_def dec_count_drop_def dec_count_def l_access_def)
qed

lemma waker_step:
  assumes ok: "blocked_ok j s b ws" and i: "i < length ws" and st: "tstep (wcode (ws ! i)) s q s'"
  shows "\<exists>w. q = wcode w \<and> blocked_ok j s' b (ws[i := w])"
proof -
  note up = sum_of_update [OF i, of share] sum_of_update [OF i, of happened]
  have m: "mset (map seen (ws[i := w])) = add_mset (seen w) (mset (map seen ws) - {#seen (ws ! i)#})" for w
    using i by (simp add: map_update mset_update)
  have same: "mset (map seen (ws[i := w])) = mset (map seen ws)" if "seen w = seen (ws ! i)" for w
    using i that by (metis list_update_id map_update nth_map)
  have fit: "fits (ws ! i)" using ok i by (simp add: blocked_ok_def list_all_length)
  have upd: "list_all fits (ws[i := w])" if "fits w" for w
    using ok that i by (auto simp: blocked_ok_def list_all_iff dest: set_update_subset_insert [THEN subsetD])
  show ?thesis
  proof (cases "ws ! i")
    case Waiting
    with st have q: "q = wcode (Waking idle)" "s' = s\<lparr>bl_events := bl_events s + 1\<rparr>" by (auto simp: waking_code)
    have "promised j s' (ws[i := Waking idle]) b"
      by (rule promised_mono [of j s ws]) (use ok q fresh(3) Waiting i in \<open>auto simp: blocked_ok_def nth_list_update\<close>)
    moreover have "mset (map seen (ws[i := Waking idle])) = mset (map seen ws)"
      using same [of "Waking idle"] Waiting by simp
    ultimately show ?thesis
      using ok q up [of "Waking idle"] Waiting upd [of "Waking idle"] fresh(4)
      by (intro exI [of _ "Waking idle"]) (simp add: blocked_ok_def)
  next
    case (Waking a)
    with fit have a: "\<not> ended (ncode a)" by simp
    have f: "l_freed (bl_listener s) = 0" using ok by (simp add: blocked_ok_def)
    from st Waking have "tstep (bind (deep (ncode a)) (\<lambda>_. drop_code)) s q s'" by (simp add: wake_code_def)
    from deep_step [OF all_solid(2) a f this] obtain p' t where t: "tstep (ncode a) (parker_of s) p' t"
      "s' = with_parker t s" and q: "q = bind (deep p') (\<lambda>_. drop_code)" by blast
    have "inv (parker_of s) (park_place b) (add_mset a (mset (map seen ws) - {#a#}))"
      using ok i Waking by (simp add: blocked_ok_def) (metis insert_DiffM nth_map nth_mem_mset length_map seen.simps(2) mset_map)
    from notifier_step [OF this t(1)] obtain a' where a': "p' = ncode a'" "started a'" "given a \<le> given a'"
      "inv t (park_place b) (add_mset a' (mset (map seen ws) - {#a#}))"
      "given a' + of_bool (notified (parker_of s)) = given a + of_bool (notified t)"
      "started a \<or> 0 < given a' \<or> notified (parker_of s)" by blast
    define w where "w = (if ended (ncode a') then Dropping a' else Waking a')"
    have wf: "share w = 1" "happened w = 1" "fits w" "seen w = a'" by (simp_all add: w_def)
    have "q = wcode w"
      using q a'(1) notifier_end [of a'] by (auto simp: wake_code_def w_def)
    moreover have n: "notified t" if "notified (parker_of s) \<or> \<not> started a"
      using that a'(3,5,6) fresh(5) [of a] by (auto simp: of_bool_def split: if_splits)
    then have told: "notified (parker_of s') \<or> \<not> started (seen (ws[i := w] ! l))"
      if "l < length ws" "\<not> started (seen (ws ! l))" for l
      using that t(2) Waking i wf n by (cases "l = i") simp_all
    have "promised j s' (ws[i := w]) b"
      by (rule promised_mono [of j s ws, OF _ _ told]) (use ok t(2) n in \<open>simp_all add: blocked_ok_def\<close>)
    moreover have "mset (map seen (ws[i := w])) = add_mset a' (mset (map seen ws) - {#a#})"
      using m [of w] Waking wf by simp
    ultimately show ?thesis
      using ok t(2) a'(4) up [of w] Waking upd [of w] wf by (intro exI [of _ w]) (simp add: blocked_ok_def)
  next
    case (Dropping a)
    have "share (ws ! i) \<le> sum_of share ws" by (rule sum_of_le [OF i])
    with ok Dropping have c: "3 \<le> unat (l_count (bl_listener s))" "l_freed (bl_listener s) = 0"
      by (simp_all add: blocked_ok_def)
    from drop_code_step [OF _ c(2,1)] st Dropping have q: "q = Ret None"
      "s' = s\<lparr>bl_listener := (bl_listener s)\<lparr>l_count := l_count (bl_listener s) - 1\<rparr>\<rparr>" by auto
    have "unat (l_count (bl_listener s) - 1) = unat (l_count (bl_listener s)) - 1"
      using c(1) by (intro unat_minus_one) auto
    moreover have "promised j s' (ws[i := Gone a]) b"
      by (rule promised_mono [of j s ws]) (use ok q Dropping i in \<open>auto simp: blocked_ok_def nth_list_update\<close>)
    moreover have "mset (map seen (ws[i := Gone a])) = mset (map seen ws)"
      using same [of "Gone a"] Dropping by simp
    ultimately show ?thesis
      using ok q up [of "Gone a"] Dropping fit upd [of "Gone a"] c(1)
      by (intro exI [of _ "Gone a"]) (simp add: blocked_ok_def)
  next
    case (Gone a)
    with st show ?thesis by auto
  qed
qed

lemma blocked_reach:
  assumes "reach (s, bcode j b # map wcode ws) d" and "blocked_ok j s b ws" and j: "j \<le> length ws"
  shows "\<exists>b' ws'. snd d = bcode j b' # map wcode ws' \<and> blocked_ok j (fst d) b' ws' \<and> length ws' = length ws"
  using assms(1)
proof (induction rule: reach.induct)
  case start
  with assms(2) show ?case by auto
next
  case (step d e)
  then obtain b' ws' where d: "snd d = bcode j b' # map wcode ws'" "length ws' = length ws"
    and ok: "blocked_ok j (fst d) b' ws'" by blast
  from step(2) show ?case
  proof cases
    case (thread i ps t q t')
    show ?thesis
    proof (cases i)
      case 0
      with thread d ok j blocker_step [of j t b' ws' q t'] show ?thesis by fastforce
    next
      case (Suc l)
      with thread d have "l < length ws'" "tstep (wcode (ws' ! l)) t q t'" by simp_all
      with waker_step [of j t b' ws' l q t'] thread ok obtain w where
        "q = wcode w" "blocked_ok j t' b' (ws'[l := w])" by auto
      with thread d Suc show ?thesis
        by (intro exI [of _ b'] exI [of _ "ws'[l := w]"]) (simp add: map_update)
    qed
  qed
qed

lemma blocked_not_stuck:
  assumes ok: "blocked_ok j s b ws" and st: "thread_step (bcode j b) False s = None"
    and wst: "\<forall>w \<in> set ws. thread_step (wcode w) False s = None"
  shows "bcode j b = Hang \<or> ended (bcode j b) \<and> (\<forall>w \<in> set ws. ended (wcode w))"
proof -
  have fit: "\<forall>w \<in> set ws. fits w" and v: "inv (parker_of s) (park_place b) (mset (map seen ws))"
    and pr: "promised j s ws b" using ok by (auto simp: blocked_ok_def list_all_iff)
  have w: "(\<exists>a. w = Gone a) \<or> (\<exists>a. w = Waking a \<and> thread_step (ncode a) False (parker_of s) = None)" if "w \<in> set ws" for w
  proof -
    have c: "thread_step (wcode w) False s = None" "fits w" using wst fit that by auto
    then show ?thesis
      by (cases w)
        (simp_all add: waking_code drop_code_def dec_count_drop_def dec_count_def l_access_def wake_code_def
          deep_stuck [OF all_solid(2)])
  qed
  have n: "\<forall>a \<in># mset (map seen ws). thread_step (ncode a) False (parker_of s) = None"
  proof
    fix a assume "a \<in># mset (map seen ws)"
    then obtain w' where w': "w' \<in> set ws" "a = seen w'" by auto
    with w fit have "ended (ncode a) \<or> thread_step (ncode a) False (parker_of s) = None" by fastforce
    then show "thread_step (ncode a) False (parker_of s) = None" by (cases "ncode a") auto
  qed
  show ?thesis
  proof (cases b)
    case (Polling m)
    with st have "m = 0" by (cases m) (simp_all add: poll_code_Suc)
    with Polling show ?thesis by (simp add: poll_code_0)
  next
    case (Parking m p)
    with pr have e: "\<not> ended (pcode p)" by simp
    then have p: "thread_step (pcode p) False (parker_of s) = None"
      using st Parking by (simp add: parked_code_def deep_stuck [OF all_solid(1)])
    from stuck [OF v [unfolded Parking park_place.simps] p n] e
    have "pcode p = Hang \<or> (\<forall>a \<in># mset (map seen ws). ended (ncode a)) \<and> taken p = 0 \<and> \<not> notified (parker_of s)"
      by blast
    moreover have "pcode p \<noteq> Hang \<Longrightarrow> \<exists>w \<in> set ws. \<not> started (seen w)" if "taken p = 0" "\<not> notified (parker_of s)"
      using pr Parking that by auto
    ultimately have "pcode p = Hang" using notifier_end by fastforce
    with Parking show ?thesis by (simp add: parked_code_def)
  next
    case (Finished x)
    have "\<exists>a. w' = Gone a" if w': "w' \<in> set ws" for w'
      using notifiers_move [of "parker_of s" "mset (map seen ws)"] v n Finished w [OF w'] fit w' by fastforce
    with Finished show ?thesis by fastforce
  qed
qed

lemma block_races:
  assumes "reach (block_race s (\<lambda>_. park) unpark n j k) c" and "j \<le> k" and "k + 2 < 2 ^ 64"
    and "inv s first (replicate_mset k idle)"
  shows "block_ok j c"
proof -
  let ?s = "\<lparr>bl_listener = listen_inner_new_with_count (of_nat (k + 2)) s, bl_events = 0\<rparr>"
  have "unat (of_nat (k + 2) :: usize) = k + 2"
    using assms(3) by (subst unat_of_nat) simp
  then have start: "blocked_ok j ?s (Polling n) (replicate k Waiting)"
    using assms(4) by (simp add: blocked_ok_def listen_inner_new_with_count_def sum_list_replicate list_all_iff)
  have "reach (?s, bcode j (Polling n) # map wcode (replicate k Waiting)) c"
    using assms(1) by (simp add: block_race_def poll_code_def)
  from blocked_reach [OF this start] assms(2) obtain b ws where c: "snd c = bcode j b # map wcode ws"
    and ok: "blocked_ok j (fst c) b ws" by auto
  have v: "inv (parker_of (fst c)) (park_place b) (mset (map seen ws))" and fit: "\<forall>w \<in> set ws. fits w"
    and pr: "promised j (fst c) ws b" using ok by (auto simp: blocked_ok_def list_all_iff)
  have "\<not> panicked (bcode j b)"
  proof (cases b)
    case (Polling m)
    then show ?thesis by (cases m) (simp_all add: poll_code_0 poll_code_Suc)
  next
    case (Parking m p)
    with pr v no_panic(1) show ?thesis by (auto simp: parked_code_def deep_kind)
  qed simp
  moreover have "\<not> panicked (wcode w)" if "w \<in> set ws" for w
    using fit that no_panic(2)
    by (cases w) (auto simp: waking_code wake_code_def deep_kind drop_code_def dec_count_drop_def dec_count_def l_access_def)
  moreover have "j \<le> x \<and> x \<le> bl_events (fst c)" if "bcode j b = Ret (Some x)" for x
  proof (cases b)
    case (Polling m)
    with that show ?thesis by (cases m) (simp_all add: poll_code_0 poll_code_Suc)
  next
    case (Parking m p)
    then have "\<not> ended (bcode j b)" using pr by (simp add: parked_code_def deep_kind(1))
    with that show ?thesis by simp
  next
    case (Finished y)
    with that pr show ?thesis by simp
  qed
  ultimately show ?thesis
    using c ok blocked_not_stuck [OF ok]
    by (auto simp: block_ok_def list_all_iff blocked_ok_def)
qed

end

end
