(* ===== verification/BlockNative.thy ===== *)
theory BlockNative
  imports BlockRace PthreadPark FutexPark
begin

text \<open>
  \<open>block_on\<close> against the wakers of other threads, on the two native parkers
  (\<open>suspend-core/src/thread.rs\<close> over \<open>listen.rs\<close> over \<open>raw_park\<close>).
\<close>

subsection \<open>On the pthread parker\<close>

lemma pt_again:
  assumes "pt_inv s p N" and "ended (pt_code n t p)"
  shows "pt_inv s PtStart N"
proof -
  from assms(2) obtain r where "p = PtDone r" using pt_code_kind by blast
  with assms(1) show ?thesis by (simp add: pt_inv_def Let_def)
qed

lemma pt_notifiers_move:
  assumes "pt_inv s PtStart N" and "\<forall>a \<in># N. thread_step (pt_ncode a) False s = None"
  shows "\<forall>a \<in># N. ended (pt_ncode a)"
proof -
  from assms(1) obtain f u where "lk_inv Outside f u (m_locked (p_libc s)) (c_waiting (p_libc s)) (c_signal (p_libc s)) N"
    by (elim pt_invE) simp
  from lk_free [OF this] assms(2) have "\<not> m_locked (p_libc s)" by (auto simp: pt_ncode_moves)
  with assms(2) show ?thesis by (auto simp: pt_ncode_moves pt_ncode_kind)
qed

lemma pt_no_error: "pt_code n t p \<noteq> Ret (Parked (Inl e))"
proof
  assume e: "pt_code n t p = Ret (Parked (Inl e))"
  then have "ended (pt_code n t p)" by simp
  then obtain r where "p = PtDone r" using pt_code_kind by blast
  with e show False by simp
qed

lemma pt_solid: "solid (pt_code n t p)" "solid (pt_ncode a)"
  subgoal
    by (cases p)
      (auto simp: pt_start_code p_access_defs pt_take_def pt_mark_def pt_lock_def pt_unlock_def pt_turn_def pt_clock_def
        pt_wait_def pt_sleep_def pt_rewake_def pt_check_def pt_swap_def simp del: pt_code.simps(1) split: option.splits)
  subgoal
    by (cases a) (simp_all add: pt_notify_code p_access_defs pt_unlock_def pt_signal_def del: pt_ncode.simps(1))
  done

interpretation pthread_blocks: blocking_park "pt_code n t" pt_ncode pt_inv pthread_notified pt_taken lk_given
    "\<lambda>a. a \<noteq> LkNotify" "pthread_park posix n t" "pthread_unpark posix" PtStart LkNotify
  for n t
proof (unfold_locales, goal_cases)
  case (3 s p N)
  then show ?case by (rule pt_again)
next
  case (4 s N)
  then show ?case by (rule pt_notifiers_move)
next
  case (5 p e)
  then show ?case by (rule pt_no_error)
qed (simp_all add: pt_code_kind pt_ncode_kind pt_solid del: pt_code.simps(1) pt_ncode.simps(1), simp_all)

text \<open>C5. A thread blocks on a future that is ready after \<open>j\<close> events, while any number of others each
  cause an event and wake it, on the pthread parker, in any interleaving, with spurious wakeups and any number of
  turns of the loops: nothing panics, the listener is not released while it is in use, \<open>block_on\<close>
  returns only when the future is ready, and no wakeup is lost: the threads are stuck only
  when all are done, so \<open>block_on\<close> has returned.\<close>

theorem block_on_woken:
  assumes "reach (block_race (pthread_park_new posix_start) (pthread_park posix m) (pthread_unpark posix) n j k) c"
    and "j \<le> k" and "k + 2 < 2 ^ 64"
  shows "block_ok j c"
proof (rule pthread_blocks.block_races [OF _ assms(2,3)])
  show "reach (block_race (pthread_park_new posix_start) (\<lambda>_. pthread_park posix m (Expiry None)) (pthread_unpark posix) n j k) c"
    using assms(1) by (simp add: block_race_def blocking_thread_def guard_park_def)
qed (auto simp: pt_flags_free pt_inv_def lk_inv_def pthread_park_new_def posix_start_def Let_def)

theorem block_on_woken_witness:
  "block_ok 2 (block_race (pthread_park_new posix_start) (pthread_park posix 2) (pthread_unpark posix) 4 2 3)"
  by (rule block_on_woken [OF reach.start]) simp_all

subsection \<open>On the futex parker\<close>

lemma fx_again:
  assumes "fx_inv s p N" and "ended (fx_code n t p)"
  shows "fx_inv s FxStart N"
proof -
  from assms(2) obtain r where "p = FxDone r" using fx_code_kind by blast
  with assms(1) show ?thesis by (simp add: fx_inv_def)
qed

lemma fx_no_error: "fx_code n t p \<noteq> Ret (Parked (Inl e))"
proof
  assume e: "fx_code n t p = Ret (Parked (Inl e))"
  then have "ended (fx_code n t p)" by simp
  then obtain r where "p = FxDone r" using fx_code_kind by blast
  with e show False by simp
qed

lemma fx_turn_solid: "solid (fx_code n t (FxTurn m))"
proof (cases "expiry_is_some t")
  case True
  then show ?thesis by (simp add: fx_turn_some del: fx_code.simps)
next
  case False
  then show ?thesis by (simp add: fx_turn_none linux_wait_def del: fx_code.simps(4))
qed

lemma fx_solid: "solid (fx_code n t p)" "solid (fx_ncode a)"
  subgoal
    by (cases p)
      (auto simp: fx_turn_solid fx_start_code fx_load_def futex_consume_def fx_swap_def fx_compare_exchange_def
        linux_wait_def fx_sleep_def k_return_def fx_rest_def simp del: fx_code.simps(1,4))
  subgoal
    by (cases a)
      (simp_all add: notify_thread_code_def futex_unpark_def fx_fetch_or_def futex_wake_def linux_def linux_wake_def)
  done

interpretation futex_blocks: blocking_park "fx_code n t" fx_ncode fx_inv futex_notified fx_taken fx_given
    "\<lambda>a. a \<noteq> FxNotify" "futex_raw_park linux n t" "futex_unpark linux" FxStart FxNotify
  for n t
proof (unfold_locales, goal_cases)
  case (3 s p N)
  then show ?case by (rule fx_again)
next
  case (4 s N)
  then show ?case by (simp add: fx_ncode_moves fx_ncode_kind)
next
  case (5 p e)
  then show ?case by (rule fx_no_error)
qed (simp_all add: fx_code_kind fx_ncode_kind fx_solid fx_given_def del: fx_code.simps(1) fx_ncode.simps(1), simp_all)

text \<open>The same on the futex parker.\<close>

lemma block_on_woken_futex:
  assumes "reach (block_race (futex_park_new linux_start) (futex_raw_park linux m) (futex_unpark linux) n j k) c"
    and "j \<le> k" and "k + 2 < 2 ^ 64"
  shows "block_ok j c"
proof (rule futex_blocks.block_races [OF _ assms(2,3)])
  show "reach (block_race (futex_park_new linux_start) (\<lambda>_. futex_raw_park linux m (Expiry None)) (futex_unpark linux) n j k) c"
    using assms(1) by (simp add: block_race_def blocking_thread_def guard_park_def)
qed (auto simp: fx_flags_free fx_inv_def futex_park_new_def linux_start_def)

end
