(* ===== verification/Task.thy ===== *)
theory Task
  imports ChannelRace
begin

text \<open>
  \<open>suspend-channel/src/task.rs\<close>: a function and a channel in one allocation.  The state is that
  of the channel with the function's field behind it; a function is what it comes to when it
  is called, \<open>Some v\<close>, or \<open>None\<close> for a panic.  Two fields of the model count how often a
  function was called and how often one was dropped without a call.  The vtable of a task is
  the one of its type, so that \<open>invoke\<close>, \<open>cancel\<close> and \<open>drop\<close> are called directly.
\<close>

subsection \<open>TaskInner\<close>

record ('v, 'w) task_inner = "('v, 'w) chan" +
  body :: "'v option option"
  called :: nat
  unused :: nat

type_synonym ('v, 'w, 'r) tkprog = "(('v, 'w) task_inner, 'r) prog"

definition task_new_fn :: "'v option \<Rightarrow> ('v, 'w) task_inner" where
  "task_new_fn f = \<lparr>c_state = STATE_ACTIVE, c_value = maybe_empty, c_waker = maybe_empty,
     freed = 0, log = [], body = Some f, called = 0, unused = 0\<rparr>"

definition task_access ::
  "(('v, 'w) task_inner \<Rightarrow> ('v, 'w) task_inner) \<Rightarrow> (('v, 'w) task_inner \<Rightarrow> ('v, 'w, 'r) tkprog) \<Rightarrow>
   ('v, 'w, 'r) tkprog" where
  "task_access u k = Act u (\<lambda>s. if freed s = 0 then k s else Panic ''use after free'')"

text \<open>The drop of the box, with a function that is still in it.\<close>

definition drop_task :: "('v, 'w, 'r) tkprog \<Rightarrow> ('v, 'w, 'r) tkprog" where
  "drop_task k = Act (\<lambda>s. s\<lparr>body := None, unused := unused s + (if body s = None then 0 else 1)\<rparr>) (\<lambda>s. dealloc k)"

text \<open>The two accesses of \<open>body\<close> that drop what is in it and write \<open>None\<close> over it.\<close>

definition cancel_task :: "('v, 'w, unit) tkprog" where
  "cancel_task =
     task_access (\<lambda>s. s\<lparr>unused := unused s + (if body s = None then 0 else 1)\<rparr>) (\<lambda>_.
       task_access (\<lambda>s. s\<lparr>body := None\<rparr>) (\<lambda>_.
         bind (drop_one_side True) (\<lambda>d. if d then drop_task (Ret ()) else Ret ())))"

definition task_guard_drop :: "('v, 'w, unit) tkprog" where
  "task_guard_drop = bind (drop_one_side True) (\<lambda>d. if d then drop_task (Ret ()) else Ret ())"

text \<open>A panic of the function unwinds through the guard.\<close>

definition invoke_fn :: "('v, 'w, bool) tkprog" where
  "invoke_fn =
     task_access (\<lambda>s. s\<lparr>body := None, called := called s + (if body s = None then 0 else 1)\<rparr>) (\<lambda>s.
       case body s of
         None \<Rightarrow> Panic ''unwrap on None''
       | Some None \<Rightarrow> bind task_guard_drop (\<lambda>_. Panic ''task panicked'')
       | Some (Some v) \<Rightarrow> bind (chan_write v None True) (\<lambda>r. case r of
             Inl (v', dropped) \<Rightarrow> emit (ValueDropped v') (drop_task (Ret True))
           | Inr _ \<Rightarrow> Ret True))"

subsection \<open>TaskFn and JoinTask\<close>

datatype task_handle = TaskFn

record join_task =
  jt_task :: "box_ptr option"

definition task_fn :: "'v option \<Rightarrow> ('v, 'w) task_inner \<times> task_handle \<times> join_task" where
  "task_fn f = (task_new_fn f, TaskFn, \<lparr>jt_task = Some ChannelPtr\<rparr>)"

definition task_run :: "task_handle \<Rightarrow> ('v, 'w, unit) tkprog" where
  "task_run t = bind invoke_fn (\<lambda>_. Ret ())"

definition task_drop :: "task_handle \<Rightarrow> ('v, 'w, unit) tkprog" where
  "task_drop t = cancel_task"

text \<open>\<open>dropped || channel.drop_one_side(false)\<close>\<close>

definition drop_reader :: "bool \<Rightarrow> ('v, 'w, 'r) tkprog \<Rightarrow> ('v, 'w, 'r) tkprog" where
  "drop_reader dropped k =
     (if dropped then drop_task k else bind (drop_one_side False) (\<lambda>d. if d then drop_task k else k))"

definition jt_join ::
  "nat \<Rightarrow> 'w \<Rightarrow> ('v, 'w, lock_error + park_result) tkprog \<Rightarrow> join_task \<Rightarrow> ('v, 'w, recv_error + 'v) tkprog" where
  "jt_join n w park j =
     (case jt_task j of
        None \<Rightarrow> Ret (Inl Terminated)
      | Some c \<Rightarrow> bind (wait_read n w park) (\<lambda>(result, dropped).
            drop_reader dropped (Ret (ok_or result Incomplete))))"

definition jt_join_timeout ::
  "nat \<Rightarrow> 'w \<Rightarrow> ('v, 'w, lock_error + park_result) tkprog \<Rightarrow> join_task \<Rightarrow>
   ('v, 'w, join_task \<times> (recv_error + 'v)) tkprog" where
  "jt_join_timeout n w park j =
     (case jt_task j of
        None \<Rightarrow> Ret (j, Inl Terminated)
      | Some c \<Rightarrow> bind (wait_read_timeout n w park) (\<lambda>(result, dropped).
            if dropped then drop_task (Ret (j\<lparr>jt_task := None\<rparr>, ok_or result Incomplete))
            else (case result of
                Some v \<Rightarrow> drop_reader False (Ret (j\<lparr>jt_task := None\<rparr>, Inr v))
              | None \<Rightarrow> Ret (j, Inl RecvTimedOut))))"

definition jt_try_join ::
  "nat \<Rightarrow> join_task \<Rightarrow> ('v, 'w, join_task \<times> (recv_error + 'v) poll) tkprog" where
  "jt_try_join n j =
     (case jt_task j of
        None \<Rightarrow> Ret (j, Ready (Inl Terminated))
      | Some c \<Rightarrow> bind (chan_read n None False) (\<lambda>p. case p of
            Ready (result, dropped) \<Rightarrow>
              drop_reader dropped (Ret (j\<lparr>jt_task := None\<rparr>, Ready (ok_or result Incomplete)))
          | Pending \<Rightarrow> Ret (j, Pending)))"

definition jt_poll ::
  "nat \<Rightarrow> join_task \<Rightarrow> 'w \<Rightarrow> ('v, 'w, join_task \<times> (recv_error + 'v) poll) tkprog" where
  "jt_poll n j w =
     (case jt_task j of
        None \<Rightarrow> Ret (j, Ready (Inl Terminated))
      | Some c \<Rightarrow> bind (chan_read n (Some w) False) (\<lambda>p. case p of
            Ready (result, dropped) \<Rightarrow>
              let k = Ret (j\<lparr>jt_task := None\<rparr>, Ready (ok_or result Incomplete)) in
              if dropped then drop_task k else k
          | Pending \<Rightarrow> Ret (j, Pending)))"

definition jt_drop :: "join_task \<Rightarrow> ('v, 'w, unit) tkprog" where
  "jt_drop j =
     (case jt_task j of
        None \<Rightarrow> Ret ()
      | Some c \<Rightarrow> bind (drop_one_side False) (\<lambda>d. if d then drop_task (Ret ()) else Ret ()))"

lemmas task_defs = task_new_fn_def task_access_def drop_task_def cancel_task_def task_guard_drop_def
  invoke_fn_def task_run_def task_drop_def drop_reader_def jt_try_join_def jt_poll_def jt_drop_def

subsection \<open>A task and its join handle, one after the other\<close>

datatype task_use = RunTask | DropTask

datatype join_way = ByJoin | ByTimeout | ByTry | ByPoll

primrec task_use_code :: "task_use \<Rightarrow> ('v, 'w, unit) tkprog" where
  "task_use_code RunTask = task_run TaskFn"
| "task_use_code DropTask = task_drop TaskFn"

definition the_join :: join_task where "the_join = \<lparr>jt_task = Some ChannelPtr\<rparr>"

primrec join_code ::
  "join_way \<Rightarrow> nat \<Rightarrow> 'w \<Rightarrow> ('v, 'w, lock_error + park_result) tkprog \<Rightarrow> ('v, 'w, (recv_error + 'v) poll) tkprog"
where
  "join_code ByJoin n w park = bind (jt_join n w park the_join) (\<lambda>r. Ret (Ready r))"
| "join_code ByTimeout n w park = bind (jt_join_timeout n w park the_join) (\<lambda>(j, r). Ret (Ready r))"
| "join_code ByTry n w park = bind (jt_try_join n the_join) (\<lambda>(j, r). Ret r)"
| "join_code ByPoll n w park = bind (jt_poll n the_join w) (\<lambda>(j, r). Ret r)"

text \<open>What the two sides see: how the use of the task ends, and what the handle is told.\<close>

definition use_outcome :: "task_use \<Rightarrow> 'v option \<Rightarrow> unit outcome" where
  "use_outcome u f = (if u = RunTask \<and> f = None then Panicked ''task panicked'' else Returned ())"

definition join_outcome :: "task_use \<Rightarrow> 'v option \<Rightarrow> recv_error + 'v" where
  "join_outcome u f = (if u = RunTask then ok_or f Incomplete else Inl Incomplete)"

lemmas task_seq_defs = task_defs jt_join_def jt_join_timeout_def the_join_def wait_read_def
  wait_read_timeout_def op_defs access_defs end_defs state_defs checked_defs maybe_empty_def maybe_drop_def
  use_outcome_def join_outcome_def run_def

definition task_used :: "task_use \<Rightarrow> 'v option \<Rightarrow> ('v, 'w) task_inner \<Rightarrow> bool" where
  "task_used u f s = (freed s = 0 \<and> body s = None \<and> log s = [] \<and> called s = (if u = RunTask then 1 else 0) \<and>
     called s + unused s = 1 \<and> c_waker s = maybe_empty \<and>
     (if u = RunTask \<and> f \<noteq> None then c_state s = STATE_LOADED \<and> c_value s = maybe_new (the f)
      else c_state s = STATE_DONE \<and> c_value s = maybe_empty))"

lemma task_use_ok:
  "\<exists>s os'. exec (task_use_code u) os (task_new_fn f) = (use_outcome u f, s, os') \<and> task_used u f s"
  by (cases u; cases f; cases os) (auto simp: task_seq_defs task_used_def maybe_new_def Let_def)

lemma task_join_ok:
  assumes "task_used u f s"
  shows "\<exists>s'. run (join_code way (Suc n) w park) os s = (Returned (Ready (join_outcome u f)), s') \<and>
    freed s' = 1 \<and> body s' = None \<and> called s' = called s \<and> unused s' = unused s \<and> log s' = []"
proof (cases way)
  case ByJoin
  with assms show ?thesis by (cases f) (auto simp: task_seq_defs task_used_def maybe_new_def split: if_splits)
next
  case ByTimeout
  with assms show ?thesis by (cases f) (auto simp: task_seq_defs task_used_def maybe_new_def split: if_splits)
next
  case ByTry
  with assms show ?thesis by (cases f) (auto simp: task_seq_defs task_used_def maybe_new_def split: if_splits)
next
  case ByPoll
  with assms show ?thesis by (cases f) (auto simp: task_seq_defs task_used_def maybe_new_def split: if_splits)
qed

text \<open>C15. A task is run or dropped, and then its handle asks for the result, by \<open>join\<close>, \<open>join_timeout\<close>,
  \<open>try_join\<close> or a poll: the function is called once by a run and never by a drop, in which it is
  dropped, the handle is told the value, or \<open>Incomplete\<close> after a panic or a drop, and the
  allocation is released exactly once.\<close>

theorem task_result:
  fixes f :: "'v option" and w :: 'w
  shows "\<exists>s s'. run (task_use_code u) os (task_new_fn f) = (use_outcome u f, s) \<and>
     run (join_code way (Suc n) w park) os' s = (Returned (Ready (join_outcome u f)), s') \<and>
     freed s' = 1 \<and> body s' = None \<and> called s' = (if u = RunTask then 1 else 0) \<and>
     called s' + unused s' = 1 \<and> log s' = []"
proof -
  from task_use_ok obtain s :: "('v, 'w) task_inner" and os2 where s: "exec (task_use_code u) os (task_new_fn f) = (use_outcome u f, s, os2)"
    "task_used u f s" by blast
  from task_join_ok [OF s(2), of way n w park os'] s(2) run_exec [OF s(1)] show ?thesis
    by (fastforce simp: task_used_def)
qed

subsection \<open>The handle first\<close>

lemma task_dropped_handle:
  "\<exists>s os'. exec (jt_drop the_join) os (task_new_fn f) = (Returned (), s, os') \<and> freed s = 0 \<and>
     c_state s AND STATE_ACTIVE = 0 \<and> c_state s AND STATE_LOADED = 0 \<and> c_value s = maybe_empty \<and>
     c_waker s = maybe_empty \<and> body s = Some f \<and> called s = 0 \<and> unused s = 0 \<and> log s = []"
  by (auto simp: task_seq_defs)

text \<open>C34. The handle of a task is dropped before the task is used: a run still calls the function, and
  drops its value, a drop drops the function, and the allocation is released exactly once.\<close>

theorem task_abandoned:
  fixes f :: "'v option"
  shows "\<exists>(s :: ('v, 'w) task_inner) s'. run (jt_drop the_join) os (task_new_fn f) = (Returned (), s) \<and>
     run (task_use_code u) os' s = (use_outcome u f, s') \<and>
     freed s' = 1 \<and> body s' = None \<and> called s' = (if u = RunTask then 1 else 0) \<and>
     called s' + unused s' = 1 \<and> log s' = (if u = RunTask then map ValueDropped (list_of f) else [])"
proof -
  from task_dropped_handle obtain s :: "('v, 'w) task_inner" and os2 where s: "exec (jt_drop the_join) os (task_new_fn f) = (Returned (), s, os2)"
    "freed s = 0" "c_state s AND STATE_ACTIVE = 0" "c_state s AND STATE_LOADED = 0" "c_value s = maybe_empty"
    "c_waker s = maybe_empty" "body s = Some f" "called s = 0" "unused s = 0" "log s = []" by blast
  then have "\<exists>s'. run (task_use_code u) os' s = (use_outcome u f, s') \<and>
     freed s' = 1 \<and> body s' = None \<and> called s' = (if u = RunTask then 1 else 0) \<and>
     called s' + unused s' = 1 \<and> log s' = (if u = RunTask then map ValueDropped (list_of f) else [])"
    by (cases u; cases f) (auto simp: task_seq_defs)
  with run_exec [OF s(1)] show ?thesis by blast
qed

text \<open>C35. The handle of a task is polled before the task is used: the poll is pending and keeps the
  waker, the use of the task calls the waker, once, and the next poll, which may be with another
  waker, has the result and releases the allocation.\<close>

theorem task_wakes_handle:
  "\<exists>s s' s''. run (jt_poll (Suc n) the_join w) [] (task_new_fn f) = (Returned (the_join, Pending), s) \<and>
     run (task_use_code u) [] s = (use_outcome u f, s') \<and> wakes (log s') = [w] \<and>
     run (jt_poll (Suc n) the_join w2) [] s' =
       (Returned (\<lparr>jt_task = None\<rparr>, Ready (join_outcome u f)), s'') \<and>
     freed s'' = 1 \<and> body s'' = None \<and> called s'' + unused s'' = 1 \<and> log s'' = log s'"
  by (cases u; cases f) (auto simp: task_seq_defs)

subsection \<open>What goes wrong\<close>

lemma lazy_task:
  "task_access u k = task_access u k" "drop_task k2 = drop_task k2"
  "b = b' \<Longrightarrow> drop_reader b k2 = drop_reader b' k2"
  by simp_all

datatype 'v task_end = Used | Asked "(recv_error + 'v) poll"

definition k_use :: "task_use \<Rightarrow> (('v, 'w) task_inner, 'v task_end) prog" where
  "k_use u = bind (task_use_code u) (\<lambda>_. Ret Used)"

definition k_poll :: "'w \<Rightarrow> (('v, 'w) task_inner, 'v task_end) prog" where
  "k_poll w = bind (jt_poll 3 the_join w) (\<lambda>(_, r). Ret (Asked r))"

definition k_drop :: "(('v, 'w) task_inner, 'v task_end) prog" where
  "k_drop = bind (jt_drop the_join) (\<lambda>_. Ret Used)"

text \<open>A park that lasts until the waker of the handle has been called.\<close>

definition woken_park :: "('v, 'w, lock_error + park_result) tkprog" where
  "woken_park = Wait (\<lambda>s. wakes (log s) \<noteq> []) (Act (\<lambda>s. s) (\<lambda>_. Ret (Inr Unparked)))"

definition k_join :: "'w \<Rightarrow> (('v, 'w) task_inner, 'v task_end) prog" where
  "k_join w = bind (jt_join 3 w woken_park the_join) (\<lambda>r. Ret (Asked (Ready r)))"

lemmas task_race_defs = k_use_def k_poll_def k_drop_def task_defs race_defs the_join_def leads_to_def

text \<open>The task and its handle are dropped at the same time.\<close>

lemma task_drop_drop_panics:
  "\<exists>d. reach (task_new_fn f :: ('v, 'w) task_inner, [k_use DropTask, k_drop]) d \<and> list_ex panicked (snd d)"
  by (rule leads_to_reach [of "[(0, False), (0, False), (0, False), (1, False), (0, False), (1, False), (1, False)]"])
     (simp add: task_race_defs cong: lazy_prog lazy_access lazy_task)

text \<open>
  A poll takes the value before the writer has cleared \<open>STATE_ACTIVE\<close>, and forgets the task without
  dropping its side: the allocation is never released.
\<close>

lemma task_poll_leaks:
  "\<exists>d. reach (task_new_fn (Some v) :: ('v, 'w) task_inner, [k_use RunTask, k_poll w]) d \<and>
     snd d = [Ret Used, Ret (Asked (Ready (Inr v)))] \<and> freed (fst d) = 0"
  by (rule leads_to_reach [of "[(0, False), (0, False), (0, False), (0, True), (0, False),
        (1, False), (1, False), (1, False), (1, False), (0, False)]"])
     (simp add: task_race_defs cong: lazy_prog lazy_access lazy_task)

text \<open>\<open>try_join\<close> before the task has run gives it up.\<close>

lemma try_join_gives_up:
  "\<exists>s. run (jt_try_join (Suc n) the_join) [] (task_new_fn f :: ('v, 'w) task_inner) =
     (Returned (\<lparr>jt_task = None\<rparr>, Ready (Inl Incomplete)), s) \<and> c_state s = STATE_DONE"
  by (auto simp: task_seq_defs)

text \<open>
  The two sides on two threads inherit the faults of the channel.  A task that is dropped while
  \<open>join\<close> stores its waker leaves \<open>join\<close> blocked, and when the release of the task's lock fails
  once, \<open>run\<close> and \<open>join\<close> meet in a cell that is empty.
\<close>

lemmas task_join_defs = k_join_def woken_park_def jt_join_def wait_read_def
  read_closure_def block_on_poll_def block_loop_numeral task_race_defs

lemma drop_join_blocks:
  "\<exists>d. reach (task_new_fn f :: ('v, 'w) task_inner, [k_use DropTask, k_join w]) d \<and>
     (hd (snd d) = Ret Used \<and> thread_step (snd d ! 1) False (fst d) = None \<and> (\<exists>g p. snd d ! 1 = Wait g p) \<and>
      freed (fst d) = 0)"
  by (rule leads_to_reach [of "[(0, False), (0, False), (1, False), (1, False), (1, False), (0, False),
        (1, False), (1, False), (1, False), (0, False)]"])
     (simp add: task_join_defs cong: lazy_prog lazy_access lazy_task lazy_loop)

lemma run_join_panics:
  "\<exists>d. reach (task_new_fn (Some v) :: ('v, 'w) task_inner, [k_use RunTask, k_join w]) d \<and> list_ex panicked (snd d)"
  by (rule leads_to_reach [of "[(0, False), (0, False), (0, False), (0, True), (0, False), (1, False),
        (1, False), (1, False), (1, False), (1, False), (0, False), (1, False), (1, False)]"])
     (simp add: task_join_defs cong: lazy_prog lazy_access lazy_task lazy_loop)

end
