(* ===== verification/Scoped.thy ===== *)
theory Scoped
  imports SharedRace ThreadBlock
begin

text \<open>
  \<open>suspend-core/src/scoped.rs\<close>: a value pinned to the stack with the counter of \<open>SharedInner\<close>,
  and the trackers of its borrows.  The memory is never released; a \<open>PinShared\<close> ends when its
  owner's frame does.  \<open>w\<close> is the waker of the calling thread's listener, \<open>park\<close> its park.
\<close>

datatype scoped = Scoped

definition pin_shared_new :: "'t \<Rightarrow> ('t, 'w) shared_inner" where
  "pin_shared_new v = shared_inner_new v"

definition scoped_new :: "('t, 'w, scoped) sprog" where
  "scoped_new = inc_count_ref (Ret Scoped)"

definition scoped_borrow_count :: "scoped \<Rightarrow> ('t, 'w, usize) sprog" where
  "scoped_borrow_count s = inner_borrow_count"

definition scoped_clone :: "scoped \<Rightarrow> ('t, 'w, scoped) sprog" where
  "scoped_clone s = inc_count_ref (Ret Scoped)"

definition scoped_deref :: "scoped \<Rightarrow> ('t, 'w, 't) sprog" where
  "scoped_deref s = s_access (\<lambda>s. s) (\<lambda>s. Ret (s_value s))"

definition scoped_drop :: "nat \<Rightarrow> scoped \<Rightarrow> ('t, 'w, unit) sprog" where
  "scoped_drop n s = bind (dec_count_ref n) (\<lambda>_. Ret ())"

text \<open>The closure of \<open>CollectOnDrop\<close>; its variable is \<open>first\<close>.\<close>

definition collect_closure :: "nat \<Rightarrow> 'w \<Rightarrow> bool \<Rightarrow> ('t, 'w, bool \<times> unit poll) sprog" where
  "collect_closure n w first =
     (if first then bind (start_poll w) (\<lambda>p. Ret (False, p))
      else bind (resume_poll n w) (\<lambda>p. Ret (False, p)))"

definition collect_on_drop ::
  "nat \<Rightarrow> 'w \<Rightarrow> ('t, 'w, lock_error + park_result) sprog \<Rightarrow> ('t, 'w, unit) sprog" where
  "collect_on_drop n w park =
     bind (inner_try_collect False) (\<lambda>b.
       if b then Ret ()
       else bind (block_on_poll n (collect_closure n w) park True) (\<lambda>_. Ret ()))"

definition pin_shared_with ::
  "nat \<Rightarrow> 'w \<Rightarrow> ('t, 'w, lock_error + park_result) sprog \<Rightarrow> (scoped \<Rightarrow> ('t, 'w, 'r) sprog) \<Rightarrow> ('t, 'w, 'r) sprog" where
  "pin_shared_with n w park f =
     bind scoped_new (\<lambda>s. bind (f s) (\<lambda>r. bind (collect_on_drop n w park) (\<lambda>_. Ret r)))"

definition pin_shared_into_inner :: "('t, 'w, 't) sprog" where
  "pin_shared_into_inner = s_into_inner Ret"

definition with_scope ::
  "nat \<Rightarrow> 'w \<Rightarrow> (unit, 'w, lock_error + park_result) sprog \<Rightarrow> (scoped \<Rightarrow> (unit, 'w, 'r) sprog) \<Rightarrow> (unit, 'w, 'r) sprog" where
  "with_scope n w park f = pin_shared_with n w park f"

lemmas scoped_defs = scoped_new_def scoped_drop_def scoped_clone_def collect_closure_def
  collect_on_drop_def pin_shared_with_def pin_shared_new_def

subsection \<open>One thread alone\<close>

text \<open>A scope whose function drops the tracker that it is given, on a value with no other borrow,
  returns the function's result without blocking, and leaves the value with no borrow, so that
  the next scope can follow.\<close>

lemma with_returns:
  assumes "count s = 3" and "s_freed s = 0"
    and "\<And>os s. count s = 5 \<Longrightarrow> s_freed s = 0 \<Longrightarrow> does (f Scoped) os s (\<lambda>r s'. Q r \<and> count s' = 3 \<and> s_freed s' = 0)"
  shows "does (pin_shared_with n w park f) os s (\<lambda>r s'. Q r \<and> count s' = 3 \<and> s_freed s' = 0)"
proof -
  have new: "does scoped_new os s (\<lambda>x s'. x = Scoped \<and> count s' = 5 \<and> s_freed s' = 0)"
    using assms(1,2) by (simp add: does_def scoped_new_def inc_count_ref_def s_fetch_add_def s_access_def MAX_REFCOUNT_def)
  have col: "does (collect_on_drop n w park) os' s' (\<lambda>_ s''. s'' = s')" if "count s' = 3" "s_freed s' = 0" for os' s'
    using that by (simp add: does_def collect_on_drop_def inner_try_collect_def s_load_def s_access_def)
  show ?thesis
    unfolding pin_shared_with_def
    by (rule does_bind [OF new], elim conjE, simp only:, rule does_bind [OF assms(3)], assumption, assumption,
        elim conjE, rule does_bind [OF col], assumption, assumption) simp
qed

definition drop_at_once :: "scoped \<Rightarrow> ('t, 'w, usize) sprog" where
  "drop_at_once s = bind (scoped_borrow_count s) (\<lambda>k. bind (scoped_drop 1 s) (\<lambda>_. Ret k))"

lemma drop_at_once_ok:
  "count s = 5 \<Longrightarrow> s_freed s = 0 \<Longrightarrow>
     does (drop_at_once Scoped) os s (\<lambda>r s'. r = 1 \<and> count s' = 3 \<and> s_freed s' = 0)"
  by (simp add: does_def drop_at_once_def scoped_borrow_count_def inner_borrow_count_def borrow_count_of_def
      scoped_drop_def dec_count_ref.simps(2) s_access_defs)

subsection \<open>A tracker on another thread\<close>

text \<open>A park that lasts until the waker has been called.\<close>

definition until_woken :: "('t, 'w, lock_error + park_result) sprog" where
  "until_woken = Wait (\<lambda>s. wakes (s_log s) \<noteq> []) (Act (\<lambda>s. s) (\<lambda>_. Ret (Inr Unparked)))"

datatype scope_end = ScopeLeft | TrackerGone

definition leave_scope :: "'w \<Rightarrow> (('t, 'w) shared_inner, scope_end) prog" where
  "leave_scope w = bind (collect_on_drop 3 w until_woken) (\<lambda>_. Ret ScopeLeft)"

definition drop_tracker :: "(('t, 'w) shared_inner, scope_end) prog" where
  "drop_tracker = bind (scoped_drop 3 Scoped) (\<lambda>_. Ret TrackerGone)"

lemma lazy_closure: "b = b' \<Longrightarrow> collect_closure m w b = collect_closure m w b'"
  by simp

subsection \<open>What goes wrong\<close>

text \<open>
  A scope that had to wait leaves the count at 2 and not at 3.  The next scope on the same value
  blocks for ever, even if its function drops the tracker at once.
\<close>

lemma scope_leaves_count_2:
  "\<exists>d. reach (lent_once v :: ('t, 'w) shared_inner, [leave_scope w, drop_tracker]) d \<and>
     snd d = [Ret ScopeLeft, Ret TrackerGone] \<and> count (fst d) = 2"
proof -
  have "\<exists>d. sched [(0, False), (0, False), (0, False), (0, False), (0, False), (1, False), (1, False),
      (1, False), (1, False), (0, False), (0, False)]
      (lent_once v :: ('t, 'w) shared_inner, [leave_scope w, drop_tracker]) = Some d \<and>
     snd d = [Ret ScopeLeft, Ret TrackerGone] \<and> count (fst d) = 2"
    by (simp add: lent_once_def leave_scope_def drop_tracker_def scoped_defs until_woken_def
        block_on_poll_def block_loop_numeral s_race_defs cong: lazy_prog lazy_s_access lazy_loop lazy_closure)
  then show ?thesis using sched_reach by blast
qed

lemma second_scope_blocks:
  assumes "count s = 2" and "s_freed s = 0"
  shows "\<exists>s'. run (pin_shared_with 1 w (Wait (\<lambda>_. False) Hang) drop_at_once) [] s = (Blocked, s')"
  using assms
  by (simp add: run_def scoped_defs drop_at_once_def scoped_borrow_count_def inner_borrow_count_def
      block_on_poll_def start_poll_def inner_try_collect_def inc_count_ref_def dec_count_ref.simps(2)
      s_access_defs MAX_REFCOUNT_def)

end
