(* ===== verification/ScopeCount.thy ===== *)
theory ScopeCount
  imports Scoped SharedCount
begin

text \<open>
  An owner that waits for its borrows, and any number of threads that have them: what makes it
  sound to lend a value on the stack to other threads, and to use a lent value again once it
  has been collected.  The owner is at the end of a scope (\<open>ByScope\<close>) or in \<open>collect().wait(None)\<close>
  of a lender (\<open>ByLender\<close>); the other threads clone, read and drop \<open>Scoped\<close> trackers, or \<open>Shared\<close>
  borrows, in any interleaving.  Each thread is at a place, which stands for the code it has
  still to run.
\<close>

declare sum_list_eq_0_iff [simp del]

subsection \<open>The threads\<close>

datatype lend_kind = ByScope | ByLender

primrec borrow_drop :: "lend_kind \<Rightarrow> ('t, 'w, unit) sprog" where
  "borrow_drop ByScope = scoped_drop 1 Scoped"
| "borrow_drop ByLender = shared_drop 1 SharedPtr"

primrec borrow_clone :: "lend_kind \<Rightarrow> ('t, 'w, unit) sprog" where
  "borrow_clone ByScope = bind (scoped_clone Scoped) (\<lambda>_. Ret ())"
| "borrow_clone ByLender = bind (shared_clone SharedPtr) (\<lambda>_. Ret ())"

primrec borrow_read :: "lend_kind \<Rightarrow> ('t, 'w, unit) sprog" where
  "borrow_read ByScope = bind (scoped_deref Scoped) (\<lambda>_. Ret ())"
| "borrow_read ByLender = bind (shared_deref SharedPtr) (\<lambda>_. Ret ())"

primrec owner_waits :: "lend_kind \<Rightarrow> nat \<Rightarrow> 'w \<Rightarrow> ('t, 'w, unit) sprog" where
  "owner_waits ByScope n w = collect_on_drop (Suc n) w until_woken"
| "owner_waits ByLender n w =
     bind (collect_wait (Suc n) w until_woken (lender_collect \<lparr>pending = False\<rparr>)) (\<lambda>_. Ret ())"

datatype track_op = CloneTrack | DropTrack | ReadTrack

text \<open>A thread with \<open>h\<close> trackers follows its script and drops at the end what it still holds.\<close>

fun tracker :: "lend_kind \<Rightarrow> track_op list \<Rightarrow> nat \<Rightarrow> ('t, 'w, unit) sprog" where
  "tracker k [] 0 = Ret ()"
| "tracker k [] (Suc h) = bind (borrow_drop k) (\<lambda>_. tracker k [] h)"
| "tracker k (x # xs) 0 = Ret ()"
| "tracker k (CloneTrack # xs) (Suc h) = bind (borrow_clone k) (\<lambda>_. tracker k xs (Suc (Suc h)))"
| "tracker k (DropTrack # xs) (Suc h) = bind (borrow_drop k) (\<lambda>_. tracker k xs h)"
| "tracker k (ReadTrack # xs) (Suc h) = bind (borrow_read k) (\<lambda>_. tracker k xs (Suc h))"

lemma tracker_0 [simp]: "tracker k xs 0 = Ret ()"
  by (cases xs) simp_all

text \<open>The thread that dropped the last tracker calls the waker and hands the counter back.\<close>

definition close_scope :: "('t, 'w, unit) sprog" where
  "close_scope = s_compare_exchange 1 2 (\<lambda>r. case r of Inr _ \<Rightarrow> Ret () | Inl _ \<Rightarrow> Hang)"

datatype 'w tplace = Tracks "track_op list" nat | Waking | Woke 'w | Closing

primrec tcode :: "lend_kind \<Rightarrow> 'w tplace \<Rightarrow> ('t, 'w, unit) sprog" where
  "tcode k (Tracks xs h) = tracker k xs h"
| "tcode k Waking = wake_waker close_scope"
| "tcode k (Woke v) = s_emit (Woken v) close_scope"
| "tcode k Closing = close_scope"

text \<open>
  The owner, with up to \<open>Suc n\<close> turns of its loop.  A lender reads the value when the borrows have
  been collected.
\<close>

primrec leave :: "lend_kind \<Rightarrow> ('t, 'w, unit) sprog" where
  "leave ByScope = Ret ()"
| "leave ByLender = s_access (\<lambda>s. s) (\<lambda>s. Ret ())"

primrec owner_loop :: "lend_kind \<Rightarrow> nat \<Rightarrow> 'w \<Rightarrow> nat \<Rightarrow> bool \<Rightarrow> nat \<Rightarrow> ('t, 'w, unit) sprog" where
  "owner_loop ByScope n w m b j = bind (block_loop m (collect_closure (Suc n) w) until_woken b j) (\<lambda>_. Ret ())"
| "owner_loop ByLender n w m b j =
     bind (block_loop m (\<lambda>l. lender_poll_collect (Suc n) l w) until_woken \<lparr>pending = \<not> b\<rparr> j) (\<lambda>(l, p). case p of
       Ready _ \<Rightarrow> leave ByLender
     | Pending \<Rightarrow> Ret ())"

definition parked :: "lend_kind \<Rightarrow> nat \<Rightarrow> 'w \<Rightarrow> nat \<Rightarrow> ('t, 'w, unit) sprog" where
  "parked k n w m = Wait (\<lambda>s. wakes (s_log s) \<noteq> []) (Act (\<lambda>s. s) (\<lambda>_. owner_loop k n w m False 0))"

definition take_back :: "lend_kind \<Rightarrow> ('t, 'w, unit) sprog" where
  "take_back k = s_swap 3 (\<lambda>c. if c = 1 then leave k else Panic ''Invalid shared state'')"

definition give_up :: "lend_kind \<Rightarrow> nat \<Rightarrow> 'w \<Rightarrow> ('t, 'w, unit) sprog" where
  "give_up k n w = s_fetch_sub 2 (\<lambda>old. checked_sub old 2 (\<lambda>c.
     if c = 1 then clear_waker (take_back k) else parked k n w n))"

datatype 'w oplace =
    Enter | First | CloneWaker | StoreWaker | GiveUp | ClearWaker | Cleared 'w | TakeBack
  | Parked nat | Resume nat | Again nat | Leaving | Left

primrec ocode :: "lend_kind \<Rightarrow> nat \<Rightarrow> 'w \<Rightarrow> 'w oplace \<Rightarrow> ('t, 'w, unit) sprog" where
  "ocode k n w Enter = owner_waits k n w"
| "ocode k n w First = owner_loop k n w (Suc n) True 0"
| "ocode k n w CloneWaker = store_waker w (give_up k n w)"
| "ocode k n w StoreWaker = s_access (\<lambda>s. s\<lparr>s_waker := Some w\<rparr>) (\<lambda>_. give_up k n w)"
| "ocode k n w GiveUp = give_up k n w"
| "ocode k n w ClearWaker = clear_waker (take_back k)"
| "ocode k n w (Cleared v) = s_emit (WakerDropped v) (take_back k)"
| "ocode k n w TakeBack = take_back k"
| "ocode k n w (Parked m) = parked k n w m"
| "ocode k n w (Resume m) = owner_loop k n w m False 0"
| "ocode k n w (Again m) = s_wake_by_ref w (parked k n w m)"
| "ocode k n w Leaving = leave k"
| "ocode k n w Left = Ret ()"

subsection \<open>The code of the places\<close>

lemma enter_code:
  "owner_waits k n w = Act (\<lambda>s. s) (\<lambda>s.
     if s_freed s \<noteq> 0 then Panic ''use after free''
     else if count s = 3 then leave k else owner_loop k n w (Suc n) True 0)"
  by (cases k)
    (auto simp: collect_on_drop_def collect_wait_def lender_collect_def lender_try_collect_def bind_assoc
      inner_try_collect_def s_load_def s_access_def lender_get_mut_unchecked_def block_on_poll_def fun_eq_iff
      intro!: arg_cong2 [of _ _ _ _ bind] split: poll.splits)

lemma first_code:
  "owner_loop k n w (Suc n) True 0 = Act (\<lambda>s. s) (\<lambda>s.
     if s_freed s \<noteq> 0 then Panic ''use after free''
     else if count s = 3 then leave k else store_waker w (give_up k n w))"
  by (cases k)
    (auto simp: collect_closure_def lender_poll_collect_def start_poll_def s_load_def s_access_def store_waker_def
      s_emit_def give_up_def s_fetch_sub_def checked_sub_def clear_waker_def take_back_def s_swap_def parked_def
      until_woken_def fun_eq_iff split: option.splits)

lemma resume_step:
  assumes "tstep (owner_loop k n w (Suc m) False 0) s q s'" and "s_freed s = 0" and "count s = 1 \<or> count s = 2"
  shows "s' = s \<and> q = (if count s = 2 then leave k else s_wake_by_ref w (parked k n w m))"
  using assms
  by (cases k)
    (auto simp: collect_closure_def lender_poll_collect_def resume_poll_def resume_loop.simps(2) s_load_def
      s_access_def s_wake_by_ref_def s_emit_def parked_def until_woken_def)

lemma resume_0: "owner_loop k n w 0 False 0 = Hang"
  by (cases k) simp_all

lemma resume_forms:
  "\<exists>f. owner_loop k n w (Suc m) False 0 = Act (\<lambda>s. s) f"
  by (cases k) (simp_all add: collect_closure_def lender_poll_collect_def resume_poll_def s_load_def s_access_def)

lemma track_drop_code:
  "bind (borrow_drop k) (\<lambda>_. tracker k xs h) = Act (\<lambda>s. s\<lparr>count := count s - 2\<rparr>) (\<lambda>s.
     if s_freed s \<noteq> 0 then Panic ''use after free''
     else if count s < 2 then Panic ''attempt to subtract with overflow''
     else if count s = 3 then bind (wake_waker close_scope) (\<lambda>_. tracker k xs h)
     else if count s = 2 \<and> k = ByLender then s_dealloc (tracker k xs h)
     else tracker k xs h)"
  by (cases k)
    (auto simp: scoped_drop_def shared_drop_def dec_count_ref.simps s_fetch_sub_def s_access_def checked_sub_def
      wake_waker_def close_scope_def s_compare_exchange_def s_emit_def s_dealloc_def fun_eq_iff diff_eq_eq
      split: option.splits)

lemma track_clone_code:
  "bind (borrow_clone k) f = Act (\<lambda>s. s\<lparr>count := count s + 2\<rparr>) (\<lambda>s.
     if s_freed s \<noteq> 0 then Panic ''use after free''
     else if count s > MAX_REFCOUNT then Panic ''Exceeded max ref count'' else f ())"
  by (cases k)
    (auto simp: scoped_clone_def shared_clone_def shared_new_def inc_count_ref_def s_fetch_add_def s_access_def
      fun_eq_iff)

lemma track_read_code:
  "bind (borrow_read k) f = Act (\<lambda>s. s) (\<lambda>s.
     if s_freed s \<noteq> 0 then Panic ''use after free'' else f ())"
  by (cases k) (auto simp: scoped_deref_def shared_deref_def s_access_def fun_eq_iff)

lemma wake_bind: "bind (wake_waker close_scope) (\<lambda>_. Ret ()) = wake_waker close_scope"
  by (auto simp: wake_waker_def close_scope_def s_emit_def s_access_def s_compare_exchange_def fun_eq_iff
      split: option.splits)

subsection \<open>The invariant\<close>

primrec held :: "'w tplace \<Rightarrow> nat" where
  "held (Tracks xs h) = h" | "held Waking = 0" | "held (Woke v) = 0" | "held Closing = 0"

primrec closers :: "'w tplace \<Rightarrow> nat" where
  "closers (Tracks xs h) = 0" | "closers Waking = 1" | "closers (Woke v) = 1" | "closers Closing = 1"

text \<open>How many trackers a thread can come to hold.\<close>

primrec track_reserve :: "'w tplace \<Rightarrow> nat" where
  "track_reserve (Tracks xs h) = h + length xs" | "track_reserve Waking = 0" | "track_reserve (Woke v) = 0"
| "track_reserve Closing = 0"

abbreviation woken :: "('t, 'w) shared_inner \<Rightarrow> bool" where
  "woken s \<equiv> wakes (s_log s) \<noteq> []"

text \<open>Before the owner gives its share up; while it waits, with \<open>h\<close> trackers left; and afterwards.\<close>

definition calm :: "nat \<Rightarrow> nat \<Rightarrow> ('t, 'w) shared_inner \<Rightarrow> bool" where
  "calm h c s = (c = 0 \<and> unat (count s) = 3 + 2 * h \<and> \<not> woken s)"

definition waiting :: "nat \<Rightarrow> nat \<Rightarrow> ('t, 'w) shared_inner \<Rightarrow> bool" where
  "waiting h c s =
     (if c = 0 then (if h = 0 then count s = 2 \<and> woken s
                     else unat (count s) = 1 + 2 * h \<and> s_waker s \<noteq> None \<and> \<not> woken s)
      else c = 1 \<and> h = 0 \<and> count s = 1)"

text \<open>What a closing thread has still to do, in a state where it is at its place.\<close>

primrec closing_ok :: "('t, 'w) shared_inner \<Rightarrow> 'w tplace \<Rightarrow> bool" where
  "closing_ok s (Tracks xs h) = True"
| "closing_ok s Waking = (s_waker s \<noteq> None \<and> \<not> woken s)"
| "closing_ok s (Woke v) = (\<not> woken s)"
| "closing_ok s Closing = woken s"

primrec owner_ok :: "'w oplace \<Rightarrow> nat \<Rightarrow> nat \<Rightarrow> ('t, 'w) shared_inner \<Rightarrow> bool" where
  "owner_ok Enter h c s = calm h c s"
| "owner_ok First h c s = calm h c s"
| "owner_ok CloneWaker h c s = calm h c s"
| "owner_ok StoreWaker h c s = calm h c s"
| "owner_ok GiveUp h c s = (calm h c s \<and> s_waker s \<noteq> None)"
| "owner_ok ClearWaker h c s = (h = 0 \<and> c = 0 \<and> count s = 1 \<and> s_waker s \<noteq> None)"
| "owner_ok (Cleared v) h c s = (h = 0 \<and> c = 0 \<and> count s = 1)"
| "owner_ok TakeBack h c s = (h = 0 \<and> c = 0 \<and> count s = 1)"
| "owner_ok (Parked m) h c s = waiting h c s"
| "owner_ok (Resume m) h c s = (waiting h c s \<and> woken s)"
| "owner_ok (Again m) h c s = (waiting h c s \<and> woken s)"
| "owner_ok Leaving h c s = (h = 0 \<and> c = 0)"
| "owner_ok Left h c s = (h = 0 \<and> c = 0)"

definition scope_inv :: "('t, 'w) shared_inner \<Rightarrow> 'w oplace \<Rightarrow> 'w tplace list \<Rightarrow> bool" where
  "scope_inv s o' ts =
     (s_freed s = 0 \<and> sum_of track_reserve ts < 2 ^ 61 \<and> owner_ok o' (sum_of held ts) (sum_of closers ts) s \<and>
      list_all (closing_ok s) ts)"

lemma no_closers: "sum_of closers ts = 0 \<Longrightarrow> list_all (closing_ok s) ts"
proof (induction ts)
  case (Cons t ts)
  then show ?case by (cases t) simp_all
qed simp

lemma closing_ok_cong:
  "list_all (closing_ok s) ts \<Longrightarrow> s_waker s' = s_waker s \<Longrightarrow> woken s' = woken s \<Longrightarrow> list_all (closing_ok s') ts"
proof (induction ts)
  case (Cons t ts)
  then show ?case by (cases t) simp_all
qed simp

subsection \<open>A step of the owner\<close>

lemma give_up_step:
  assumes "tstep (give_up k n w) s q s'" and "s_freed s = 0" and "unat (count s) = 3 + 2 * h"
  shows "s' = s\<lparr>count := count s - 2\<rparr> \<and> unat (count s') = 1 + 2 * h \<and>
    q = (if h = 0 then clear_waker (take_back k) else parked k n w n)"
proof -
  have "count s = 3 \<longleftrightarrow> h = 0" "\<not> count s < 2" using assms(3) unat_eq_numeral(4) [of "count s"]
    by (auto simp: word_small)
  moreover have "unat (count s - 2) = 1 + 2 * h" using assms(3) by (simp add: unat_minus_small)
  ultimately show ?thesis
    using assms(1,2) by (auto simp: give_up_def s_fetch_sub_def s_access_def checked_sub_def diff_eq_eq)
qed

lemma owner_step_ok:
  assumes inv: "scope_inv s p ts" and t: "tstep (ocode k n w p) s q s'"
  shows "\<exists>p'. q = ocode k n w p' \<and> scope_inv s' p' ts"
proof -
  let ?h = "sum_of held ts" and ?c = "sum_of closers ts"
  from inv have f: "s_freed s = 0" and r: "sum_of track_reserve ts < 2 ^ 61" and o: "owner_ok p ?h ?c s"
    and cl: "list_all (closing_ok s) ts" by (simp_all add: scope_inv_def)
  have 3: "count s = 3 \<longleftrightarrow> ?h = 0" if "calm ?h ?c s"
    using that unat_eq_numeral(4) [of "count s"] by (auto simp: calm_def)
  have mk: ?thesis if "q = ocode k n w p'" "s_freed s' = 0" "owner_ok p' ?h ?c s'" "list_all (closing_ok s') ts" for p'
    using that r by (auto simp: scope_inv_def)
  have w12: "count s = 1 \<or> count s = 2" if "waiting ?h ?c s" "woken s"
    using that by (auto simp: waiting_def split: if_splits)
  show ?thesis
  proof (cases p)
    case Enter
    with o have c: "calm ?h ?c s" by simp
    with t f 3 [OF c] Enter show ?thesis
      by (intro mk [of "if count s = 3 then Leaving else First"]) (auto simp: enter_code calm_def no_closers)
  next
    case First
    with o have c: "calm ?h ?c s" by simp
    with t f 3 [OF c] First show ?thesis
      by (intro mk [of "if count s = 3 then Leaving else CloneWaker"]) (auto simp: first_code calm_def no_closers)
  next
    case CloneWaker
    with t f o show ?thesis
      by (intro mk [of StoreWaker]) (auto simp: store_waker_def s_emit_def calm_def no_closers)
  next
    case StoreWaker
    with t f o show ?thesis by (intro mk [of GiveUp]) (auto simp: s_access_def calm_def no_closers)
  next
    case GiveUp
    with o have c: "calm ?h ?c s" "s_waker s \<noteq> None" by simp_all
    from t GiveUp have g: "tstep (give_up k n w) s q s'" by simp
    from c have "unat (count s) = 3 + 2 * ?h" by (simp add: calm_def)
    from give_up_step [OF g f this] have s': "s' = s\<lparr>count := count s - 2\<rparr>" "unat (count s') = 1 + 2 * ?h"
      "q = (if ?h = 0 then clear_waker (take_back k) else parked k n w n)" by blast+
    with c f show ?thesis
      by (intro mk [of "if ?h = 0 then ClearWaker else Parked n"])
        (auto simp: calm_def waiting_def no_closers unat_eq_numeral(2) [symmetric])
  next
    case ClearWaker
    with o obtain v where "s_waker s = Some v" by auto
    with ClearWaker t f o show ?thesis
      by (intro mk [of "Cleared v"]) (auto simp: clear_waker_def s_access_def no_closers)
  next
    case (Cleared v)
    with t f o show ?thesis by (intro mk [of TakeBack]) (auto simp: s_emit_def no_closers)
  next
    case TakeBack
    with t f o show ?thesis
      by (intro mk [of Leaving]) (auto simp: take_back_def s_swap_def s_access_def no_closers)
  next
    case (Parked m)
    with t f o cl show ?thesis by (intro mk [of "Resume m"]) (auto simp: parked_def)
  next
    case (Resume m)
    show ?thesis
    proof (cases m)
      case 0
      with t Resume show ?thesis by (simp add: resume_0) blast
    next
      case (Suc m')
      from o Resume have wt: "waiting ?h ?c s" "woken s" by simp_all
      from t Resume Suc have "tstep (owner_loop k n w (Suc m') False 0) s q s'" by simp
      from resume_step [OF this f w12 [OF wt]] have
        "s' = s" "q = (if count s = 2 then leave k else s_wake_by_ref w (parked k n w m'))" by simp_all
      with wt f cl show ?thesis
        by (intro mk [of "if count s = 2 then Leaving else Again m'"]) (auto simp: waiting_def split: if_splits)
    qed
  next
    case (Again m)
    have "list_all (closing_ok (s\<lparr>s_log := s_log s @ [WokenByRef w]\<rparr>)) ts"
      using cl o Again by (intro closing_ok_cong [OF cl]) (auto simp: wakes_def)
    with t f o Again show ?thesis
      by (intro mk [of "Parked m"]) (auto simp: s_wake_by_ref_def s_emit_def waiting_def split: if_splits)
  next
    case Leaving
    with t f o have "q = Ret () \<and> s' = s" by (cases k) (auto simp: s_access_def)
    with f o Leaving show ?thesis by (intro mk [of Left]) (auto simp: no_closers)
  qed (use t in auto)
qed

subsection \<open>A step of a tracker\<close>

lemma list_all_update: "list_all P xs \<Longrightarrow> P x \<Longrightarrow> list_all P (xs[i := x])"
  by (auto simp: list_all_iff dest!: set_update_subset_insert [THEN subsetD])

lemma closers_alone:
  assumes "i < length ts" and "sum_of closers ts = closers (ts ! i)" and "closing_ok s t"
  shows "list_all (closing_ok s) (ts[i := t])"
proof -
  have "sum_of closers (ts[i := Tracks [] 0]) = 0"
    using sum_of_update [OF assms(1), of closers "Tracks [] 0"] assms(2) by simp
  from list_all_update [OF no_closers [OF this] assms(3), of i] show ?thesis by simp
qed

text \<open>While trackers are held, the owner is before its wait or in it.\<close>

definition before_wait :: "'w oplace \<Rightarrow> bool" where
  "before_wait p = (p \<in> {Enter, First, CloneWaker, StoreWaker, GiveUp})"

lemma owner_held:
  assumes "owner_ok p h c s" and "0 < h"
  shows "c = 0 \<and> \<not> woken s \<and>
    (before_wait p \<and> unat (count s) = 3 + 2 * h \<or>
     (\<exists>m. p = Parked m) \<and> unat (count s) = 1 + 2 * h \<and> s_waker s \<noteq> None)"
  using assms by (cases p) (auto simp: calm_def waiting_def before_wait_def split: if_splits)

lemma owner_ok_before:
  assumes "owner_ok p h c s" and "before_wait p" and "unat (count s') = 3 + 2 * h'"
    and "s_waker s' = s_waker s" and "s_log s' = s_log s"
  shows "owner_ok p h' c s'"
  using assms by (auto simp: before_wait_def calm_def)

lemma held_reserve: "sum_of held ts \<le> sum_of track_reserve ts"
proof (rule sum_of_mono)
  fix t :: "'w tplace" show "held t \<le> track_reserve t" by (cases t) simp_all
qed

lemma scope_inv_update:
  assumes "scope_inv s p ts" and "i < length ts" and "ts ! i = Tracks xs g"
    and "s_freed s' = 0" and "h + length ys \<le> g + length xs" and "s_waker s' = s_waker s" and "s_log s' = s_log s"
    and "owner_ok p (sum_of held (ts[i := Tracks ys h])) (sum_of closers ts) s'"
  shows "scope_inv s' p (ts[i := Tracks ys h])"
proof -
  note up = sum_of_update [OF assms(2), where p = "Tracks ys h"]
  from assms(1) have inv: "sum_of track_reserve ts < 2 ^ 61" "list_all (closing_ok s) ts" by (simp_all add: scope_inv_def)
  have "sum_of track_reserve (ts[i := Tracks ys h]) \<le> sum_of track_reserve ts"
    using up [of track_reserve] assms(3,5) by simp
  with inv(1) have "sum_of track_reserve (ts[i := Tracks ys h]) < 2 ^ 61" by linarith
  moreover have "sum_of closers (ts[i := Tracks ys h]) = sum_of closers ts"
    using up [of closers] assms(3) by simp
  moreover have "list_all (closing_ok s') ts"
    by (rule closing_ok_cong [OF inv(2)]) (use assms(6,7) in simp_all)
  then have "list_all (closing_ok s') (ts[i := Tracks ys h])" by (rule list_all_update) simp
  ultimately show ?thesis using assms(4,8) by (simp add: scope_inv_def)
qed

lemma track_drop_ok:
  assumes inv: "scope_inv s p ts" and i: "i < length ts" and ti: "ts ! i = Tracks xs (Suc h)"
    and t: "tstep (bind (borrow_drop k) (\<lambda>_. tracker k ys h)) s q s'" and l: "length ys \<le> length xs"
  shows "\<exists>t'. q = tcode k t' \<and> scope_inv s' p (ts[i := t'])"
proof -
  let ?h = "sum_of held ts"
  from inv have f: "s_freed s = 0" and o: "owner_ok p ?h (sum_of closers ts) s" by (simp_all add: scope_inv_def)
  have hh: "Suc h \<le> ?h" using sum_of_le [OF i, of held] ti by simp
  then have "0 < ?h" by simp
  note oh = owner_held [OF o this]
  have n: "\<not> count s < 2" using oh hh by (auto simp: word_small)
  have two: "count s \<noteq> 2"
  proof
    assume "count s = 2"
    then have "unat (count s) = 2" by simp
    with oh hh show False by linarith
  qed
  have three: "count s = 3 \<longleftrightarrow> (\<exists>m. p = Parked m) \<and> ?h = 1"
    using oh hh unat_eq_numeral(4) [of "count s"] by (auto simp: before_wait_def)
  have q: "q = (if count s = 3 then bind (wake_waker close_scope) (\<lambda>_. tracker k ys h) else tracker k ys h)"
    and s': "s' = s\<lparr>count := count s - 2\<rparr>"
    using t f n two unfolding track_drop_code by auto
  have u: "unat (count s') + 2 = unat (count s)" using n by (simp add: s' unat_minus_small word_small)
  show ?thesis
  proof (cases "count s = 3")
    case True
    with three obtain m where p: "p = Parked m" and h1: "?h = 1" by blast
    with hh have "h = 0" by simp
    with q True have "q = tcode k Waking" by (simp add: wake_bind)
    moreover have "scope_inv s' p (ts[i := Waking])"
    proof -
      note up = sum_of_update [OF i, where p = Waking]
      have "sum_of track_reserve (ts[i := Waking]) < 2 ^ 61"
        using up [of track_reserve] inv by (simp add: scope_inv_def)
      moreover have "sum_of held (ts[i := Waking]) = 0" "sum_of closers (ts[i := Waking]) = 1"
        using up [of held] up [of closers] ti h1 \<open>h = 0\<close> oh by simp_all
      moreover have "list_all (closing_ok s') (ts[i := Waking])"
        using oh ti p by (intro closers_alone [OF i]) (auto simp: s' before_wait_def)
      ultimately show ?thesis using f True by (simp add: scope_inv_def p waiting_def s')
    qed
    ultimately show ?thesis by blast
  next
    case False
    let ?t = "Tracks ys h"
    have hd: "sum_of held (ts[i := ?t]) + 1 = ?h" using sum_of_update [OF i, of held ?t] ti by simp
    have "owner_ok p (sum_of held (ts[i := ?t])) (sum_of closers ts) s'"
    proof (cases "before_wait p")
      case True
      with oh hd u show ?thesis by (intro owner_ok_before [OF o True]) (auto simp: s' before_wait_def)
    next
      case nb: False
      with oh obtain m where p: "p = Parked m" "unat (count s) = 1 + 2 * ?h" "s_waker s \<noteq> None" by blast
      with False three hd have "0 < sum_of held (ts[i := ?t])" by auto
      with p oh hd u show ?thesis by (auto simp: waiting_def s')
    qed
    with False q show ?thesis
      by (intro exI [of _ ?t] conjI scope_inv_update [OF inv i ti]) (use f l in \<open>simp_all add: s'\<close>)
  qed
qed

lemma owner_ok_same:
  "owner_ok p h c s \<Longrightarrow> count s' = count s \<Longrightarrow> s_waker s' = s_waker s \<Longrightarrow> s_log s' = s_log s \<Longrightarrow> owner_ok p h c s'"
  by (cases p) (auto simp: calm_def waiting_def split: if_splits)

lemma track_clone_ok:
  assumes inv: "scope_inv s p ts" and i: "i < length ts" and ti: "ts ! i = Tracks (x # xs) (Suc h)"
    and t: "tstep (bind (borrow_clone k) (\<lambda>_. tracker k xs (Suc (Suc h)))) s q s'"
  shows "\<exists>t'. q = tcode k t' \<and> scope_inv s' p (ts[i := t'])"
proof -
  let ?h = "sum_of held ts" and ?t = "Tracks xs (Suc (Suc h))"
  from inv have f: "s_freed s = 0" and o: "owner_ok p ?h (sum_of closers ts) s"
    and r: "sum_of track_reserve ts < 2 ^ 61" by (simp_all add: scope_inv_def)
  have "0 < ?h" using sum_of_le [OF i, of held] ti by simp
  note oh = owner_held [OF o this]
  from oh r held_reserve [of ts] have b: "unat (count s) < 2 ^ 63 - 2" by auto
  with t f have q: "q = tcode k ?t" and s': "s' = s\<lparr>count := count s + 2\<rparr>" and u: "unat (count s') = unat (count s) + 2"
    unfolding track_clone_code by (auto simp: word_small unat_plus_small)
  have hd: "sum_of held (ts[i := ?t]) = ?h + 1" using sum_of_update [OF i, of held ?t] ti by simp
  have "owner_ok p (sum_of held (ts[i := ?t])) (sum_of closers ts) s'"
  proof (cases "before_wait p")
    case True
    with oh hd u show ?thesis by (intro owner_ok_before [OF o True]) (auto simp: s' before_wait_def)
  next
    case False
    with oh hd u show ?thesis by (auto simp: waiting_def s')
  qed
  moreover have "sum_of closers (ts[i := ?t]) = sum_of closers ts"
    using sum_of_update [OF i, of closers ?t] ti by simp
  ultimately show ?thesis
    by (intro exI [of _ ?t] conjI q scope_inv_update [OF inv i ti]) (use f in \<open>simp_all add: s'\<close>)
qed

lemma track_read_ok:
  assumes inv: "scope_inv s p ts" and i: "i < length ts" and ti: "ts ! i = Tracks (x # xs) (Suc h)"
    and t: "tstep (bind (borrow_read k) (\<lambda>_. tracker k xs (Suc h))) s q s'"
  shows "\<exists>t'. q = tcode k t' \<and> scope_inv s' p (ts[i := t'])"
proof -
  let ?t = "Tracks xs (Suc h)"
  from inv have f: "s_freed s = 0" and o: "owner_ok p (sum_of held ts) (sum_of closers ts) s"
    by (simp_all add: scope_inv_def)
  from t f have "q = tcode k ?t" "s' = s" unfolding track_read_code by auto
  moreover have "sum_of closers (ts[i := ?t]) = sum_of closers ts" "sum_of held (ts[i := ?t]) = sum_of held ts"
    using sum_of_update [OF i, of closers ?t] sum_of_update [OF i, of held ?t] ti by simp_all
  ultimately show ?thesis
    by (intro exI [of _ ?t] conjI scope_inv_update [OF inv i ti]) (use f o in simp_all)
qed

text \<open>A thread that closes the scope is alone with the owner.\<close>

lemma owner_closing:
  assumes "owner_ok p h c s" and "0 < c"
  shows "c = 1 \<and> h = 0 \<and> count s = 1 \<and> (\<exists>m. p = Parked m \<or> woken s \<and> (p = Resume m \<or> p = Again m))"
  using assms by (cases p) (auto simp: calm_def waiting_def split: if_splits)

lemma track_close_ok:
  assumes inv: "scope_inv s p ts" and i: "i < length ts" and c: "closers (ts ! i) = 1"
    and t: "tstep (tcode k (ts ! i)) s q s'"
  shows "\<exists>t'. q = tcode k t' \<and> scope_inv s' p (ts[i := t'])"
proof -
  let ?h = "sum_of held ts" and ?c = "sum_of closers ts"
  from inv have f: "s_freed s = 0" and r: "sum_of track_reserve ts < 2 ^ 61" and o: "owner_ok p ?h ?c s"
    and cl: "closing_ok s (ts ! i)" using i by (simp_all add: scope_inv_def list_all_length)
  have "0 < ?c" using sum_of_le [OF i, of closers] c by simp
  note oc = owner_closing [OF o this]
  have zero: "held (ts ! i) = 0 \<and> track_reserve (ts ! i) = 0" using c by (cases "ts ! i") simp_all
  have upd: "scope_inv s' p (ts[i := t'])"
    if "s_freed s' = 0" "held t' = 0" "track_reserve t' = 0" "closing_ok s' t'" "owner_ok p 0 (closers t') s'" for t'
  proof -
    note up = sum_of_update [OF i, where p = t']
    have "sum_of track_reserve (ts[i := t']) < 2 ^ 61" using up [of track_reserve] r zero that(3) by linarith
    moreover have "sum_of held (ts[i := t']) = 0" "sum_of closers (ts[i := t']) = closers t'"
      using up [of held] up [of closers] zero that(2) oc c by simp_all
    moreover have "list_all (closing_ok s') (ts[i := t'])"
      using oc c that(4) by (intro closers_alone [OF i]) simp_all
    ultimately show ?thesis using that by (simp add: scope_inv_def)
  qed
  show ?thesis
  proof (cases "ts ! i")
    case Waking
    with cl obtain v where v: "s_waker s = Some v" and nw: "\<not> woken s" by auto
    with t f Waking have "q = tcode k (Woke v)" "s' = s\<lparr>s_waker := None\<rparr>"
      by (auto simp: wake_waker_def s_access_def)
    with oc nw f show ?thesis by (intro exI [of _ "Woke v"] conjI upd) (auto simp: waiting_def)
  next
    case (Woke v)
    with t cl have "q = tcode k Closing" "s' = s\<lparr>s_log := s_log s @ [Woken v]\<rparr>" by (auto simp: s_emit_def)
    with oc f cl Woke show ?thesis by (intro exI [of _ Closing] conjI upd) (auto simp: waiting_def wakes_def)
  next
    case Closing
    with t f oc have "q = Ret ()" "s' = s\<lparr>count := 2\<rparr>"
      by (auto simp: close_scope_def s_compare_exchange_def s_access_def)
    with oc f cl Closing show ?thesis by (intro exI [of _ "Tracks [] 0"] conjI upd) (auto simp: waiting_def)
  qed (use c in simp)
qed

lemma track_step_ok:
  assumes inv: "scope_inv s p ts" and i: "i < length ts" and t: "tstep (tcode k (ts ! i)) s q s'"
  shows "\<exists>t'. q = tcode k t' \<and> scope_inv s' p (ts[i := t'])"
proof (cases "ts ! i")
  case (Tracks xs g)
  with t obtain h where g: "g = Suc h" by (cases g) auto
  show ?thesis
  proof (cases xs)
    case Nil
    with track_drop_ok [OF inv i, of xs h k xs] t Tracks g show ?thesis by simp
  next
    case (Cons x ys)
    note ti = Tracks [unfolded g Cons]
    from t ti show ?thesis
      using track_drop_ok [OF inv i ti, of k ys q s'] track_clone_ok [OF inv i ti, of k q s'] track_read_ok [OF inv i ti, of k q s']
      by (cases x) simp_all
  qed
qed (use track_close_ok [OF inv i _ t] in simp_all)

subsection \<open>Every interleaving\<close>

lemma scope_reach:
  assumes "reach (s, ocode k n w p # map (tcode k) ts) d" and "scope_inv s p ts"
  shows "\<exists>p' ts'. snd d = ocode k n w p' # map (tcode k) ts' \<and> scope_inv (fst d) p' ts'"
  using assms(1)
proof (induction rule: reach.induct)
  case start
  with assms(2) show ?case by auto
next
  case (step d e)
  then obtain p' ts' where d: "snd d = ocode k n w p' # map (tcode k) ts'" and inv: "scope_inv (fst d) p' ts'" by blast
  from step(2) show ?case
  proof cases
    case (thread i ps s q s')
    show ?thesis
    proof (cases i)
      case 0
      with thread d inv owner_step_ok [of s p' ts' k n w q s'] show ?thesis by fastforce
    next
      case (Suc j)
      with thread d have "j < length ts'" "tstep (tcode k (ts' ! j)) s q s'" by simp_all
      with track_step_ok [of s p' ts' j k q s'] thread inv obtain t' where
        "q = tcode k t'" "scope_inv s' p' (ts'[j := t'])" by auto
      with thread d Suc show ?thesis by (intro exI [of _ p'] exI [of _ "ts'[j := t']"]) (simp add: map_update)
    qed
  qed
qed

definition acts :: "('s, 'r) prog \<Rightarrow> bool" where
  "acts p = (\<exists>u k. p = Act u k)"

lemma acts_facts:
  assumes "acts p"
  shows "\<not> panicked p" "p \<noteq> Ret r" "thread_step p b s \<noteq> None"
  using assms by (auto simp: acts_def)

lemma acts_Act [simp]: "acts (Act u k)"
  by (auto simp: acts_def)

lemma tracker_acts: "acts (tracker k xs (Suc h))"
proof (cases xs)
  case (Cons x ys)
  then show ?thesis
    by (cases x) (simp_all add: track_drop_code [unfolded One_nat_def] track_clone_code track_read_code)
qed (simp add: track_drop_code [unfolded One_nat_def])

lemma resume_acts: "acts (owner_loop k n w (Suc m) False 0)"
  using resume_forms [of k n w m] by (auto simp: acts_def)

lemma tcode_forms:
  "\<not> panicked (tcode k t :: ('t, 'w, unit) sprog)" "(tcode k t :: ('t, 'w, unit) sprog) = Ret () \<longleftrightarrow> held t = 0 \<and> closers t = 0"
proof -
  have "\<not> panicked (tcode k t :: ('t, 'w, unit) sprog) \<and> ((tcode k t :: ('t, 'w, unit) sprog) = Ret () \<longleftrightarrow> held t = 0 \<and> closers t = 0)"
  proof (cases t)
    case (Tracks xs h)
    then show ?thesis by (cases h) (simp_all add: acts_facts [OF tracker_acts])
  qed (simp_all add: wake_waker_def close_scope_def s_emit_def s_access_def s_compare_exchange_def)
  then show "\<not> panicked (tcode k t :: ('t, 'w, unit) sprog)" "(tcode k t :: ('t, 'w, unit) sprog) = Ret () \<longleftrightarrow> held t = 0 \<and> closers t = 0" by simp_all
qed

lemmas ocode_defs = enter_code first_code store_waker_def s_emit_def s_access_def give_up_def s_fetch_sub_def
  clear_waker_def take_back_def s_swap_def parked_def s_wake_by_ref_def

lemma leave_forms: "\<not> panicked (leave k)" "leave k = Ret () \<longleftrightarrow> k = ByScope"
  by (cases k; simp add: s_access_def)+

definition has_left :: "lend_kind \<Rightarrow> 'w oplace \<Rightarrow> bool" where
  "has_left k p = (p = Left \<or> p = Leaving \<and> k = ByScope)"

lemma ocode_forms: "\<not> panicked (ocode k n w p :: ('t, 'w, unit) sprog)" "(ocode k n w p :: ('t, 'w, unit) sprog) = Ret () \<longleftrightarrow> has_left k p"
proof -
  have "\<not> panicked (ocode k n w p :: ('t, 'w, unit) sprog) \<and> ((ocode k n w p :: ('t, 'w, unit) sprog) = Ret () \<longleftrightarrow> has_left k p)"
  proof (cases p)
    case (Resume m)
    then show ?thesis by (cases m) (simp_all add: resume_0 has_left_def acts_facts [OF resume_acts])
  qed (simp_all add: ocode_defs leave_forms has_left_def)
  then show "\<not> panicked (ocode k n w p :: ('t, 'w, unit) sprog)" "(ocode k n w p :: ('t, 'w, unit) sprog) = Ret () \<longleftrightarrow> has_left k p" by simp_all
qed

text \<open>
  The threads at the start: the owner that waits, and borrows of which each thread holds some.  A
  value pinned for a scope and a lent value (\<open>shared_inner_new\<close>) start alike.
\<close>

definition pinned :: "'t \<Rightarrow> (track_op list \<times> nat) list \<Rightarrow> ('t, 'w) shared_inner" where
  "pinned v cs = (pin_shared_new v)\<lparr>count := 3 + of_nat (2 * sum_list (map snd cs))\<rparr>"

definition lend_threads :: "lend_kind \<Rightarrow> nat \<Rightarrow> 'w \<Rightarrow> (track_op list \<times> nat) list \<Rightarrow> ('t, 'w, unit) sprog list" where
  "lend_threads k n w cs = owner_waits k n w # map (\<lambda>(xs, h). tracker k xs h) cs"

definition lend_safe :: "(('t, 'w) shared_inner, unit) config \<Rightarrow> bool" where
  "lend_safe d =
     (list_all (\<lambda>p. \<not> panicked p) (snd d) \<and>
      (hd (snd d) = Ret () \<longrightarrow> list_all (\<lambda>p. p = Ret ()) (snd d)) \<and>
      (list_all (\<lambda>p. p = Ret ()) (tl (snd d)) \<longrightarrow>
         hd (snd d) = Ret () \<or> hd (snd d) = Hang \<or> thread_step (hd (snd d)) False (fst d) \<noteq> None))"

lemma pinned_inv:
  assumes "sum_list (map (\<lambda>(xs, h). h + length xs) cs) < 2 ^ 61"
  shows "scope_inv (pinned v cs :: ('t, 'w) shared_inner) Enter (map (\<lambda>(xs, h). Tracks xs h) cs)"
proof -
  let ?ts = "map (\<lambda>(xs, h). Tracks xs h) cs"
  have m: "sum_of held ?ts = sum_list (map snd cs)" "sum_of closers ?ts = 0"
    "sum_of track_reserve ?ts = sum_list (map (\<lambda>(xs, h). h + length xs) cs)"
    by (induction cs) auto
  note c = no_closers [OF m(2)]
  have "sum_list (map snd cs) \<le> sum_list (map (\<lambda>(xs, h). h + length xs) cs)"
    by (rule sum_list_mono) auto
  with assms have "sum_list (map snd cs) < 2 ^ 61" by linarith
  then have "unat (of_nat (3 + 2 * sum_list (map snd cs)) :: usize) = 3 + 2 * sum_list (map snd cs)"
    unfolding unat_of_nat by simp
  then have "unat (3 + of_nat (2 * sum_list (map snd cs)) :: usize) = 3 + 2 * sum_list (map snd cs)" by simp
  then have "unat (count (pinned v cs :: ('t, 'w) shared_inner)) = 3 + 2 * sum_list (map snd cs)"
    "s_freed (pinned v cs :: ('t, 'w) shared_inner) = 0" "\<not> woken (pinned v cs :: ('t, 'w) shared_inner)"
    by (simp_all add: pinned_def pin_shared_new_def shared_inner_new_def)
  with assms c show ?thesis unfolding scope_inv_def m owner_ok.simps calm_def by simp
qed

lemma owner_can_go_on:
  assumes "owner_ok p 0 0 s" and "\<not> has_left k p"
  shows "ocode k n w p = Hang \<or> thread_step (ocode k n w p) False s \<noteq> None"
proof (cases p)
  case (Resume m)
  then show ?thesis by (cases m) (simp_all only: ocode.simps resume_0 acts_facts [OF resume_acts] simp_thms)
next
  case (Parked m)
  with assms(1) show ?thesis by (simp add: parked_def waiting_def)
next
  case Leaving
  with assms(2) show ?thesis by (cases k) (simp_all add: s_access_def has_left_def)
qed (use assms(2) in \<open>simp_all add: ocode_defs has_left_def\<close>)

lemma lend_sound:
  fixes v :: 't and w :: 'w
  assumes "sum_list (map (\<lambda>(xs, h). h + length xs) cs) < 2 ^ 61"
    and "reach (pinned v cs, lend_threads k n w cs) d"
  shows "lend_safe d"
proof -
  let ?ts = "map (\<lambda>(xs, h). Tracks xs h) cs"
  have "(lend_threads k n w cs :: ('t, 'w, unit) sprog list) = ocode k n w Enter # map (tcode k) ?ts"
    by (auto simp: lend_threads_def)
  with assms(2) have "reach (pinned v cs, ocode k n w Enter # map (tcode k) ?ts) d" by simp
  from scope_reach [OF this pinned_inv [OF assms(1)]] obtain p ts where
    d: "snd d = ocode k n w p # map (tcode k) ts" and inv: "scope_inv (fst d) p ts" by blast
  have fin: "list_all (\<lambda>p. p = Ret ()) (map (tcode k) ts) \<longleftrightarrow> sum_of held ts = 0 \<and> sum_of closers ts = 0"
    by (auto simp: list_all_iff tcode_forms sum_list_eq_0_iff)
  have "has_left k p \<Longrightarrow> sum_of held ts = 0 \<and> sum_of closers ts = 0"
    using inv by (auto simp: scope_inv_def has_left_def)
  moreover have "ocode k n w p = Hang \<or> thread_step (ocode k n w p) False (fst d) \<noteq> None"
    if "sum_of held ts = 0 \<and> sum_of closers ts = 0" "\<not> has_left k p"
    using inv that by (intro owner_can_go_on) (simp_all add: scope_inv_def)
  ultimately show ?thesis
    unfolding lend_safe_def d list.sel using fin
    by (auto simp: ocode_forms tcode_forms list_all_iff)
qed





end
