(* ===== verification/PoolOwner.thy ===== *)
theory PoolOwner
  imports ThreadPool
begin

text \<open>
  The threads of a pool and its owner (\<open>suspend-exec/src/threadpool.rs\<close>).  The pool's state is the
  value of a \<open>Lender\<close>; every worker thread has a borrow of it from before it is started until
  its function returns, and the owner, in \<open>drain\<close> or in its drop, waits for the borrows to end.
  Here the borrows are counted; the counter itself is modelled in \<open>SharedLender\<close>.
\<close>

subsection \<open>The system\<close>

text \<open>
  A thread that is started in a section of \<open>maybe_spawn\<close> or \<open>new\<close> is counted in the state of the
  pool at once, and gets its borrow afterwards, from the thread that starts it: \<open>spawning\<close>
  lists such pairs of a starting thread, a worker or the owner (\<open>None\<close>), and a new worker.
\<close>

datatype owner_phase = Owned | Collecting | Collected

record 'k pool_sys =
  pool :: "'k pool"
  borrows :: nat
  spawning :: "(nat option \<times> nat) list"
  gone :: "nat list"
  owner :: owner_phase

definition sys_start :: "pool_config \<Rightarrow> 'k pool_sys" where
  "sys_start c = \<lparr>pool = pool_start c, borrows = 0,
     spawning = map (\<lambda>i. (None, i)) [0..<length (workers (pool_start c :: 'k pool))], gone = [], owner = Owned\<rparr>"

text \<open>The workers that a step has started are those behind the old ones.\<close>

definition sys_update :: "nat option \<Rightarrow> 'k pool \<Rightarrow> 'k pool_sys \<Rightarrow> 'k pool_sys" where
  "sys_update i p x = x\<lparr>pool := p,
     spawning := spawning x @ map (\<lambda>j. (i, j)) [length (workers (pool x))..<length (workers p)]\<rparr>"

text \<open>
  A worker that has to start another one does so before anything else.  The owner stands for
  all threads that have a reference to the pool: they may give tasks at the same time, and the
  pool is drained or dropped, by value, when none of them is in a call.
\<close>

definition busy :: "nat option \<Rightarrow> 'k pool_sys \<Rightarrow> bool" where
  "busy i x = (i \<in> fst ` set (spawning x))"

definition running :: "nat \<Rightarrow> 'k pool_sys \<Rightarrow> bool" where
  "running i x = (i < length (workers (pool x)) \<and> i \<notin> snd ` set (spawning x) \<and> i \<notin> set (gone x) \<and>
     \<not> busy (Some i) x)"

text \<open>One section of the worker \<open>i\<close>.\<close>

inductive worker_step :: "pool_config \<Rightarrow> nat \<Rightarrow> 'k pool \<Rightarrow> 'k pool \<Rightarrow> bool" for c i where
  begins: "workers x ! i = Starting \<Longrightarrow> worker_step c i x (after_section i (worker_loop c (pstate x)) x)"
| returns: "workers x ! i = Running k \<Longrightarrow>
    worker_step c i x (after_section i (worker_returns c p (pstate x)) (x\<lparr>finished := finished x @ [k]\<rparr>))"
| wakes: "workers x ! i = Waiting \<Longrightarrow> worker_step c i x (after_section i (worker_wakes c t (pstate x)) x)"

inductive sys_step :: "pool_config \<Rightarrow> 'k pool_sys \<Rightarrow> 'k pool_sys \<Rightarrow> bool" for c where
  run_task: "owner x = Owned \<Longrightarrow>
    sys_step c x (sys_update None (submit c k (pool x)) x)"
| spawn: "(o', i) \<in> set (spawning x) \<Longrightarrow>
    sys_step c x (x\<lparr>spawning := remove1 (o', i) (spawning x), borrows := borrows x + 1\<rparr>)"
| worker: "running i x \<Longrightarrow> worker_step c i (pool x) p \<Longrightarrow> sys_step c x (sys_update (Some i) p x)"
| leave: "running i x \<Longrightarrow> workers (pool x) ! i = Exited e \<Longrightarrow>
    sys_step c x (x\<lparr>gone := i # gone x, borrows := borrows x - 1\<rparr>)"
| drain: "owner x = Owned \<Longrightarrow> \<not> busy None x \<Longrightarrow>
    sys_step c x (x\<lparr>pool := (pool x)\<lparr>pstate := start_drain sh (pstate (pool x))\<rparr>, owner := Collecting\<rparr>)"
| collected: "owner x = Collecting \<Longrightarrow> borrows x = 0 \<Longrightarrow> sys_step c x (x\<lparr>owner := Collected\<rparr>)"

inductive sys_reach :: "pool_config \<Rightarrow> 'k pool_sys \<Rightarrow> bool" for c where
  start: "sys_reach c (sys_start c)"
| step: "sys_reach c x \<Longrightarrow> sys_step c x y \<Longrightarrow> sys_reach c y"

subsection \<open>Its steps are steps of the pool\<close>

lemma after_section_threads: "\<exists>b. length (workers (after_section i r x)) = length (workers x) + of_bool b"
proof (cases r)
  case None
  then show ?thesis by (intro exI [of _ False]) (simp add: after_section_def)
next
  case (Some a)
  then show ?thesis
    by (cases a) (auto simp: after_section_def started_def intro: exI [of _ False] exI [of _ True])
qed

lemma submit_threads: "length (workers x) \<le> length (workers (submit c k x))"
  by (simp add: submit_def split: prod.splits)

lemma submit_workers: "take (length (workers x)) (workers (submit c k x)) = workers x"
  by (simp add: submit_def split: prod.splits)

lemma worker_step_pool: "worker_step c i x y \<Longrightarrow> i < length (workers x) \<Longrightarrow> pool_step c x y"
  by (induction rule: worker_step.induct) (auto intro: pool_step.intros)

lemma after_section_other:
  "j \<noteq> i \<Longrightarrow> j < length (workers x) \<Longrightarrow> workers (after_section i r x) ! j = workers x ! j"
  by (auto simp: after_section_def nth_append split: option.splits prod.splits)

lemma worker_step_other:
  "worker_step c i x y \<Longrightarrow> j \<noteq> i \<Longrightarrow> j < length (workers x) \<Longrightarrow> workers y ! j = workers x ! j"
  by (induction rule: worker_step.induct) (simp_all add: after_section_other)

lemma worker_step_threads:
  "worker_step c i x y \<Longrightarrow> length (workers x) \<le> length (workers y)"
proof (induction rule: worker_step.induct)
  case (begins x)
  then show ?case using after_section_threads [of i "worker_loop c (pstate x)" x] by auto
next
  case (returns x k p)
  then show ?case
    using after_section_threads [of i "worker_returns c p (pstate x)" "x\<lparr>finished := finished x @ [k]\<rparr>"] by auto
next
  case (wakes x t)
  then show ?case using after_section_threads [of i "worker_wakes c t (pstate x)" x] by auto
qed

lemma worker_step_phase: "worker_step c i x y \<Longrightarrow> phase (pstate y) = phase (pstate x)"
proof (induction rule: worker_step.induct)
  case (begins x)
  then show ?case by (auto simp: after_section_def dest: worker_loop_phase split: option.splits)
next
  case (returns x k p)
  then show ?case
    by (auto simp: after_section_def worker_returns_def worker_exit_def Let_def dest: worker_loop_phase
        split: option.splits if_splits)
next
  case (wakes x t)
  then show ?case
    by (auto simp: after_section_def worker_wakes_def worker_exit_def dest: worker_loop_phase
        split: option.splits if_splits)
qed

text \<open>A worker that steps was alive, and one that has left its loop takes no step.\<close>

lemma worker_step_not_exited: "worker_step c i x y \<Longrightarrow> workers x ! i \<noteq> Exited e"
  by (induction rule: worker_step.induct) simp_all

text \<open>A section that starts a thread ends in the run of a task.\<close>

lemma worker_loop_spawns: "worker_loop c s = Some (s', w, True) \<Longrightarrow> \<exists>k. w = Running k"
  by (auto simp: worker_loop_def split: if_splits list.splits option.splits prod.splits)

lemma section_spawns:
  assumes "worker_step c i x y" and "i < length (workers x)" and "length (workers x) < length (workers y)"
  shows "workers y ! i \<noteq> Exited e"
proof -
  have sec: "workers (after_section i r z) ! i \<noteq> Exited e"
    if "length (workers z) < length (workers (after_section i r z))" and "i < length (workers z)"
      and "\<And>s' w. r = Some (s', w, True) \<Longrightarrow> \<exists>k. w = Running k" for r and z :: "'a pool"
  proof (cases r)
    case (Some a)
    then obtain s' w b where a: "r = Some (s', w, b)" by (cases a) simp
    with that(1) have b by (cases b) (simp_all add: after_section_def started_def)
    with a that(3) [of s' w] that(2) show ?thesis by (auto simp: after_section_def nth_append)
  qed (use that in \<open>simp add: after_section_def\<close>)
  from assms(1) show ?thesis
  proof cases
    case begins
    show ?thesis unfolding begins(1) by (rule sec) (use begins assms(2,3) worker_loop_spawns in auto)
  next
    case (returns k p)
    have "\<exists>k. w = Running k" if "worker_returns c p (pstate x) = Some (s', w, True)" for s' w
      using that worker_loop_spawns by (auto simp: worker_returns_def Let_def split: if_splits)
    then show ?thesis unfolding returns(1) by (intro sec) (use returns assms(2,3) in auto)
  next
    case (wakes t)
    have "\<exists>k. w = Running k" if "worker_wakes c t (pstate x) = Some (s', w, True)" for s' w
      using that worker_loop_spawns by (auto simp: worker_wakes_def split: if_splits)
    then show ?thesis unfolding wakes(1) by (intro sec) (use wakes assms(2,3) in auto)
  qed
qed

subsection \<open>Every borrow is accounted for\<close>

definition children :: "'k pool_sys \<Rightarrow> nat set" where
  "children x = snd ` set (spawning x)"

definition left_loop :: "nat \<Rightarrow> 'k pool_sys \<Rightarrow> bool" where
  "left_loop i x = (\<exists>e. workers (pool x) ! i = Exited e)"

definition sys_inv :: "pool_config \<Rightarrow> 'k pool_sys \<Rightarrow> bool" where
  "sys_inv c x =
     (let n = length (workers (pool x)) in
      pool_reach c (pool x) \<and>
      (owner x = Owned \<longrightarrow> phase (pstate (pool x)) = Active) \<and> (owner x \<noteq> Owned \<longrightarrow> \<not> busy None x) \<and>
      distinct (map snd (spawning x)) \<and> distinct (gone x) \<and>
      children x \<subseteq> {..<n} \<and> set (gone x) \<subseteq> {..<n} - children x \<and>
      borrows x + length (spawning x) + length (gone x) = n \<and>
      (\<forall>i \<in> set (gone x). left_loop i x) \<and>
      (\<forall>i. busy (Some i) x \<longrightarrow> i < n \<and> i \<notin> children x \<and> i \<notin> set (gone x) \<and> \<not> left_loop i x))"

lemma sys_inv_start: "sys_inv c (sys_start c)"
  by (auto simp: sys_inv_def sys_start_def Let_def busy_def children_def pool_start_active comp_def
      intro: pool_reach.start)

lemma sys_inv_spawn:
  assumes "sys_inv c x" and "(o', i) \<in> set (spawning x)"
  shows "sys_inv c (x\<lparr>spawning := remove1 (o', i) (spawning x), borrows := borrows x + 1\<rparr>)"
proof -
  let ?y = "x\<lparr>spawning := remove1 (o', i) (spawning x), borrows := borrows x + 1\<rparr>"
  have d: "distinct (spawning x)" using assms(1) by (simp add: sys_inv_def Let_def distinct_map)
  have sub: "set (spawning ?y) \<subseteq> set (spawning x)" by (simp add: set_remove1_subset)
  then have ch: "children ?y \<subseteq> children x" and b: "\<And>o'. busy o' ?y \<Longrightarrow> busy o' x"
    by (auto simp: children_def busy_def)
  have l: "length (spawning ?y) + 1 = length (spawning x)"
    using assms(2) by (simp add: length_remove1) (metis Suc_pred length_pos_if_in_set)
  have dm: "distinct (map snd (spawning ?y))"
    using assms(1) d sub by (auto simp: sys_inv_def Let_def distinct_map inj_on_def)
  have lo: "left_loop j ?y = left_loop j x" for j by (simp add: left_loop_def)
  from assms(1) have inv: "pool_reach c (pool x)" "owner x = Owned \<longrightarrow> phase (pstate (pool x)) = Active"
    "owner x \<noteq> Owned \<longrightarrow> \<not> busy None x" "distinct (gone x)" "children x \<subseteq> {..<length (workers (pool x))}"
    "set (gone x) \<subseteq> {..<length (workers (pool x))} - children x"
    "borrows x + length (spawning x) + length (gone x) = length (workers (pool x))"
    "\<forall>i \<in> set (gone x). left_loop i x"
    "\<And>i. busy (Some i) x \<Longrightarrow> i < length (workers (pool x)) \<and> i \<notin> children x \<and> i \<notin> set (gone x) \<and> \<not> left_loop i x"
    by (simp_all add: sys_inv_def Let_def)
  show ?thesis unfolding sys_inv_def Let_def
  proof (intro conjI allI impI)
    show "borrows ?y + length (spawning ?y) + length (gone ?y) = length (workers (pool ?y))"
      using inv(7) l by simp
    show "\<not> busy None ?y" if "owner ?y \<noteq> Owned" using that inv(3) b by auto
    show "children ?y \<subseteq> {..<length (workers (pool ?y))}" using inv(5) ch by auto
    show "set (gone ?y) \<subseteq> {..<length (workers (pool ?y))} - children ?y" using inv(6) ch by auto
    show "\<forall>i \<in> set (gone ?y). left_loop i ?y" using inv(8) by (simp add: left_loop_def)
    fix j assume "busy (Some j) ?y"
    with inv(9) [OF b] ch show "j < length (workers (pool ?y))" "j \<notin> children ?y" "j \<notin> set (gone ?y)"
      "\<not> left_loop j ?y" by (auto simp: left_loop_def)
  qed (use inv dm in simp_all)
qed

text \<open>A step of the pool by the thread \<open>i\<close>, which is not one that has ended.\<close>

lemma sys_inv_update:
  assumes "sys_inv c x" and r: "pool_reach c p"
    and l: "length (workers (pool x)) \<le> length (workers p)"
    and ow: "owner x = Owned \<longrightarrow> phase (pstate p) = Active"
    and ot: "\<And>j. j < length (workers (pool x)) \<Longrightarrow> Some j \<noteq> i \<Longrightarrow> workers p ! j = workers (pool x) ! j"
    and i: "i = None \<and> owner x = Owned \<or> (\<exists>k. i = Some k \<and> running k x \<and>
      (length (workers (pool x)) < length (workers p) \<longrightarrow> (\<forall>e. workers p ! k \<noteq> Exited e)))"
  shows "sys_inv c (sys_update i p x)"
proof -
  let ?y = "sys_update i p x" and ?n = "length (workers (pool x))" and ?m = "length (workers p)"
  have ch: "children ?y = children x \<union> {?n..<?m}"
    by (simp add: sys_update_def children_def image_Un image_image)
  have b: "busy j ?y = (busy j x \<or> j = i \<and> ?n < ?m)" for j
    by (auto simp: sys_update_def busy_def image_Un image_image)
  from assms(1) have inv: "owner x \<noteq> Owned \<longrightarrow> \<not> busy None x" "distinct (map snd (spawning x))" "distinct (gone x)"
    "children x \<subseteq> {..<?n}" "set (gone x) \<subseteq> {..<?n} - children x"
    "borrows x + length (spawning x) + length (gone x) = ?n" "\<forall>i \<in> set (gone x). left_loop i x"
    "\<And>i. busy (Some i) x \<Longrightarrow> i < ?n \<and> i \<notin> children x \<and> i \<notin> set (gone x) \<and> \<not> left_loop i x"
    by (simp_all add: sys_inv_def Let_def)
  have lo: "left_loop j ?y = left_loop j x" if "j < ?n" "Some j \<noteq> i" for j
    using ot [OF that] by (simp add: left_loop_def sys_update_def)
  have g: "Some j \<noteq> i" if "j \<in> set (gone x)" for j using i that by (auto simp: running_def)
  have i': "i = Some k \<Longrightarrow> running k x \<and> (?n < ?m \<longrightarrow> \<not> left_loop k ?y)" for k
    using i by (auto simp: left_loop_def sys_update_def)
  show ?thesis unfolding sys_inv_def Let_def
  proof (intro conjI allI impI)
    show "\<not> busy None ?y" if "owner ?y \<noteq> Owned" using that i inv(1) by (auto simp: b) (simp_all add: sys_update_def)
    show "distinct (map snd (spawning ?y))"
      using inv(2,4) by (auto simp: sys_update_def children_def comp_def)
    show "children ?y \<subseteq> {..<length (workers (pool ?y))}"
      using inv(4) l unfolding ch by (auto simp: sys_update_def)
    show "set (gone ?y) \<subseteq> {..<length (workers (pool ?y))} - children ?y"
      using inv(5) l unfolding ch by (auto simp: sys_update_def)
    show "borrows ?y + length (spawning ?y) + length (gone ?y) = length (workers (pool ?y))"
      using inv(6) l by (simp add: sys_update_def)
    show "\<forall>j \<in> set (gone ?y). left_loop j ?y"
    proof
      fix j assume "j \<in> set (gone ?y)"
      then have j: "j \<in> set (gone x)" by (simp add: sys_update_def)
      with inv(5) have "j < ?n" by auto
      with lo [OF this g [OF j]] inv(7) j show "left_loop j ?y" by simp
    qed
    fix j assume bj: "busy (Some j) ?y"
    have "j < ?n \<and> j \<notin> children x \<and> j \<notin> set (gone x) \<and> \<not> left_loop j ?y"
    proof (cases "Some j = i")
      case True
      with i' [of j] have "running j x" by simp
      with bj True i' [of j] show ?thesis by (auto simp: b running_def children_def)
    next
      case False
      with bj have "busy (Some j) x" by (simp add: b)
      with inv(8) [OF this] lo [OF _ False] show ?thesis by simp
    qed
    then show "j < length (workers (pool ?y))" "j \<notin> children ?y" "j \<notin> set (gone ?y)" "\<not> left_loop j ?y"
      using l by (auto simp: ch) (simp_all add: sys_update_def)
  qed (use r ow inv in \<open>simp_all add: sys_update_def\<close>)
qed

lemma sys_step_inv: "sys_step c x y \<Longrightarrow> sys_inv c x \<Longrightarrow> sys_inv c y"
proof (induction rule: sys_step.induct)
  case (run_task x k)
  then have a: "pool_reach c (pool x)" "phase (pstate (pool x)) = Active" by (auto simp: sys_inv_def Let_def)
  then have "phase (pstate (submit c k (pool x))) = Active"
    by (auto simp: submit_def run_boxed_def maybe_spawn_def split: prod.splits)
  then show ?case
  proof (intro sys_inv_update run_task.prems)
    show "pool_reach c (submit c k (pool x))" using a by (blast intro: pool_reach.step pool_step.submit)
    show "workers (submit c k (pool x)) ! j = workers (pool x) ! j" if "j < length (workers (pool x))" for j
      using that submit_workers [of "pool x" c k] by (metis nth_take)
  qed (use run_task(1) submit_threads in auto)
next
  case (spawn o' i x)
  then show ?case by (intro sys_inv_spawn)
next
  case (worker i x p)
  then have i: "i < length (workers (pool x))" and a: "pool_reach c (pool x)"
    "owner x = Owned \<longrightarrow> phase (pstate (pool x)) = Active" by (auto simp: running_def sys_inv_def Let_def)
  show ?case
  proof (rule sys_inv_update [OF worker.prems])
    show "pool_reach c p" by (rule pool_reach.step [OF a(1) worker_step_pool [OF worker(2) i]])
    show "owner x = Owned \<longrightarrow> phase (pstate p) = Active" using a(2) worker_step_phase [OF worker(2)] by simp
    show "workers p ! j = workers (pool x) ! j" if "j < length (workers (pool x))" "Some j \<noteq> Some i" for j
      using worker_step_other [OF worker(2)] that by simp
  qed (use worker section_spawns [OF worker(2) i] worker_step_threads [OF worker(2)] in auto)
next
  case (leave i x e)
  have i: "i < length (workers (pool x))" "i \<notin> children x" "i \<notin> set (gone x)" "\<not> busy (Some i) x"
    using leave(1) by (auto simp: running_def children_def)
  have "0 < borrows x"
  proof (rule ccontr)
    assume "\<not> 0 < borrows x"
    with leave.prems have "length (map snd (spawning x) @ gone x) = length (workers (pool x))"
      "distinct (map snd (spawning x) @ gone x)" "set (map snd (spawning x) @ gone x) \<subseteq> {..<length (workers (pool x))}"
      by (auto simp: sys_inv_def Let_def children_def)
    then have "set (map snd (spawning x) @ gone x) = {..<length (workers (pool x))}"
      by (metis card_lessThan card_subset_eq distinct_card finite_lessThan)
    with i show False by (auto simp: children_def)
  qed
  with leave i show ?case
    by (auto simp: sys_inv_def Let_def busy_def children_def left_loop_def)
next
  case (drain x sh)
  then have "pool_reach c ((pool x)\<lparr>pstate := start_drain sh (pstate (pool x))\<rparr>)"
    by (auto simp: sys_inv_def Let_def intro!: pool_reach.step [OF _ pool_step.drain])
  with drain show ?case
    by (auto simp: sys_inv_def Let_def busy_def children_def left_loop_def)
next
  case (collected x)
  then show ?case by (auto simp: sys_inv_def Let_def busy_def children_def left_loop_def)
qed

lemma sys_reach_inv: "sys_reach c x \<Longrightarrow> sys_inv c x"
  by (induction rule: sys_reach.induct) (auto intro: sys_inv_start sys_step_inv)

lemma all_left:
  assumes "sys_inv c x" and "owner x \<noteq> Owned" and "borrows x = 0"
  shows "spawning x = [] \<and> set (gone x) = {..<length (workers (pool x))} \<and> over alive (workers (pool x)) = 0"
proof -
  let ?n = "length (workers (pool x))" and ?l = "map snd (spawning x) @ gone x"
  from assms have inv: "\<not> busy None x" "length ?l = ?n" "distinct ?l" "set ?l \<subseteq> {..<?n}"
    "\<And>i. busy (Some i) x \<Longrightarrow> i < ?n \<and> i \<notin> children x \<and> i \<notin> set (gone x)"
    "\<forall>i \<in> set (gone x). left_loop i x"
    by (auto simp: sys_inv_def Let_def children_def)
  then have all: "set ?l = {..<?n}" by (metis card_lessThan card_subset_eq distinct_card finite_lessThan)
  have s: "spawning x = []"
  proof (cases "spawning x")
    case (Cons p ps)
    then have "busy (fst p) x" by (simp add: busy_def)
    with inv(1) obtain i where "busy (Some i) x" by (cases "fst p") auto
    with inv(5) [of i] have "i < ?n" "i \<notin> set ?l" by (auto simp: children_def)
    with all show ?thesis by blast
  qed simp
  with all have g: "set (gone x) = {..<?n}" by simp
  have "alive w = 0" if w: "w \<in> set (workers (pool x))" for w
  proof -
    from w obtain i where "i < ?n" "workers (pool x) ! i = w" by (metis in_set_conv_nth)
    with g inv(6) obtain e where "w = Exited e" by (force simp: left_loop_def)
    then show ?thesis by simp
  qed
  then have "over alive (workers (pool x)) = 0" by simp
  with s g show ?thesis by blast
qed

text \<open>Once the borrows have been collected, no thread of the pool takes another step.\<close>

lemma collected_final:
  assumes "sys_inv c x" and "owner x \<noteq> Owned" and "borrows x = 0" and "sys_step c x y"
  shows "owner x = Collecting \<and> y = x\<lparr>owner := Collected\<rparr>"
  using assms(4)
proof cases
  case (worker i p)
  with all_left [OF assms(1-3)] show ?thesis by (auto simp: running_def)
next
  case (leave i e)
  with all_left [OF assms(1-3)] show ?thesis by (auto simp: running_def)
qed (use assms(2) all_left [OF assms(1-3)] in simp_all)

lemma collected_borrows: "sys_reach c x \<Longrightarrow> owner x = Collected \<longrightarrow> borrows x = 0"
proof (induction rule: sys_reach.induct)
  case (step x y)
  show ?case
  proof
    assume y: "owner y = Collected"
    show "borrows y = 0"
    proof (cases "owner x = Collected")
      case True
      with step collected_final [OF sys_reach_inv [OF step.hyps(1)] _ _ step.hyps(2)] show ?thesis by simp
    next
      case False
      with step.hyps(2) y show ?thesis by cases (simp_all add: sys_update_def)
    qed
  qed
qed (simp add: sys_start_def)



end
