(* ===== verification/PoolScope.thy ===== *)
theory PoolScope
  imports PoolOwner Task Scoped
begin

text \<open>
  The owner of a pool and its scopes (\<open>suspend-exec/src/threadpool.rs\<close>), as programs over the
  \<open>SharedInner\<close> that holds the pool.  A section of code under the pool's mutex is one access.
  A task is named by \<open>k\<close>; what it does is the function in its allocation.
\<close>

subsection \<open>ThreadPool\<close>

type_synonym ('k, 'w, 'r) oprog = "(('k pool, 'w) shared_inner, 'r) prog"

text \<open>A section: \<open>k\<close> is given the pool as it was before.\<close>

definition pool_section :: "('k pool \<Rightarrow> 'k pool) \<Rightarrow> ('k pool \<Rightarrow> ('k, 'w, 'r) oprog) \<Rightarrow> ('k, 'w, 'r) oprog" where
  "pool_section f k = s_access (\<lambda>s. s\<lparr>s_value := f (s_value s)\<rparr>) (\<lambda>s. k (s_value s))"

definition pool_empty :: "'k pool" where
  "pool_empty = \<lparr>pstate = pool_state_new, workers = [], submitted = [], finished = [], overflowed = False\<rparr>"

primrec borrow_all :: "nat \<Rightarrow> lender \<Rightarrow> ('k, 'w, unit) oprog" where
  "borrow_all 0 l = Ret ()"
| "borrow_all (Suc n) l = bind (lender_borrow l) (\<lambda>_. borrow_all n l)"

text \<open>
  The lender, its memory, and the start of the first threads, each with a borrow; the mutex is
  held until all are there.
\<close>

definition thread_pool_new ::
  "pool_config \<Rightarrow> (lender \<times> ('k pool, 'w) shared_inner) \<times> ('k, 'w, unit) oprog" where
  "thread_pool_new c =
     (let (l, s) = lender_new pool_empty in
      ((l, s), if min_count c > 0
               then bind (borrow_all (min_count c) l) (\<lambda>_. pool_section (\<lambda>_. pool_start c) (\<lambda>_. Ret ()))
               else Ret ()))"

definition config_build ::
  "pool_config \<Rightarrow> (lender \<times> ('k pool, 'w) shared_inner) \<times> ('k, 'w, unit) oprog" where
  "config_build c = thread_pool_new c"

definition pool_default ::
  "nat \<Rightarrow> (lender \<times> ('k pool, 'w) shared_inner) \<times> ('k, 'w, unit) oprog" where
  "pool_default num_cpus = thread_pool_new (config_default num_cpus)"

text \<open>\<open>run_boxed\<close> with the borrow of the thread that it starts, if it does.\<close>

definition pool_run_boxed :: "pool_config \<Rightarrow> 'k \<Rightarrow> shared_ref \<Rightarrow> ('k, 'w, unit) oprog" where
  "pool_run_boxed c k r =
     pool_section (submit c k) (\<lambda>x.
       if snd (run_boxed c k (pstate x)) then bind (shared_ref_into_shared r) (\<lambda>_. Ret ()) else Ret ())"

text \<open>The memory of the new task is returned with the handle.\<close>

definition pool_run ::
  "pool_config \<Rightarrow> 'k \<Rightarrow> 'v option \<Rightarrow> lender \<Rightarrow> ('k, 'w, ('v, 'w) task_inner \<times> join_task) oprog" where
  "pool_run c k f l =
     (case task_fn f of (mem, task, join) \<Rightarrow>
        bind (pool_run_boxed c k (lender_borrow_ref l)) (\<lambda>_. Ret (mem, join)))"

definition begin_drain :: "bool \<Rightarrow> 'k pool \<Rightarrow> 'k pool" where
  "begin_drain sh x = x\<lparr>pstate := start_drain sh (pstate x)\<rparr>"

text \<open>\<open>start_drain(sh)\<close>, then \<open>collect().wait(None).unwrap()\<close>.\<close>

definition drain_and_wait ::
  "nat \<Rightarrow> 'w \<Rightarrow> ('k, 'w, lock_error + park_result) oprog \<Rightarrow> bool \<Rightarrow> lender \<Rightarrow> ('k, 'w, lender) oprog" where
  "drain_and_wait n w park sh l =
     pool_section (begin_drain sh) (\<lambda>_.
       bind (collect_wait n w park (lender_collect l)) (\<lambda>r. case r of
           Inl l \<Rightarrow> Panic ''unwrap on Err''
         | Inr (l, _) \<Rightarrow> Ret l))"

definition pool_drain ::
  "nat \<Rightarrow> 'w \<Rightarrow> ('k, 'w, lock_error + park_result) oprog \<Rightarrow> lender \<Rightarrow> ('k, 'w, unit) oprog" where
  "pool_drain n w park l = bind (drain_and_wait n w park False l) (\<lambda>l. lender_drop n l)"

text \<open>The drop of the pool, then of its field; \<open>p\<close> is \<open>thread::panicking()\<close>.\<close>

definition pool_drop ::
  "nat \<Rightarrow> 'w \<Rightarrow> ('k, 'w, lock_error + park_result) oprog \<Rightarrow> bool \<Rightarrow> lender \<Rightarrow> ('k, 'w, unit) oprog" where
  "pool_drop n w park p l =
     (if p then lender_drop n l
      else bind (drain_and_wait n w park True l) (\<lambda>l. lender_drop n l))"

subsection \<open>Scope\<close>

text \<open>
  A scope works on two allocations: the \<open>PinShared\<close> on the stack of \<open>scoped\<close>, whose value is a
  borrow of the pool, and the \<open>SharedInner\<close> of the pool.
\<close>

primrec on_fst :: "('a, 'r) prog \<Rightarrow> ('a \<times> 'b, 'r) prog" where
  "on_fst (Ret r) = Ret r"
| "on_fst (Panic m) = Panic m"
| "on_fst Hang = Hang"
| "on_fst (Act u k) = Act (\<lambda>s. (u (fst s), snd s)) (\<lambda>s. on_fst (k (fst s)))"
| "on_fst (Wait g p) = Wait (\<lambda>s. g (fst s)) (on_fst p)"
| "on_fst (Pick k) = Pick (\<lambda>b. on_fst (k b))"

primrec on_snd :: "('b, 'r) prog \<Rightarrow> ('a \<times> 'b, 'r) prog" where
  "on_snd (Ret r) = Ret r"
| "on_snd (Panic m) = Panic m"
| "on_snd Hang = Hang"
| "on_snd (Act u k) = Act (\<lambda>s. (fst s, u (snd s))) (\<lambda>s. on_snd (k (snd s)))"
| "on_snd (Wait g p) = Wait (\<lambda>s. g (snd s)) (on_snd p)"
| "on_snd (Pick k) = Pick (\<lambda>b. on_snd (k b))"

lemma exec_on_fst:
  "exec (on_fst p) os s = (case exec p os (fst s) of (r, a, os') \<Rightarrow> (r, (a, snd s), os'))"
proof (induction p arbitrary: os s)
  case (Pick k)
  then show ?case by (cases os) auto
qed auto

lemma exec_on_snd:
  "exec (on_snd p) os s = (case exec p os (snd s) of (r, b, os') \<Rightarrow> (r, (fst s, b), os'))"
proof (induction p arbitrary: os s)
  case (Pick k)
  then show ?case by (cases os) auto
qed auto

lemma does_on_fst: "does p os (fst s) Q \<Longrightarrow> does (on_fst p) os s (\<lambda>r s'. Q r (fst s') \<and> snd s' = snd s)"
  by (auto simp: does_def exec_on_fst)

lemma does_on_snd: "does p os (snd s) Q \<Longrightarrow> does (on_snd p) os s (\<lambda>r s'. Q r (snd s') \<and> fst s' = fst s)"
  by (auto simp: does_def exec_on_snd)

type_synonym ('k, 'w, 'r) scprog = "((shared, 'w) shared_inner \<times> ('k pool, 'w) shared_inner, 'r) prog"

record scope =
  scope_inner :: scoped

definition scope_new :: "scoped \<Rightarrow> scope" where
  "scope_new inner = \<lparr>scope_inner = inner\<rparr>"

definition scope_pending_count :: "scope \<Rightarrow> ('k, 'w, usize) scprog" where
  "scope_pending_count sc = on_fst (scoped_borrow_count (scope_inner sc))"

text \<open>The clone of the tracker goes into the task's function, and is dropped with it.\<close>

definition scope_run ::
  "pool_config \<Rightarrow> 'k \<Rightarrow> 'v option \<Rightarrow> scope \<Rightarrow> ('k, 'w, ('v, 'w) task_inner \<times> join_task) scprog" where
  "scope_run c k f sc =
     bind (on_fst (scoped_clone (scope_inner sc))) (\<lambda>_.
       case task_fn f of (mem, runnable, join) \<Rightarrow>
         bind (on_fst (scoped_deref (scope_inner sc))) (\<lambda>sh.
         bind (on_snd (pool_run_boxed c k (shared_borrow_ref sh))) (\<lambda>_. Ret (mem, join))))"

text \<open>\<open>scoped\<close>, with \<open>PinShared::with\<close> written out because \<open>f\<close> works on both allocations.\<close>

definition pool_scoped ::
  "nat \<Rightarrow> 'w \<Rightarrow> ((shared, 'w) shared_inner, lock_error + park_result) prog \<Rightarrow> lender \<Rightarrow>
   (scope \<Rightarrow> ('k, 'w, 'r) scprog) \<Rightarrow> ('k, 'w, 'r) scprog" where
  "pool_scoped n w park l f =
     bind (on_snd (lender_borrow l)) (\<lambda>sh.
       Act (\<lambda>s. (pin_shared_new sh, snd s)) (\<lambda>_.
         bind (on_fst scoped_new) (\<lambda>s.
         bind (f (scope_new s)) (\<lambda>r.
         bind (on_fst (collect_on_drop n w park)) (\<lambda>_.
         bind (on_snd (shared_drop n sh)) (\<lambda>_. Ret r))))))"

lemmas owner_defs = pool_section_def drain_and_wait_def pool_drain_def pool_drop_def pool_run_boxed_def
  pool_run_def begin_drain_def

subsection \<open>The owner alone\<close>

lemma drain_and_wait_idle:
  assumes "count s = 3" and "s_freed s = 0"
  shows "does (drain_and_wait n w park sh \<lparr>pending = False\<rparr>) os s (\<lambda>l s'. l = \<lparr>pending = False\<rparr> \<and>
    s' = s\<lparr>s_value := begin_drain sh (s_value s)\<rparr>)"
  using assms
  by (simp add: does_def owner_defs collect_wait_def lender_collect_def lender_defs inner_try_collect_def s_access_defs)

lemma drop_lender_idle:
  assumes "count s = 3" and "s_freed s = 0"
  shows "does (lender_drop n \<lparr>pending = False\<rparr>) os s (\<lambda>_ s'. s_freed s' = 1 \<and>
    s_log s' = s_log s @ [ValueDropped (s_value s)])"
  using assms by (simp add: does_def lender_defs drop_lender_def s_access_defs)

text \<open>\<open>drain\<close> and the drop of a pool whose threads are all gone return without blocking, and release
  the pool, once, in the phase that was set: with its queue, whose tasks are so cancelled.\<close>

lemma drain_releases:
  assumes "count s = 3" and "s_freed s = 0"
  shows "does (pool_drain n w park \<lparr>pending = False\<rparr>) os s (\<lambda>_ s'. s_freed s' = 1 \<and>
       s_log s' = s_log s @ [ValueDropped (begin_drain False (s_value s))]) \<and>
    does (pool_drop n w park False \<lparr>pending = False\<rparr>) os s (\<lambda>_ s'. s_freed s' = 1 \<and>
       s_log s' = s_log s @ [ValueDropped (begin_drain True (s_value s))])"
proof -
  have "does (bind (drain_and_wait n w park sh \<lparr>pending = False\<rparr>) (\<lambda>l. lender_drop n l)) os s
      (\<lambda>_ s'. s_freed s' = 1 \<and> s_log s' = s_log s @ [ValueDropped (begin_drain sh (s_value s))])" for sh
    by (rule does_bind [OF drain_and_wait_idle [OF assms]], elim conjE, simp only:,
        rule does_weaken [OF drop_lender_idle]) (use assms in simp_all)
  then show ?thesis by (simp add: pool_drain_def pool_drop_def)
qed

subsection \<open>A scope and its task\<close>

text \<open>The thread that runs the task drops the tracker while the scope is parked.\<close>

definition tracker_goes :: "((shared, 'w) shared_inner, lock_error + park_result) prog" where
  "tracker_goes = bind (scoped_drop 1 Scoped) (\<lambda>_. Ret (Inr Unparked))"

definition run_and_forget ::
  "pool_config \<Rightarrow> 'k \<Rightarrow> 'v option \<Rightarrow> scope \<Rightarrow> ('k, 'w, ('v, 'w) task_inner \<times> join_task) scprog" where
  "run_and_forget c k f sc =
     bind (scope_run c k f sc) (\<lambda>j. bind (on_fst (scoped_drop 1 (scope_inner sc))) (\<lambda>_. Ret j))"

lemma pool_run_boxed_ok:
  assumes "s_freed s = 0" and "count s \<le> MAX_REFCOUNT"
  shows "does (pool_run_boxed c k r) os s (\<lambda>_ s'. s' = s\<lparr>s_value := submit c k (s_value s),
    count := count s + (if snd (run_boxed c k (pstate (s_value s))) then 2 else 0)\<rparr>)"
  using assms
  by (simp add: does_def owner_defs s_access_defs shared_ref_into_shared_def shared_new_def inc_count_ref_def
      linorder_not_less [symmetric])

text \<open>The pinned value, with a count of \<open>c\<close>.\<close>

definition pinned_at :: "usize \<Rightarrow> (shared, 'w) shared_inner \<Rightarrow> bool" where
  "pinned_at c s = (count s = c \<and> s_freed s = 0 \<and> s_value s = SharedPtr)"

lemma pinned_new: "pinned_at 3 (pin_shared_new SharedPtr)"
  by (simp add: pinned_at_def pin_shared_new_def shared_inner_new_def)

lemma scoped_new_at: "pinned_at 3 s \<Longrightarrow> does scoped_new os s (\<lambda>r s'. r = Scoped \<and> pinned_at 5 s')"
  by (simp add: does_def scoped_new_def inc_count_ref_def s_access_defs MAX_REFCOUNT_def pinned_at_def)

lemma scoped_clone_at: "pinned_at 5 s \<Longrightarrow> does (scoped_clone x) os s (\<lambda>r s'. pinned_at 7 s')"
  by (simp add: does_def scoped_clone_def inc_count_ref_def s_access_defs MAX_REFCOUNT_def pinned_at_def)

lemma scoped_deref_at: "pinned_at c s \<Longrightarrow> does (scoped_deref x) os s (\<lambda>r s'. r = SharedPtr \<and> pinned_at c s')"
  by (simp add: does_def scoped_deref_def s_access_defs pinned_at_def)

lemma scoped_drop_at: "pinned_at 7 s \<Longrightarrow> does (scoped_drop 1 x) os s (\<lambda>_ s'. pinned_at 5 s')"
  by (simp add: does_def scoped_drop_def dec_count_ref.simps(2) s_access_defs pinned_at_def)

lemma collect_waits:
  "pinned_at 5 s \<Longrightarrow> does (collect_on_drop (Suc (Suc n)) w tracker_goes) os s (\<lambda>_ s'. pinned_at 2 s')"
  by (simp add: does_def scoped_defs block_on_poll_def start_poll_def resume_poll_def resume_loop.simps(2)
      inner_try_collect_def tracker_goes_def dec_count_ref.simps(2) s_access_defs pinned_at_def)

lemma lender_borrow_ok:
  assumes "s_freed s = 0" and "count s \<le> MAX_REFCOUNT"
  shows "does (lender_borrow l) os s (\<lambda>r s'. r = SharedPtr \<and> s' = s\<lparr>count := count s + 2\<rparr>)"
  using assms
  by (simp add: does_def lender_borrow_def shared_new_def inc_count_ref_def s_access_defs linorder_not_less [symmetric])

lemma shared_drop_keeps:
  assumes "s_freed s = 0" and "5 \<le> count s"
  shows "does (shared_drop (Suc n) h) os s (\<lambda>_ s'. s' = s\<lparr>count := count s - 2\<rparr>)"
proof -
  have "count s - 2 \<noteq> 0" "count s - 2 \<noteq> 1" "2 \<le> count s"
    using assms(2) by (auto simp: diff_eq_eq elim: order_trans [rotated])
  with assms(1) show ?thesis
    by (simp add: does_def shared_drop_def dec_count_ref.simps(2) s_access_defs linorder_not_less [symmetric])
qed

lemma count_room:
  fixes n :: usize
  assumes "3 \<le> n" and "n \<le> MAX_REFCOUNT - 4"
  shows "n \<le> MAX_REFCOUNT" "n + 2 \<le> MAX_REFCOUNT" "5 \<le> n + 2" "5 \<le> n + 2 + 2"
proof -
  have u: "3 \<le> unat n" "unat n \<le> 0x7FFFFFFFFFFFFFFB"
    using assms by (simp_all add: word_le_nat_alt MAX_REFCOUNT_def)
  then have a: "unat (n + 2) = unat n + 2" by (simp add: unat_word_ariths)
  with u have "unat (n + 2 + 2) = unat n + 4" by (simp add: unat_word_ariths)
  with a u show "n \<le> MAX_REFCOUNT" "n + 2 \<le> MAX_REFCOUNT" "5 \<le> n + 2" "5 \<le> n + 2 + 2"
    by (simp_all add: word_le_nat_alt MAX_REFCOUNT_def)
qed



subsection \<open>What goes wrong\<close>

text \<open>
  A pool is dropped while its worker runs a task and another is queued.  The worker leaves while
  the owner is parked; the lender, which had to wait, does not release the pool, whose queue is
  never dropped: the handle of the queued task waits for ever.
\<close>

definition worker_leaves :: "pool_config \<Rightarrow> 'k \<Rightarrow> ('k, 'w, lock_error + park_result) oprog" where
  "worker_leaves c j =
     pool_section (\<lambda>x. after_section 0 (worker_returns c False (pstate x)) (x\<lparr>finished := finished x @ [j]\<rparr>))
       (\<lambda>_. bind (shared_drop 1 SharedPtr) (\<lambda>_. Ret (Inr Unparked)))"

definition busy_pool :: "'k \<Rightarrow> 'k \<Rightarrow> 'k pool" where
  "busy_pool j k =
     (let x = submit single_config k (submit single_config j (pool_start single_config)) in
      after_section 0 (worker_loop single_config (pstate x)) x)"

lemma pool_drop_leaks_queue:
  "\<exists>s'. run (pool_drop (Suc (Suc 0)) w (worker_leaves single_config j) False \<lparr>pending = False\<rparr>) []
      ((shared_inner_new (busy_pool j k))\<lparr>count := 5\<rparr>) = (Returned (), s') \<and>
    s_freed s' = 0 \<and> queue (pstate (s_value s')) = [k] \<and> over alive (workers (s_value s')) = 0"
  by (simp add: run_def owner_defs worker_leaves_def busy_pool_def Let_def pool_eval shared_inner_new_def
      collect_wait_def lender_collect_def lender_defs block_on_poll_def inner_defs s_access_defs start_drain_def
      worker_returns_def)

lemma unused_task_blocks_join:
  "\<exists>s'. run (jt_join 1 w (Wait (\<lambda>_. False) Hang) the_join) [] (task_new_fn f :: ('v, 'w) task_inner) = (Blocked, s')"
  by (simp add: task_seq_defs block_on_poll_def read_closure_def)

end
