(* ===== verification/StreamIter.thy ===== *)
theory StreamIter
  imports AsyncStream NativeListen
begin

text \<open>
  \<open>suspend-channel/src/util.rs\<close>: the next item of a stream as a future, and a stream as an
  iterator that blocks on each item.  The stream is any type with a \<open>poll_next\<close>: its state is of
  type \<open>'st\<close>, and \<open>block\<close> is \<open>block_on_poll\<close> on its \<open>poll_next\<close> without a timeout.  An iterator
  or a future that borrows the stream has its state beside it.
\<close>

subsection \<open>StreamNextMut\<close>

datatype stream_next_mut = StreamNextMut "unit option"

definition next_mut_from :: "'st \<Rightarrow> stream_next_mut \<times> 'st" where
  "next_mut_from stream = (StreamNextMut (Some ()), stream)"

definition next_mut_poll ::
  "('st \<Rightarrow> ('s, 'st \<times> 'v option poll) prog) \<Rightarrow> stream_next_mut \<times> 'st \<Rightarrow>
   ('s, (stream_next_mut \<times> 'st) \<times> 'v option poll) prog" where
  "next_mut_poll poll_next slf =
     (case slf of
        (StreamNextMut (Some u), stream) \<Rightarrow> bind (poll_next stream) (\<lambda>(stream', result).
          Ret ((StreamNextMut (if is_ready result then None else Some u), stream'), result))
      | (StreamNextMut None, stream) \<Rightarrow> Ret (slf, Ready None))"

definition next_mut_is_terminated :: "stream_next_mut \<times> 'st \<Rightarrow> bool" where
  "next_mut_is_terminated slf = (case fst slf of StreamNextMut r \<Rightarrow> r = None)"

subsection \<open>StreamIter and StreamIterMut\<close>

datatype 'st stream_iter = StreamIter "'st option"

definition stream_iter_from :: "'st \<Rightarrow> 'st stream_iter" where
  "stream_iter_from stream = StreamIter (Some stream)"

text \<open>The iterator owns the stream, and drops it at its end.\<close>

definition stream_iter_next ::
  "('st \<Rightarrow> ('s, 'st \<times> 'v option poll) prog) \<Rightarrow> ('st \<Rightarrow> ('s, unit) prog) \<Rightarrow> 'st stream_iter \<Rightarrow>
   ('s, 'st stream_iter \<times> 'v option) prog" where
  "stream_iter_next block drop_stream slf =
     (case slf of
        StreamIter (Some stream) \<Rightarrow> bind (block stream) (\<lambda>(stream', r). case r of
            Ready result \<Rightarrow>
              (if result = None then bind (drop_stream stream') (\<lambda>_. Ret (StreamIter None, result))
               else Ret (StreamIter (Some stream'), result))
          | Pending \<Rightarrow> Panic ''unreachable'')
      | StreamIter None \<Rightarrow> Ret (slf, None))"

datatype stream_iter_mut = StreamIterMut "unit option"

definition iter_mut_from :: "'st \<Rightarrow> stream_iter_mut \<times> 'st" where
  "iter_mut_from stream = (StreamIterMut (Some ()), stream)"

definition iter_mut_next ::
  "('st \<Rightarrow> ('s, 'st \<times> 'v option poll) prog) \<Rightarrow> stream_iter_mut \<times> 'st \<Rightarrow>
   ('s, (stream_iter_mut \<times> 'st) \<times> 'v option) prog" where
  "iter_mut_next block slf =
     (case slf of
        (StreamIterMut (Some u), stream) \<Rightarrow> bind (block stream) (\<lambda>(stream', r). case r of
            Ready result \<Rightarrow>
              Ret ((StreamIterMut (if result = None then None else Some u), stream'), result)
          | Pending \<Rightarrow> Panic ''unreachable'')
      | (StreamIterMut None, stream) \<Rightarrow> Ret (slf, None))"

text \<open>\<open>stream_into_iter\<close>, \<open>stream_iter\<close> and \<open>stream_next\<close> of \<open>StreamIterExt\<close>.\<close>

definition stream_into_iter :: "'st \<Rightarrow> 'st stream_iter" where
  "stream_into_iter stream = stream_iter_from stream"

definition ext_stream_iter :: "'st \<Rightarrow> stream_iter_mut \<times> 'st" where
  "ext_stream_iter stream = iter_mut_from stream"

definition stream_next :: "'st \<Rightarrow> stream_next_mut \<times> 'st" where
  "stream_next stream = next_mut_from stream"

lemmas stream_iter_defs = next_mut_from_def next_mut_poll_def stream_iter_from_def stream_iter_next_def
  iter_mut_from_def iter_mut_next_def stream_into_iter_def ext_stream_iter_def stream_next_def

text \<open>What a \<open>for\<close> loop over an iterator sees, in at most \<open>k\<close> calls of \<open>next\<close>.\<close>

fun iter_collect :: "nat \<Rightarrow> ('i \<Rightarrow> ('s, 'i \<times> 'v option) prog) \<Rightarrow> 'i \<Rightarrow> ('s, 'i \<times> 'v list) prog" where
  "iter_collect 0 step it = Hang"
| "iter_collect (Suc k) step it =
     bind (step it) (\<lambda>(it', r). case r of
         None \<Rightarrow> Ret (it', [])
       | Some v \<Rightarrow> bind (iter_collect k step it') (\<lambda>(it'', vs). Ret (it'', v # vs)))"

subsection \<open>What a stream promises, and its iterators\<close>

text \<open>
  \<open>rest st\<close> is what the stream has still to give, \<open>ok\<close> relates it to the state between two polls,
  \<open>at_end\<close> after its end, and \<open>done\<close> is the state once it has been dropped.
\<close>

locale blocking_stream =
  fixes block :: "'st \<Rightarrow> ('s, 'st \<times> 'v option poll) prog"
    and drop_stream :: "'st \<Rightarrow> ('s, unit) prog"
    and rest :: "'st \<Rightarrow> 'v list"
    and ok at_end :: "'st \<Rightarrow> 's \<Rightarrow> bool"
    and dropped :: "'s \<Rightarrow> bool"
  assumes next_item: "ok st s \<Longrightarrow> does (block st) os s (\<lambda>(st', p) s'. case rest st of
      [] \<Rightarrow> p = Ready None \<and> at_end st' s'
    | v # vs \<Rightarrow> p = Ready (Some v) \<and> rest st' = vs \<and> ok st' s')"
    and drop_end: "at_end st s \<Longrightarrow> does (drop_stream st) os s (\<lambda>_. dropped)"
begin

lemma stream_iter_next_ok:
  assumes "ok st s"
  shows "does (stream_iter_next block drop_stream (StreamIter (Some st))) os s (\<lambda>(it, r) s'. case rest st of
      [] \<Rightarrow> r = None \<and> it = StreamIter None \<and> dropped s'
    | v # vs \<Rightarrow> r = Some v \<and> (\<exists>st'. it = StreamIter (Some st') \<and> rest st' = vs \<and> ok st' s'))"
  unfolding stream_iter_next_def stream_iter.case option.case
  by (rule does_bind [OF next_item [OF assms]], cases "rest st") (auto intro!: does_bind [OF drop_end])

lemma stream_iter_collects:
  assumes "ok st s" and "length (rest st) < k"
  shows "does (iter_collect k (stream_iter_next block drop_stream) (StreamIter (Some st))) os s
    (\<lambda>(it, vs) s'. vs = rest st \<and> it = StreamIter None \<and> dropped s')"
  using assms
proof (induction k arbitrary: st os s)
  case (Suc k)
  show ?case
    unfolding iter_collect.simps
  proof (rule does_bind [OF stream_iter_next_ok [OF Suc.prems(1)]])
    fix ir s' os'
    assume h: "(\<lambda>(it, r) s'. case rest st of [] \<Rightarrow> r = None \<and> it = StreamIter None \<and> dropped s'
      | v # vs \<Rightarrow> r = Some v \<and> (\<exists>st'. it = StreamIter (Some st') \<and> rest st' = vs \<and> ok st' s')) ir s'"
    show "does (case ir of (it', r) \<Rightarrow> case r of None \<Rightarrow> Ret (it', [])
        | Some v \<Rightarrow> bind (iter_collect k (stream_iter_next block drop_stream) it') (\<lambda>(it'', vs). Ret (it'', v # vs)))
      os' s' (\<lambda>(it, vs) s'. vs = rest st \<and> it = StreamIter None \<and> dropped s')"
    proof (cases "rest st")
      case (Cons v vs)
      with h obtain st' where st': "ir = (StreamIter (Some st'), Some v)" "rest st' = vs" "ok st' s'"
        by (auto split: prod.splits)
      have "does (iter_collect k (stream_iter_next block drop_stream) (StreamIter (Some st'))) os' s'
          (\<lambda>(it, vs) s'. vs = rest st' \<and> it = StreamIter None \<and> dropped s')"
        using st' Cons Suc.prems(2) by (intro Suc.IH) simp_all
      then show ?thesis unfolding st'(1) prod.case option.case
        by (rule does_bind) (auto simp: st'(2) Cons)
    qed (use h in auto)
  qed
qed simp

text \<open>The borrowing iterator gives the same items, and leaves the stream at its end to the owner.\<close>

lemma iter_mut_next_ok:
  assumes "ok st s"
  shows "does (iter_mut_next block (StreamIterMut (Some ()), st)) os s (\<lambda>((it, st'), r) s'. case rest st of
      [] \<Rightarrow> r = None \<and> it = StreamIterMut None \<and> at_end st' s'
    | v # vs \<Rightarrow> r = Some v \<and> it = StreamIterMut (Some ()) \<and> rest st' = vs \<and> ok st' s')"
  unfolding iter_mut_next_def prod.case stream_iter_mut.case option.case
  by (rule does_bind [OF next_item [OF assms]], cases "rest st") auto

end

subsection \<open>The iterator of an async stream\<close>

text \<open>
  The thread-local channel is passed along with the stream.  A poll that is pending is one whose
  generator sleeps on something else, which calls the waker of the listener \<open>i\<close>.
\<close>

definition async_poll_next ::
  "('p, bool) prog \<Rightarrow> nat \<Rightarrow> 'v tls \<times> 'v stream_state \<Rightarrow>
   ('p, ('v tls \<times> 'v stream_state) \<times> 'v option poll) tprog" where
  "async_poll_next unpark i c =
     (case stream_poll_next (snd c) (fst c) of
        Inl (m, s) \<Rightarrow> Panic m
      | Inr (s, st, p) \<Rightarrow>
          (if is_ready p then Ret ((s, st), p)
           else bind (on_listener i (waker_wake_by_ref unpark Waker)) (\<lambda>_. Ret ((s, st), p))))"

definition async_block ::
  "'p \<Rightarrow> (expiry \<Rightarrow> ('p, lock_error + park_result) prog) \<Rightarrow> ('p, bool) prog \<Rightarrow> nat \<Rightarrow>
   'v tls \<times> 'v stream_state \<Rightarrow> ('p, ('v tls \<times> 'v stream_state) \<times> 'v option poll) tprog" where
  "async_block p park unpark n c = thread_block_on_poll p park n (async_poll_next unpark) c (Expiry None)"

text \<open>\<open>IntoIterator\<close> for a pinned stream: the iterator owns the reference.\<close>

definition async_into_iter :: "'v tls \<Rightarrow> 'v stream_state \<Rightarrow> ('v tls \<times> 'v stream_state) stream_iter" where
  "async_into_iter t st = stream_iter_from (t, st)"

primrec state_rest :: "'v stream_state \<Rightarrow> 'v list" where
  "state_rest (Init g) = yields g"
| "state_rest (Polling g) = yields g"
| "state_rest Complete = []"

primrec state_turns :: "'v stream_state \<Rightarrow> nat" where
  "state_turns (Init g) = turns_left g"
| "state_turns (Polling g) = turns_left g"
| "state_turns Complete = 0"

primrec state_resumable :: "'v stream_state \<Rightarrow> bool" where
  "state_resumable (Init g) = resumable g"
| "state_resumable (Polling g) = resumable g"
| "state_resumable Complete = True"

lemma stream_poll_next_ok:
  assumes "state_resumable st"
  shows "\<exists>st' p. stream_poll_next st s = Inr (s, st', p) \<and> state_resumable st' \<and> state_turns st' \<le> state_turns st \<and>
    (case p of
       Pending \<Rightarrow> state_rest st' = state_rest st \<and> state_turns st' < state_turns st
     | Ready None \<Rightarrow> state_rest st = []
     | Ready (Some v) \<Rightarrow> state_rest st = v # state_rest st')"
proof (cases st)
  case Complete
  then show ?thesis by (simp add: stream_poll_next_def)
next
  case (Init g)
  with assms poll_generator_ok [of g s] show ?thesis
    by (force simp: stream_poll_next_def split: option.splits)
next
  case (Polling g)
  with assms poll_generator_ok [of g s] show ?thesis
    by (force simp: stream_poll_next_def split: option.splits)
qed

text \<open>A stream between two polls, with \<open>vs\<close> to give and at most \<open>k\<close> pending polls to come.\<close>

definition async_at :: "'v tls \<Rightarrow> nat \<Rightarrow> 'v list \<Rightarrow> 'v tls \<times> 'v stream_state \<Rightarrow> bool" where
  "async_at t k vs c = (fst c = t \<and> state_resumable (snd c) \<and> state_turns (snd c) \<le> k \<and> state_rest (snd c) = vs)"

lemma async_poll_cases:
  assumes "async_at t k vs c"
  obtains c' p where "stream_poll_next (snd c) (fst c) = Inr (fst c', snd c', p)"
    and "p = Pending \<Longrightarrow> async_at t k vs c' \<and> state_turns (snd c') < state_turns (snd c)"
    and "\<And>x. p = Ready x \<Longrightarrow> case vs of [] \<Rightarrow> x = None | v # vs' \<Rightarrow> x = Some v \<and> async_at t k vs' c'"
proof -
  from assms have r: "state_resumable (snd c)" and e: "fst c = t" "state_turns (snd c) \<le> k" "state_rest (snd c) = vs"
    by (simp_all add: async_at_def)
  from stream_poll_next_ok [OF r, of t] obtain st' p where
    "stream_poll_next (snd c) t = Inr (t, st', p)" "state_resumable st'" "state_turns st' \<le> state_turns (snd c)"
    "case p of Pending \<Rightarrow> state_rest st' = state_rest (snd c) \<and> state_turns st' < state_turns (snd c)
     | Ready None \<Rightarrow> state_rest (snd c) = []
     | Ready (Some v) \<Rightarrow> state_rest (snd c) = v # state_rest st'" by blast
  with e show ?thesis
    by (intro that [of "(t, st')" p]) (auto simp: async_at_def split: list.splits option.splits)
qed

context parked_listener
begin

lemma async_poll_at:
  assumes "async_at t k vs c" and "listener_at idle i cc b ls s"
  shows "does (async_poll_next unpark i c) os s (\<lambda>(c', r) s'. case r of
      Ready x \<Rightarrow> (case vs of [] \<Rightarrow> x = None | v # vs' \<Rightarrow> x = Some v \<and> async_at t k vs' c') \<and>
        listener_at idle i cc b ls s'
    | Pending \<Rightarrow> (async_at t k vs c' \<and> listener_at (\<lambda>p. idle p \<and> notified p) i cc b ls s') \<and>
        state_turns (snd c') < state_turns (snd c))"
proof -
  from async_poll_cases [OF assms(1)] obtain c' p where
    p: "stream_poll_next (snd c) (fst c) = Inr (fst c', snd c', p)"
      "p = Pending \<Longrightarrow> async_at t k vs c' \<and> state_turns (snd c') < state_turns (snd c)"
      "\<And>x. p = Ready x \<Longrightarrow> case vs of [] \<Rightarrow> x = None | v # vs' \<Rightarrow> x = Some v \<and> async_at t k vs' c'"
    by blast
  show ?thesis
  proof (cases p)
    case Pending
    with p(1) have e: "async_poll_next unpark i c =
        bind (on_listener i (waker_wake_by_ref unpark Waker)) (\<lambda>_. Ret (c', Pending))"
      by (simp add: async_poll_next_def)
    show ?thesis unfolding e
      by (rule does_bind [OF wake_at [OF assms(2)]]) (use p(2) Pending in simp)
  next
    case (Ready x)
    with p(1) have "async_poll_next unpark i c = Ret (c', Ready x)" by (simp add: async_poll_next_def)
    with p(3) [OF Ready] assms(2) show ?thesis by simp
  qed
qed

lemma async_block_ok:
  assumes "async_at t k vs c" and "k < n" and "listener_at idle 0 cc False [] s"
  shows "does (async_block p park unpark n c) os s (\<lambda>(c', r) s'.
      (case vs of [] \<Rightarrow> r = Ready None | v # vs' \<Rightarrow> r = Ready (Some v) \<and> async_at t k vs' c') \<and>
      listener_at idle 0 cc False [] s')"
proof -
  let ?Q = "\<lambda>c' x s'. (case vs of [] \<Rightarrow> x = None | v # vs' \<Rightarrow> x = Some v \<and> async_at t k vs' c') \<and>
        listener_at idle 0 cc True [] s'"
  from assms(3) have b: "\<not> t_borrowed s" by (simp add: listener_at_def)
  from assms(3) have l: "listener_at idle 0 cc True [] (s\<lparr>t_borrowed := True\<rparr>)" by (simp add: listener_at_def)
  have "does (block_on_poll n (async_poll_next unpark 0)
      (on_listener 0 (guard_park park (listener_get_mut Listener) (Expiry None))) c) os (s\<lparr>t_borrowed := True\<rparr>)
    (\<lambda>(c', r) s'. \<exists>x. r = Ready x \<and> ?Q c' x s')"
  proof (rule block_on_poll_returns [where A = "\<lambda>c s. async_at t k vs c \<and> listener_at idle 0 cc True [] s"
        and W = "\<lambda>c s. async_at t k vs c \<and> listener_at (\<lambda>p. idle p \<and> notified p) 0 cc True [] s"
        and m = "\<lambda>c. state_turns (snd c)"])
    fix c s os assume "async_at t k vs c \<and> listener_at (\<lambda>p. idle p \<and> notified p) 0 cc True [] s"
    then show "does (on_listener 0 (guard_park park (listener_get_mut Listener) (Expiry None))) os s
        (\<lambda>r s'. (r = Inr Skipped \<or> r = Inr Unparked) \<and> async_at t k vs c \<and> listener_at idle 0 cc True [] s')"
      by (intro does_weaken [OF park_at]) auto
  qed (use assms(1,2) l in \<open>simp_all add: async_poll_at async_at_def\<close>)
  then have "does (bind (block_on_poll n (async_poll_next unpark 0)
      (on_listener 0 (guard_park park (listener_get_mut Listener) (Expiry None))) c)
      (\<lambda>r. Act (\<lambda>s. s\<lparr>t_borrowed := False\<rparr>) (\<lambda>_. Ret r))) os (s\<lparr>t_borrowed := True\<rparr>)
    (\<lambda>(c', r) s'. (case vs of [] \<Rightarrow> r = Ready None | v # vs' \<Rightarrow> r = Ready (Some v) \<and> async_at t k vs' c') \<and>
      listener_at idle 0 cc False [] s')"
    by (rule does_bind, cases vs) (auto simp: does_def listener_at_def)
  with b show ?thesis
    by (simp add: async_block_def thread_block_on_poll_def with_listener_def does_def)
qed

text \<open>The future of the next item, awaited by \<open>block_on\<close>.\<close>

lemma async_next_ok:
  assumes "async_at t k vs c" and "k < n" and "listener_at idle 0 cc False [] s"
  shows "does (thread_block_on p park n (\<lambda>i. next_mut_poll (async_poll_next unpark i)) (stream_next c)) os s
    (\<lambda>r s'. r = (case vs of [] \<Rightarrow> None | v # vs' \<Rightarrow> Some v) \<and> listener_at idle 0 cc False [] s')"
proof -
  let ?r = "case vs of [] \<Rightarrow> None | v # vs' \<Rightarrow> Some v"
  let ?A = "\<lambda>ok f s. fst f = StreamNextMut (Some ()) \<and> async_at t k vs (snd f) \<and> listener_at ok 0 cc True [] s"
  from assms(3) have b: "\<not> t_borrowed s" by (simp add: listener_at_def)
  from assms(3) have l: "listener_at idle 0 cc True [] (s\<lparr>t_borrowed := True\<rparr>)" by (simp add: listener_at_def)
  have "does (block_on n (next_mut_poll (async_poll_next unpark 0))
      (on_listener 0 (guard_park park (listener_get_mut Listener) (Expiry None))) (stream_next c)) os
      (s\<lparr>t_borrowed := True\<rparr>) (\<lambda>r s'. r = ?r \<and> listener_at idle 0 cc True [] s')"
  proof (rule block_on_returns [where A = "?A idle" and W = "?A (\<lambda>p. idle p \<and> notified p)"
        and m = "\<lambda>f. state_turns (snd (snd f))"])
    fix f :: "stream_next_mut \<times> 'b tls \<times> 'b stream_state" and os s
    assume a: "?A idle f s"
    then obtain c where f: "f = (StreamNextMut (Some ()), c)" by (cases f) simp
    with a have c: "async_at t k vs c" "listener_at idle 0 cc True [] s" by simp_all
    show "does (next_mut_poll (async_poll_next unpark 0) f) os s (\<lambda>(f', r) s'. case r of
        Ready x \<Rightarrow> x = ?r \<and> listener_at idle 0 cc True [] s'
      | Pending \<Rightarrow> ?A (\<lambda>p. idle p \<and> notified p) f' s' \<and> state_turns (snd (snd f')) < state_turns (snd (snd f)))"
      unfolding f next_mut_poll_def prod.case stream_next_mut.case option.case
      by (rule does_bind [OF async_poll_at [OF c]]) (cases vs; auto split: poll.splits)
  next
    fix f :: "stream_next_mut \<times> 'b tls \<times> 'b stream_state" and os s
    assume "?A (\<lambda>p. idle p \<and> notified p) f s"
    then show "does (on_listener 0 (guard_park park (listener_get_mut Listener) (Expiry None))) os s
        (\<lambda>r s'. (\<exists>x. r = Inr x) \<and> ?A idle f s')"
      by (intro does_weaken [OF park_at]) auto
  qed (use assms(1,2) l in \<open>simp_all add: async_at_def stream_iter_defs\<close>)
  then have "does (bind (block_on n (next_mut_poll (async_poll_next unpark 0))
      (on_listener 0 (guard_park park (listener_get_mut Listener) (Expiry None))) (stream_next c))
      (\<lambda>r. Act (\<lambda>s. s\<lparr>t_borrowed := False\<rparr>) (\<lambda>_. Ret r))) os (s\<lparr>t_borrowed := True\<rparr>)
    (\<lambda>r s'. r = ?r \<and> listener_at idle 0 cc False [] s')"
    by (rule does_bind) (simp add: does_def listener_at_def)
  with b show ?thesis
    by (simp add: thread_block_on_def with_listener_def does_def)
qed

end

text \<open>On any parker with the laws of a listener, an async stream is a stream to iterate over.\<close>

sublocale parked_listener \<subseteq> async: blocking_stream "async_block p park unpark (Suc k)" "\<lambda>_. Ret ()"
  "\<lambda>c. state_rest (snd c)"
  "\<lambda>c s. async_at t k (state_rest (snd c)) c \<and> listener_at idle 0 cc False [] s"
  "\<lambda>_. listener_at idle 0 cc False []" "listener_at idle 0 cc False []"
  for p k t cc
proof
  fix c :: "'b tls \<times> 'b stream_state" and s os
  assume "async_at t k (state_rest (snd c)) c \<and> listener_at idle 0 cc False [] s"
  then have a: "async_at t k (state_rest (snd c)) c" "listener_at idle 0 cc False [] s" by simp_all
  show "does (async_block p park unpark (Suc k) c) os s (\<lambda>(c', r) s'. case state_rest (snd c) of
      [] \<Rightarrow> r = Ready None \<and> listener_at idle 0 cc False [] s'
    | v # vs \<Rightarrow> r = Ready (Some v) \<and> state_rest (snd c') = vs \<and>
        async_at t k (state_rest (snd c')) c' \<and> listener_at idle 0 cc False [] s')"
    by (rule does_weaken [OF async_block_ok [OF a(1) lessI a(2)]], cases "state_rest (snd c)")
      (auto simp: async_at_def)
qed simp



text \<open>C40. Awaiting \<open>stream_next\<close> on a fresh stream, under \<open>block_on\<close> with the futex parker and any
  kernel, gives its first value, or \<open>None\<close> for a stream that sends nothing, and leaves the
  listener free.\<close>

theorem stream_next_first:
  assumes "listener_at futex_idle 0 cc False [] s" and "resumable g" and "turns_left g < n"
  shows "does (thread_block_on p (futex_raw_park K m) n
      (\<lambda>i. next_mut_poll (async_poll_next (futex_unpark K) i)) (stream_next (t, make_stream g))) os s
    (\<lambda>r s'. r = (case yields g of [] \<Rightarrow> None | v # vs \<Rightarrow> Some v) \<and> listener_at futex_idle 0 cc False [] s')"
proof -
  have "async_at t (turns_left g) (yields g) (t, make_stream g)"
    using assms(2) by (simp add: async_at_def make_stream_def)
  then show ?thesis by (rule nat_futex.async_next_ok [OF _ assms(3,1)])
qed

theorem stream_next_first_witness:
  "\<exists>s'. run (thread_block_on (futex_park_new linux_start) (futex_raw_park linux 1) 4
      (\<lambda>i. next_mut_poll (async_poll_next (futex_unpark linux) i))
      (stream_next (\<lparr>channel = None, frames = []\<rparr>, make_stream (Sleep (Send (7 :: nat) Finish)))))
     [] (thread_listen (futex_park_new linux_start)) = (Returned (Some 7), s') \<and> \<not> t_borrowed s'"
proof -
  have "listener_at futex_idle 0 2 False [] (thread_listen (futex_park_new linux_start))"
    by (simp add: listener_at_def thread_listen_def listen_inner_new_with_count_def futex_idle_def
        futex_park_new_def futex_state_defs)
  from does_run [OF stream_next_first [OF this, of "Sleep (Send (7 :: nat) Finish)" 4 "futex_park_new linux_start"
      linux 1 "\<lparr>channel = None, frames = []\<rparr>" "[]"]]
  show ?thesis by (auto simp: listener_at_def)
qed

end
