(* ===== verification/Spec2Isabelle.thy ===== *)
theory Spec2Isabelle
  imports CopyCell ChannelSpec ChannelEnds OnceProtocol ChannelRace StreamSound SharedCount SharedRace ThreadPool
    AsyncStream DefaultPark PthreadPark FutexPark ListenCount NativeListen BlockNative Task ScopeCount PoolOwner PoolScope StreamIter
begin

text \<open>
  A model of suspend-rs, the primitives for suspending and waking threads and futures, with the
  theorems that make it correct.

  \<^bold>\<open>The program.\<close>  Four crates build on each other:
  \<^item> \<open>maybe-cell\<close> has cells that may be empty, with and without checks at run time;
  \<^item> \<open>suspend-core\<close> parks and wakes threads: a parker per platform (\<open>raw_park\<close>), a counted
    listener around a parker whose handles are notifiers and wakers (\<open>listen.rs\<close>), and
    \<open>block_on\<close> and its relatives, which block a thread on a future (\<open>thread.rs\<close>); on these
    rest the values that are lent to other threads and collected again (\<open>shared.rs\<close>, on the
    heap, and \<open>scoped.rs\<close>, on the stack);
  \<^item> \<open>suspend-channel\<close> has a channel for one value at a time whose two sides share one word of
    state and one waker (\<open>channel.rs\<close>), tasks that are a function and such a channel
    (\<open>task.rs\<close>), streams from generators (\<open>async_stream.rs\<close>) and iterators over streams
    (\<open>util.rs\<close>);
  \<^item> \<open>suspend-exec\<close> has a thread pool (\<open>threadpool.rs\<close>), which runs tasks, is held by a lender
    that its owner collects when the pool is drained or dropped, and gives out scopes.

  \<^bold>\<open>How code is modelled.\<close>  A piece of code on shared memory is a tree of atomic actions
  (\<open>prog\<close> of \<open>Prelude\<close>): one action for each atomic access, each access of the memory that is
  guarded by the state word, each call of a waker and each release of an allocation.  \<open>exec\<close>
  runs it alone, \<open>does\<close> says that it then returns and how, \<open>reach\<close> interleaves it with the code
  of other threads.  A choice that the code does not make (a spurious failure of
  \<open>compare_exchange_weak\<close>, a timeout) is a \<open>Pick\<close>, and the statements hold for all of them.
  State words and counters are machine words and wrap.  A panic, a failed assertion, a use of
  released or uninitialised memory and an overflow that the code would check are \<open>Panic\<close>; a
  loop has a number of turns, and \<open>Hang\<close> is where it has used them up.  The log of a state holds
  the calls made into code that is not here: wakers called, cloned and dropped, values dropped.

  \<^bold>\<open>The theories.\<close>
  \<^item> \<open>Prelude\<close>, \<open>CoreTypes\<close>: programs and interleavings; \<open>Poll\<close>, \<open>Expiry\<close>, \<open>ParkResult\<close>,
    \<open>LockError\<close>.  \<open>Explore\<close>: exhaustive search of the interleavings of a few threads, proved to
    cover every reachable configuration.  \<open>Refcount\<close>: the interface between a reference count
    and the threads that hold references, interpreted for listeners and for shared values.
  \<^item> \<open>MaybeCell\<close>, \<open>CopyCell\<close> (\<open>maybe-cell/src/lib.rs\<close>): the cells; the locale \<open>cell\<close> is what
    their users rely on, interpreted for both variants.
  \<^item> \<open>Channel\<close> (the struct \<open>Channel\<close> of \<open>channel.rs\<close>), \<open>ChannelSpec\<close> (an abstract channel, and
    the refinement of \<open>write\<close>, \<open>flush\<close>, \<open>read\<close> and \<open>drop_one_side\<close>), \<open>ChannelEnds\<close> (its ends and
    futures), \<open>OnceProtocol\<close> (all call sequences on a one-shot channel), \<open>ChannelRace\<close> (two
    calls on two threads), \<open>StreamPlaces\<close>, \<open>StreamRace\<close>, \<open>StreamSound\<close> (a \<open>Sender\<close> and a
    \<open>Receiver\<close> on two threads, any number of calls: the code cut at its places, the invariant
    over the places, and that every step keeps it).
  \<^item> \<open>SharedLender\<close> (\<open>shared.rs\<close>), \<open>SharedCount\<close> (any number of borrows on any number of
    threads), \<open>SharedRace\<close> (a lender that waits), \<open>Scoped\<close> (\<open>scoped.rs\<close>), \<open>ScopeCount\<close> (a scope
    or a waiting lender, with any number of borrows on any number of threads).
  \<^item> \<open>ParkRules\<close> (\<open>raw_park/mod.rs\<close>: the locale \<open>raw_parker\<close>), \<open>ParkRace\<close> (one thread that parks
    and any number that notify it: the locale \<open>notified_park\<close>), \<open>LockPark\<close> (the invariant of the
    parkers with a mutex), \<open>DefaultPark\<close>, \<open>PthreadPark\<close>, \<open>FutexPark\<close> (the three parkers, each an
    interpretation of both locales), \<open>Listen\<close>, \<open>ListenCount\<close>
    (\<open>listen.rs\<close>; the locale \<open>parked_listener\<close>), \<open>ThreadBlock\<close>, \<open>ThreadListen\<close> (\<open>thread.rs\<close>),
    \<open>NativeListen\<close> (both on the native parkers), \<open>BlockRace\<close>, \<open>BlockNative\<close> (\<open>block_on\<close> against the
    wakers of other threads; the locale \<open>blocking_park\<close>, which extends \<open>notified_park\<close>).
  \<^item> \<open>Task\<close> (\<open>task.rs\<close>), \<open>AsyncStream\<close> (\<open>async_stream.rs\<close>), \<open>StreamIter\<close> (\<open>util.rs\<close>; the locale
    \<open>blocking_stream\<close>, a sublocale of the listener's), \<open>ThreadPool\<close> (the sections under the
    pool's mutex as steps), \<open>PoolOwner\<close> (the borrows of the worker threads and the owner that
    collects them), \<open>PoolScope\<close> (the owner's calls and scopes as programs).

  \<^bold>\<open>What is shown.\<close>
  \<^item> Cells: the checked cell decides the discipline of its users, the unchecked one agrees.
  \<^item> Channels: alone, each operation refines an abstract channel for every waker and every
    number of spurious failures, and no sequence of calls on a one-shot channel panics, leaks
    or loses a value.  Concurrently, a sender and a receiver that are not dropped keep the order,
    lose no value and no wakeup, for any calls; two pairs of calls that end a one-shot channel
    are safe in every interleaving, and others are not.
  \<^item> Counts: a lent value and a listener are released exactly when the last of any number of
    threads is done, and a scope is left only after that, for any scripts of those threads.
  \<^item> Parkers: call by call each is a flag and a notification; a park, with or without a
    timeout, against any number of notifiers loses no wakeup and is never stuck; timeouts and timespecs are exact.
  \<^item> Blocking: \<open>block_on\<close> and the stream iterator return, within a bound on their turns, when
    what they poll calls its waker whenever it is pending; nested calls use their own listener;
    with the wakers on any number of other threads \<open>block_on\<close> misses no wakeup, park after park.
  \<^item> Tasks, streams and pools: a function is called or dropped once and the handle told so; a
    stream yields what its generator sends; no task is lost, counters and bounds of the pool
    hold, and after a drain no thread touches the pool.

  \<^bold>\<open>What goes wrong.\<close>  Where the code does not keep its promise the model has a run that shows
  it: sections named \<open>What goes wrong\<close>, with lemmas that exhibit the schedule.  Most concern two
  sides of a channel that meet in \<open>drop_one_side\<close> or in the slow path of \<open>write\<close>, and a collection
  that had to wait, which leaves the counter of \<open>SharedInner\<close> at 2.

  \<^bold>\<open>Bounds.\<close>  A refinement lemma gives a loop more turns than the spurious failures in the list
  of choices, so the loops return.  The searches give each loop two to five turns, and end by
  themselves well below the depth given (40 to 60 steps).  Counting theorems ask that fewer
  than \<open>2 ^ 61\<close> references can come to exist, which keeps a word of 64 bits below the limit at
  which the code panics.

  \<^bold>\<open>Not modelled.\<close>
  \<^item> The memory orderings: memory is sequentially consistent.
  \<^item> Code outside the repository is a parameter with its documented behaviour: the C library
    and the kernel of the parkers (\<open>libc\<close>, \<open>kernel\<close>), the values and functions of the user,
    wakers.  A generator is the list of what it does at its await points.
  \<^item> \<open>Debug\<close> output, marker traits, trait impls that forward to a method that is modelled
    (\<open>Borrow\<close>, \<open>AsRef\<close>), \<open>BoxPtr\<close> (a pointer to the one allocation of a state), the clock of
    macOS, the build without \<open>std\<close>, module declarations and macros, and tests.
  \<^item> The spawn of a thread and its failure, tracing, and the unwinding of a panic through a
    scope; the owner of a pool is a step relation for any number of threads (\<open>PoolOwner\<close>) and a
    program for itself alone (\<open>PoolScope\<close>).
\<close>

end
